(* ===== verification/Pmwcas_Prelude.thy ===== *)
theory Pmwcas_Prelude
  imports Main "HOL-Library.Word"
begin

unbundle bit_operations_syntax

text \<open>
  Shared vocabulary of the development: the machine integer types of the C++ code, the values
  that stand for an aborted process (a failed \<open>RAW_CHECK\<close>), the collections of rewrite rules
  the component theories extend, and the generic lemmas on words, lists and options that
  several components use.
\<close>

section \<open>Types\<close>

type_synonym u64 = "64 word"
type_synonym u32 = "32 word"
type_synonym u16 = "16 word"
type_synonym i64 = "64 word"

text \<open>
  A fatal check (\<open>RAW_CHECK\<close>, \<open>LOG(FATAL)\<close>) ends the process. Operations that contain such a
  check return a value of \<open>'a checked\<close>: \<open>Inl\<close> carries the text of the check that fired.
\<close>

type_synonym 'a checked = "string + 'a"

definition bind_checked :: "'a checked \<Rightarrow> ('a \<Rightarrow> 'b checked) \<Rightarrow> 'b checked" where
  "bind_checked m f = (case m of Inl e \<Rightarrow> Inl e | Inr x \<Rightarrow> f x)"

named_theorems flag_simps \<open>rewrite rules for the flag bits of target words\<close>
named_theorems flag_defs \<open>definitions of the flag predicates as single bit tests\<close>
named_theorems inv_simps \<open>unfolding of invariants into their clauses\<close>

lemma bind_checked_simps [simp]:
  "bind_checked (Inl e) f = Inl e"
  "bind_checked (Inr x) f = f x"
  by (simp_all add: bind_checked_def)

lemma bind_checked_eq_Inr:
  "bind_checked m f = Inr y \<longleftrightarrow> (\<exists>x. m = Inr x \<and> f x = Inr y)"
  by (cases m) auto

section \<open>Words\<close>

lemma and_exp_neq_0_iff:
  fixes x :: "'a::len word"
  shows "x AND 2 ^ n \<noteq> 0 \<longleftrightarrow> bit x n"
proof (cases "n < LENGTH('a)")
  case True
  show ?thesis
  proof
    assume "bit x n"
    then have "bit (x AND 2 ^ n) n"
      using True by (simp add: bit_and_iff bit_exp_iff)
    then show "x AND 2 ^ n \<noteq> 0" by auto
  next
    assume "x AND 2 ^ n \<noteq> 0"
    then obtain m where "bit (x AND 2 ^ n) m"
      by (auto simp: bit_eq_iff)
    then show "bit x n" by (auto simp: bit_and_iff bit_exp_iff)
  qed
next
  case False
  then have zero: "(2 :: 'a word) ^ n = 0" by simp
  have "\<not> bit x n"
    using False bit_imp_le_length [of x n] by auto
  then show ?thesis unfolding zero by simp
qed

text \<open>Extensionality on bits for words only (the library rule also splits equations of \<open>nat\<close>).\<close>

lemma word_eq_bits:
  fixes v w :: "'a::len word"
  shows "v = w \<longleftrightarrow> (\<forall>n. bit v n \<longleftrightarrow> bit w n)"
  using bit_eqI [of v w] by auto

lemma unat_of_nat_small: "k < 2 ^ LENGTH('a) \<Longrightarrow> unat (of_nat k :: 'a::len word) = k"
  by (simp add: unat_of_nat)

section \<open>Lists and options\<close>

lemma find_unique:
  assumes "x \<in> set xs" and "P x" and uniq: "\<And>y. y \<in> set xs \<Longrightarrow> P y \<Longrightarrow> y = x"
  shows "find P xs = Some x"
proof (cases "find P xs")
  case None
  then show ?thesis using assms(1,2) by (auto simp: find_None_iff)
next
  case (Some y)
  then have "y \<in> set xs" and "P y" by (auto simp: find_Some_iff)
  then show ?thesis using uniq Some by simp
qed

lemma find_SomeD:
  assumes "find P xs = Some x"
  shows "x \<in> set xs" and "P x"
  using assms by (auto simp: find_Some_iff)

lemma sorted_wrt_nth_eq:
  fixes f :: "'b \<Rightarrow> 'a::linorder"
  assumes "sorted_wrt (<) (map f xs)" and "i < length xs" and "j < length xs"
    and "f (xs ! i) = f (xs ! j)"
  shows "i = j"
proof (rule ccontr)
  assume "i \<noteq> j"
  then consider "i < j" | "j < i" by linarith
  then show False
    using sorted_wrt_nth_less [OF assms(1), of i j] sorted_wrt_nth_less [OF assms(1), of j i] assms(2-4)
    by cases simp_all
qed

section \<open>Reachable states and invariants\<close>

text \<open>
  The states of a system that starts in a state satisfying \<open>init\<close> and moves by \<open>step\<close>. The locale
  is the contract of an inductive invariant; its lemmas are used for every state machine of the
  development.
\<close>

inductive reach :: "('s \<Rightarrow> bool) \<Rightarrow> ('s \<Rightarrow> 's \<Rightarrow> bool) \<Rightarrow> 's \<Rightarrow> bool"
  for init :: "'s \<Rightarrow> bool" and step :: "'s \<Rightarrow> 's \<Rightarrow> bool" where
  reach_init: "init s \<Longrightarrow> reach init step s"
| reach_step: "reach init step s \<Longrightarrow> step s s' \<Longrightarrow> reach init step s'"

locale invariant_system =
  fixes init :: "'s \<Rightarrow> bool" and step :: "'s \<Rightarrow> 's \<Rightarrow> bool" and inv :: "'s \<Rightarrow> bool"
  assumes inv_init: "init s \<Longrightarrow> inv s"
    and inv_step: "inv s \<Longrightarrow> step s s' \<Longrightarrow> inv s'"
begin

lemma reach_inv: "reach init step s \<Longrightarrow> inv s"
  by (induction rule: reach.induct) (auto intro: inv_init inv_step)

lemma steps_inv:
  assumes "inv s" and "step\<^sup>*\<^sup>* s s'"
  shows "inv s'"
  using assms(2,1) by (induction rule: rtranclp_induct) (auto intro: inv_step)

text \<open>A relation between consecutive states that every step satisfies under the invariant, and that
  composes, holds between a reachable state and all later ones.\<close>

lemma steps_rel:
  assumes "\<And>s s'. inv s \<Longrightarrow> step s s' \<Longrightarrow> R s s'" and "\<And>s. R s s"
    and "\<And>s s' s''. R s s' \<Longrightarrow> R s' s'' \<Longrightarrow> R s s''"
    and "inv s" and "step\<^sup>*\<^sup>* s s'"
  shows "R s s'"
  using assms(5)
proof (induction rule: rtranclp_induct)
  case base
  show ?case by (rule assms(2))
next
  case (step y z)
  then show ?case using assms(1,3) steps_inv [OF assms(4)] by blast
qed

end

end
