(* ===== verification/Slice.thy ===== *)
theory Slice
  imports Pmwcas_Prelude "HOL-Library.Char_ord" "HOL-Library.List_Lexorder"
begin

text \<open>
  \<open>Slice\<close> (\<open>src/include/slice.h\<close>): a view of a byte array, \<open>sdata\<close> the bytes from \<open>data_\<close> on and
  \<open>ssize\<close> the length of the view. Failed assertions are \<open>Inl\<close>. The comparisons are shown to be the
  lexicographic order on the bytes of the two views.
\<close>

section \<open>Slices\<close>

record slice =
  sdata :: string
  ssize :: nat

definition slice_empty :: slice where
  "slice_empty = \<lparr>sdata = [], ssize = 0\<rparr>"

definition slice_of :: "string \<Rightarrow> slice" where
  "slice_of s = \<lparr>sdata = s, ssize = length s\<rparr>"

definition wf_slice :: "slice \<Rightarrow> bool" where
  "wf_slice s \<longleftrightarrow> ssize s \<le> length (sdata s)"

definition bytes :: "slice \<Rightarrow> string" where
  "bytes s = take (ssize s) (sdata s)"

definition slice_is_empty :: "slice \<Rightarrow> bool" where
  "slice_is_empty s \<longleftrightarrow> ssize s = 0"

definition slice_index :: "slice \<Rightarrow> nat \<Rightarrow> char checked" where
  "slice_index s n = (if n < ssize s then Inr (sdata s ! n) else Inl ''n < size()'')"

definition slice_clear :: "slice \<Rightarrow> slice" where
  "slice_clear s = \<lparr>sdata = [], ssize = 0\<rparr>"

definition remove_prefix :: "slice \<Rightarrow> nat \<Rightarrow> slice checked" where
  "remove_prefix s n =
     (if n \<le> ssize s then Inr \<lparr>sdata = drop n (sdata s), ssize = ssize s - n\<rparr> else Inl ''n <= size()'')"

definition remove_suffix :: "slice \<Rightarrow> nat \<Rightarrow> slice checked" where
  "remove_suffix s n = (if n \<le> ssize s then Inr (s\<lparr>ssize := ssize s - n\<rparr>) else Inl ''n <= size()'')"

text \<open>\<open>copy\<close>: the bytes written at the destination.\<close>

definition slice_copy :: "slice \<Rightarrow> nat \<Rightarrow> string checked" where
  "slice_copy s dest_size =
     (if ssize s \<le> dest_size then Inr (take (ssize s) (sdata s)) else Inl ''dest_size >= size_'')"

definition slice_copy_count :: "slice \<Rightarrow> nat \<Rightarrow> nat \<Rightarrow> string checked" where
  "slice_copy_count s dest_size cnt =
     (if \<not> cnt \<le> ssize s then Inl ''count <= size_''
      else if \<not> cnt \<le> dest_size then Inl ''dest_size >= count''
      else Inr (take cnt (sdata s)))"

section \<open>Comparison\<close>

text \<open>\<open>memcmp\<close> of the C library: the sign of the first difference among the first \<open>n\<close> bytes.\<close>

fun memcmp :: "string \<Rightarrow> string \<Rightarrow> nat \<Rightarrow> int" where
  "memcmp (b1 # buf1) (b2 # buf2) (Suc n) =
     (if b1 \<noteq> b2 then (if b1 < b2 then -1 else 1) else memcmp buf1 buf2 n)"
| "memcmp buf1 buf2 n = 0"

text \<open>The loop of \<open>memcmp_with_index\<close>; \<open>i\<close> is the value of \<open>index\<close>.\<close>

fun memcmp_loop :: "string \<Rightarrow> string \<Rightarrow> nat \<Rightarrow> nat \<Rightarrow> int \<times> nat" where
  "memcmp_loop (b1 # buf1) (b2 # buf2) (Suc n) i =
     (if b1 \<noteq> b2 then (if b1 < b2 then -1 else 1, i) else memcmp_loop buf1 buf2 n (Suc i))"
| "memcmp_loop buf1 buf2 n i = (0, i)"

definition memcmp_with_index :: "string \<Rightarrow> string \<Rightarrow> nat \<Rightarrow> int \<times> nat" where
  "memcmp_with_index buf1 buf2 n = memcmp_loop buf1 buf2 n 0"

text \<open>\<open>if(size_ < b.size_) r = -1; else if(size_ > b.size_) r = +1;\<close>\<close>

definition by_size :: "nat \<Rightarrow> nat \<Rightarrow> int \<Rightarrow> int" where
  "by_size n m r = (if n < m then -1 else if n > m then 1 else r)"

definition starts_with :: "slice \<Rightarrow> slice \<Rightarrow> bool" where
  "starts_with s x \<longleftrightarrow> ssize s \<ge> ssize x \<and> memcmp (sdata s) (sdata x) (ssize x) = 0"

definition slice_eq :: "slice \<Rightarrow> slice \<Rightarrow> bool" where
  "slice_eq x y \<longleftrightarrow> ssize x = ssize y \<and> memcmp (sdata x) (sdata y) (ssize x) = 0"

definition slice_compare :: "slice \<Rightarrow> slice \<Rightarrow> int" where
  "slice_compare s b =
     (let min_len = min (ssize s) (ssize b); r = memcmp (sdata s) (sdata b) min_len in
      if r = 0 then by_size (ssize s) (ssize b) r else r)"

definition slice_compare_with_index :: "slice \<Rightarrow> slice \<Rightarrow> int \<times> nat" where
  "slice_compare_with_index s b =
     (let min_len = min (ssize s) (ssize b) in
      case memcmp_with_index (sdata s) (sdata b) min_len of (r, index) \<Rightarrow>
        (if r = 0 then by_size (ssize s) (ssize b) r else r, index))"

definition slice_compare_len :: "slice \<Rightarrow> slice \<Rightarrow> nat \<Rightarrow> int" where
  "slice_compare_len s b len =
     (let min_len = min (ssize s) (ssize b); r = memcmp (sdata s) (sdata b) (min min_len len) in
      if r = 0 \<and> min_len < len
      then by_size (ssize s) (ssize b) r else r)"

definition slice_compare_with_index_len :: "slice \<Rightarrow> slice \<Rightarrow> nat \<Rightarrow> int \<times> nat" where
  "slice_compare_with_index_len s b len =
     (let min_len = min (ssize s) (ssize b) in
      case memcmp_with_index (sdata s) (sdata b) (min min_len len) of (r, index) \<Rightarrow>
        (if r = 0 \<and> min_len < len
         then by_size (ssize s) (ssize b) r else r, index))"

section \<open>The order on slices\<close>

lemma memcmp_Nil [simp]: "memcmp xs ys 0 = 0" "memcmp [] ys n = 0" "memcmp xs [] n = 0"
  by (cases xs; cases ys; cases n; simp)+

lemma memcmp_loop_fst: "fst (memcmp_loop xs ys n i) = memcmp xs ys n"
  by (induction xs ys n i rule: memcmp_loop.induct) auto

lemma memcmp_zero_iff:
  assumes "n \<le> length xs" and "n \<le> length ys"
  shows "memcmp xs ys n = 0 \<longleftrightarrow> take n xs = take n ys"
  using assms
proof (induction n arbitrary: xs ys)
  case (Suc n)
  then obtain x xs' y ys' where "xs = x # xs'" "ys = y # ys'" by (meson Suc_le_length_iff)
  then show ?case using Suc by auto
qed simp

text \<open>The sign of the three-way comparison of two byte strings.\<close>

definition lex_sign :: "string \<Rightarrow> string \<Rightarrow> int" where
  "lex_sign xs ys = (if xs < ys then -1 else if xs = ys then 0 else 1)"

lemma lex_sign_Cons:
  "lex_sign (x # xs) (y # ys) = (if x \<noteq> y then (if x < y then -1 else 1) else lex_sign xs ys)"
  by (auto simp: lex_sign_def)

lemma by_size_Suc [simp]: "by_size (Suc n) (Suc m) r = by_size n m r"
  by (simp add: by_size_def)

lemma compare_lists:
  "(let r = memcmp xs ys (min (length xs) (length ys)) in
    if r = 0 then by_size (length xs) (length ys) r else r) = lex_sign xs ys"
proof (induction xs arbitrary: ys)
  case Nil
  then show ?case by (cases ys) (auto simp: lex_sign_def by_size_def)
next
  case (Cons x xs)
  show ?case
  proof (cases ys)
    case Nil
    then show ?thesis by (simp add: lex_sign_def by_size_def)
  next
    case (Cons y ys')
    show ?thesis
    proof (cases "x = y")
      case True
      then have "memcmp (x # xs) ys (min (length (x # xs)) (length ys)) =
          memcmp xs ys' (min (length xs) (length ys'))" "lex_sign (x # xs) ys = lex_sign xs ys'"
        by (simp_all add: Cons lex_sign_Cons)
      then show ?thesis using Cons.IH [of ys'] by (simp only: Cons length_Cons by_size_Suc)
    next
      case False
      then show ?thesis by (simp add: Cons lex_sign_Cons)
    qed
  qed
qed

lemma memcmp_take: "n \<le> m \<Longrightarrow> memcmp (take m xs) (take m ys) n = memcmp xs ys n"
proof (induction n arbitrary: xs ys m)
  case (Suc n)
  then show ?case by (cases m; cases xs; cases ys) auto
qed simp

lemma bytes_length: "wf_slice s \<Longrightarrow> length (bytes s) = ssize s"
  by (simp add: wf_slice_def bytes_def)

lemma memcmp_bytes:
  assumes "n \<le> ssize s" and "n \<le> ssize b"
  shows "memcmp (bytes s) (bytes b) n = memcmp (sdata s) (sdata b) n"
proof -
  have "memcmp (take n (bytes s)) (take n (bytes b)) n = memcmp (take n (sdata s)) (take n (sdata b)) n"
    using assms by (simp add: bytes_def min_absorb1)
  then show ?thesis by (simp add: memcmp_take)
qed

lemma slice_compare_lex:
  assumes "wf_slice s" and "wf_slice b"
  shows "slice_compare s b = lex_sign (bytes s) (bytes b)"
  unfolding compare_lists [symmetric] bytes_length [OF assms(1)] bytes_length [OF assms(2)]
  by (simp only: slice_compare_def memcmp_bytes [OF min.cobounded1 min.cobounded2] Let_def)

definition truncate_slice :: "nat \<Rightarrow> slice \<Rightarrow> slice" where
  "truncate_slice n s = s\<lparr>ssize := min n (ssize s)\<rparr>"

lemma slice_compare_len_truncate:
  "slice_compare_len s b len = slice_compare (truncate_slice len s) (truncate_slice len b)"
proof -
  define r where "r = memcmp (sdata s) (sdata b) (min (min (ssize s) (ssize b)) len)"
  have m: "min (min len (ssize s)) (min len (ssize b)) = min (min (ssize s) (ssize b)) len" by simp
  have "slice_compare (truncate_slice len s) (truncate_slice len b) =
      (if r = 0 then by_size (min len (ssize s)) (min len (ssize b)) r else r)"
    unfolding slice_compare_def truncate_slice_def Let_def r_def by (simp add: m cong: if_cong)
  moreover have "by_size (min len (ssize s)) (min len (ssize b)) 0 =
      (if min (ssize s) (ssize b) < len then by_size (ssize s) (ssize b) 0 else 0)"
    by (auto simp: by_size_def min_def)
  ultimately show ?thesis
    unfolding slice_compare_len_def Let_def r_def [symmetric] by simp
qed

lemma slice_compare_with_index_fst:
  "fst (slice_compare_with_index s b) = slice_compare s b"
  "fst (slice_compare_with_index_len s b len) = slice_compare_len s b len"
  unfolding slice_compare_with_index_def slice_compare_def slice_compare_with_index_len_def
    slice_compare_len_def memcmp_with_index_def Let_def case_prod_beta fst_conv memcmp_loop_fst
  by (rule refl)+

lemma slice_eq_bytes:
  assumes "wf_slice s" and "wf_slice b"
  shows "slice_eq s b \<longleftrightarrow> bytes s = bytes b"
proof (cases "ssize s = ssize b")
  case True
  then have "bytes b = take (ssize s) (sdata b)" by (simp add: bytes_def)
  then show ?thesis
    using True assms memcmp_zero_iff [of "ssize s" "sdata s" "sdata b"]
    unfolding slice_eq_def wf_slice_def bytes_def by (simp only: simp_thms)
next
  case False
  then have "bytes s \<noteq> bytes b" using bytes_length [OF assms(1)] bytes_length [OF assms(2)] by metis
  then show ?thesis using False by (simp add: slice_eq_def)
qed

text \<open>The index of the first difference.\<close>

lemma memcmp_loop_index:
  assumes "n \<le> length xs" and "n \<le> length ys"
  shows "memcmp_loop xs ys n i = (memcmp xs ys n, i + length (takeWhile (\<lambda>(x, y). x = y) (take n (zip xs ys))))"
  using assms
proof (induction n arbitrary: xs ys i)
  case (Suc n)
  then obtain x xs' y ys' where "xs = x # xs'" "ys = y # ys'" by (meson Suc_le_length_iff)
  then show ?case using Suc by auto
qed simp

section \<open>Properties\<close>

text \<open>
  The four comparisons of slices are one order. \<open>compare\<close> is negative, zero or positive exactly as
  the bytes of the two slices compare lexicographically; the bounded version is the comparison of the
  slices cut to the bound; the versions with an index return the same sign.
\<close>

theorem slice_comparison_order:
  assumes "wf_slice s" and "wf_slice b"
  shows "slice_compare s b = lex_sign (bytes s) (bytes b) \<and>
    slice_compare_len s b len = lex_sign (take len (bytes s)) (take len (bytes b)) \<and>
    fst (slice_compare_with_index s b) = slice_compare s b \<and>
    fst (slice_compare_with_index_len s b len) = slice_compare_len s b len \<and>
    (slice_eq s b \<longleftrightarrow> bytes s = bytes b)"
proof -
  have wf: "wf_slice (truncate_slice len s)" "wf_slice (truncate_slice len b)"
    using assms by (simp_all add: wf_slice_def truncate_slice_def)
  have tb: "bytes (truncate_slice len x) = take len (bytes x)" for x
    by (simp add: bytes_def truncate_slice_def min.commute)
  have "slice_compare_len s b len = lex_sign (take len (bytes s)) (take len (bytes b))"
    unfolding slice_compare_len_truncate slice_compare_lex [OF wf] tb by simp
  then show ?thesis
    using slice_compare_lex [OF assms] slice_compare_with_index_fst slice_eq_bytes [OF assms] by blast
qed

theorem slice_comparison_order_witness:
  "slice_compare (slice_of ''ab'') (slice_of ''abc'') = -1 \<and>
   lex_sign ''ab'' ''abc'' = -1 \<and> lex_sign ''ab'' ''ab'' = slice_compare_len (slice_of ''abx'') (slice_of ''aby'') 2"
proof -
  have w: "wf_slice (slice_of x)" "bytes (slice_of x) = x" for x
    by (simp_all add: wf_slice_def slice_of_def bytes_def)
  have "slice_compare (slice_of ''ab'') (slice_of ''abc'') = -1" by code_simp
  moreover have "take 2 ''abx'' = ''ab''" "take 2 ''aby'' = ''ab''" by code_simp+
  ultimately show ?thesis
    using slice_comparison_order [OF w(1) w(1), of "''ab''" "''abc''" 0]
      slice_comparison_order [OF w(1) w(1), of "''abx''" "''aby''" 2]
    unfolding w(2) by metis
qed

text \<open>
  The index that the comparison reports is the length of the common prefix of the two views (up
  to the shorter one): all bytes before it agree, and a nonzero sign from the bytes means that the
  bytes at the index differ.
\<close>

theorem slice_compare_index:
  assumes "wf_slice s" and "wf_slice b" and "slice_compare_with_index s b = (r, i)"
  shows "i \<le> min (ssize s) (ssize b) \<and> take i (sdata s) = take i (sdata b) \<and>
    (i < min (ssize s) (ssize b) \<longrightarrow> sdata s ! i \<noteq> sdata b ! i)"
proof -
  let ?n = "min (ssize s) (ssize b)"
  let ?z = "take ?n (zip (sdata s) (sdata b))"
  have len: "?n \<le> length (sdata s)" "?n \<le> length (sdata b)"
    using assms(1,2) by (auto simp: wf_slice_def)
  have i: "i = length (takeWhile (\<lambda>(x, y). x = y) ?z)"
    using assms(3) memcmp_loop_index [OF len, of 0]
    by (simp add: slice_compare_with_index_def memcmp_with_index_def Let_def)
  have zl: "length ?z = ?n" using len by simp
  have eq: "sdata s ! j = sdata b ! j" if "j < i" for j
  proof -
    have "j < length ?z" using that i length_takeWhile_le [of "\<lambda>(x, y). x = y" ?z] by linarith
    moreover have "takeWhile (\<lambda>(x, y). x = y) ?z ! j = ?z ! j"
      using that i by (simp add: takeWhile_nth)
    moreover have "(\<lambda>(x, y). x = y) (takeWhile (\<lambda>(x, y). x = y) ?z ! j)"
      using that i nth_mem [of j "takeWhile (\<lambda>(x, y). x = y) ?z"] set_takeWhileD by metis
    moreover from calculation have "j < length (sdata s)" "j < length (sdata b)" using zl len by auto
    ultimately show ?thesis by simp
  qed
  have le: "i \<le> ?n" using i length_takeWhile_le [of "\<lambda>(x, y). x = y" ?z] zl by simp
  have "take i (sdata s) = take i (sdata b)"
    using eq le len by (intro nth_equalityI) auto
  moreover have "sdata s ! i \<noteq> sdata b ! i" if "i < ?n"
    using nth_length_takeWhile [of "\<lambda>(x, y). x = y" ?z] that i zl len by auto
  ultimately show ?thesis using le by blast
qed

theorem slice_compare_index_witness:
  "slice_compare_with_index (slice_of ''abx'') (slice_of ''aby'') = (-1, 2) \<and>
   ''abx'' ! 2 \<noteq> ''aby'' ! (2 :: nat)"
proof -
  have e: "slice_compare_with_index (slice_of ''abx'') (slice_of ''aby'') = (-1, 2)" by code_simp
  have w: "wf_slice (slice_of ''abx'')" "wf_slice (slice_of ''aby'')"
    by (simp_all add: wf_slice_def slice_of_def)
  show ?thesis using e slice_compare_index [OF w e] by (simp add: slice_of_def)
qed

text \<open>
  Cutting a slice. \<open>remove_prefix\<close> and \<open>remove_suffix\<close> keep the view inside its array and leave
  exactly the remaining bytes; a slice starts with another exactly when its bytes have the other's
  bytes as a prefix, which can then be removed.
\<close>

theorem slice_cut:
  assumes "wf_slice s" and "n \<le> ssize s"
  shows "\<exists>p q. remove_prefix s n = Inr p \<and> remove_suffix s n = Inr q \<and> wf_slice p \<and> wf_slice q \<and>
    bytes p = drop n (bytes s) \<and> bytes q = take (ssize s - n) (bytes s) \<and>
    (\<forall>x. wf_slice x \<longrightarrow> (starts_with s x \<longleftrightarrow> (\<exists>zs. bytes s = bytes x @ zs)))"
proof -
  have pre: "starts_with s x \<longleftrightarrow> (\<exists>zs. bytes s = bytes x @ zs)" if x: "wf_slice x" for x
  proof
    assume sw: "starts_with s x"
    then have "take (ssize x) (sdata s) = take (ssize x) (sdata x)"
      using memcmp_zero_iff [of "ssize x" "sdata s" "sdata x"] x assms(1)
      by (simp add: starts_with_def wf_slice_def)
    then have "bytes s = bytes x @ drop (ssize x) (bytes s)"
      using sw append_take_drop_id [of "ssize x" "bytes s"]
      by (simp add: bytes_def starts_with_def min_absorb1)
    then show "\<exists>zs. bytes s = bytes x @ zs" by blast
  next
    assume "\<exists>zs. bytes s = bytes x @ zs"
    then obtain zs where zs: "bytes s = bytes x @ zs" by blast
    then have le: "ssize x \<le> ssize s"
      using bytes_length [OF assms(1)] bytes_length [OF x] by (metis le_add1 length_append)
    have "take (ssize x) (bytes s) = bytes x" using zs bytes_length [OF x] by simp
    then have "take (ssize x) (sdata s) = take (ssize x) (sdata x)"
      using le by (simp add: bytes_def min_absorb1)
    then show "starts_with s x"
      using le memcmp_zero_iff [of "ssize x" "sdata s" "sdata x"] x assms(1)
      by (simp add: starts_with_def wf_slice_def)
  qed
  show ?thesis
    using assms pre
    by (auto simp: remove_prefix_def remove_suffix_def wf_slice_def bytes_def drop_take min_def)
qed

theorem slice_cut_witness:
  "remove_prefix (slice_of ''abc'') 1 = Inr \<lparr>sdata = ''bc'', ssize = 2\<rparr> \<and>
   starts_with (slice_of ''abc'') (slice_of ''ab'')"
proof -
  have w: "wf_slice (slice_of ''abc'')" "(1 :: nat) \<le> ssize (slice_of ''abc'')"
    "wf_slice (slice_of ''ab'')" by (simp_all add: wf_slice_def slice_of_def)
  have "\<exists>zs. bytes (slice_of ''abc'') = bytes (slice_of ''ab'') @ zs"
    by (simp add: bytes_def slice_of_def)
  then have "starts_with (slice_of ''abc'') (slice_of ''ab'')"
    using slice_cut [OF w(1,2)] w(3) by blast
  then show ?thesis by (simp add: remove_prefix_def slice_of_def)
qed

end
