(* ===== verification/Status.thy ===== *)
theory Status
  imports Slice
begin

text \<open>
  \<open>Status\<close> (\<open>src/include/status.h\<close>, \<open>src/src/util/status.cc\<close>): the result type of the library. A
  message is kept in one heap block, four bytes of length (little endian) followed by the text.
  \<open>uint32_t\<close> sizes are kept at their width: a message too long for them would be written past
  the block, which is an \<open>Inl\<close> here.
\<close>

section \<open>Codes\<close>

datatype code =
    kOk | kNotFound | kCorruption | kNotSupported | kInvalidArgument | kIOError | kMergeInProgress
  | kIncomplete | kShutdownInProgress | kTimedOut | kAborted | kBusy | kOutOfMemory
  | kKeyAlreadyExists | kUnableToMerge | kMwCASFailure

fun code_number :: "code \<Rightarrow> nat" where
  "code_number kOk = 0"
| "code_number kNotFound = 1"
| "code_number kCorruption = 2"
| "code_number kNotSupported = 3"
| "code_number kInvalidArgument = 4"
| "code_number kIOError = 5"
| "code_number kMergeInProgress = 6"
| "code_number kIncomplete = 7"
| "code_number kShutdownInProgress = 8"
| "code_number kTimedOut = 9"
| "code_number kAborted = 10"
| "code_number kBusy = 11"
| "code_number kOutOfMemory = 12"
| "code_number kKeyAlreadyExists = 13"
| "code_number kUnableToMerge = 14"
| "code_number kMwCASFailure = 15"

record status_obj =
  scode :: code
  sstate :: "string option"

definition status_code :: "code \<Rightarrow> status_obj" where
  "status_code c = \<lparr>scode = c, sstate = None\<rparr>"

definition OK :: status_obj where
  "OK = status_code kOk"

definition ok :: "status_obj \<Rightarrow> bool" where
  "ok s \<longleftrightarrow> scode s = kOk"

definition status_eq :: "status_obj \<Rightarrow> status_obj \<Rightarrow> bool" where
  "status_eq s rhs \<longleftrightarrow> scode s = scode rhs"

text \<open>\<open>RETURN_NOT_OK\<close>: leave the function with a failed status.\<close>

definition return_not_ok :: "status_obj \<Rightarrow> 'a \<Rightarrow> (status_obj \<Rightarrow> 'a) \<Rightarrow> 'a" where
  "return_not_ok s k ret = (if \<not> ok s then ret s else k)"

section \<open>Messages\<close>

definition le32 :: "u32 \<Rightarrow> string" where
  "le32 n = map (\<lambda>i. char_of (unat n div 256 ^ i)) [0..<4]"

definition of_le32 :: "string \<Rightarrow> u32" where
  "of_le32 s = of_nat (\<Sum>i<4. of_char (s ! i) * 256 ^ i)"

definition status_msg :: "code \<Rightarrow> string \<Rightarrow> string \<Rightarrow> status_obj checked" where
  "status_msg c msg msg2 =
     (let len1 = word_of_nat (length msg) :: u32; len2 = word_of_nat (length msg2) :: u32;
          size = len1 + (if len2 \<noteq> 0 then 2 + len2 else 0);
          text = take (unat len1) msg @ (if len2 \<noteq> 0 then '': '' @ take (unat len2) msg2 else []) in
      if c = kOk then Inl ''code_ != kOk''
      else if unat (size + 4) < 4 + length text then Inl ''write past the end of the block''
      else Inr \<lparr>scode = c, sstate = Some (le32 size @ text)\<rparr>)"

definition CopyState :: "string \<Rightarrow> string" where
  "CopyState state = take (unat (of_le32 (take 4 state) + 4)) state"

definition copy_status :: "status_obj \<Rightarrow> status_obj" where
  "copy_status s = \<lparr>scode = scode s, sstate = map_option CopyState (sstate s)\<rparr>"

text \<open>\<open>operator=\<close> leaves the message alone when both already share one (or none).\<close>

definition assign_status :: "bool \<Rightarrow> status_obj \<Rightarrow> status_obj \<Rightarrow> status_obj" where
  "assign_status same_state self s =
     (if same_state then self\<lparr>scode := scode s\<rparr> else copy_status s)"

fun decimal :: "nat \<Rightarrow> string" where
  "decimal n = (if n < 10 then [char_of (48 + n)] else decimal (n div 10) @ [char_of (48 + n mod 10)])"

fun code_prefix :: "code \<Rightarrow> string" where
  "code_prefix kOk = ''OK''"
| "code_prefix kNotFound = ''NotFound: ''"
| "code_prefix kCorruption = ''Corruption: ''"
| "code_prefix kNotSupported = ''Not implemented: ''"
| "code_prefix kInvalidArgument = ''Invalid argument: ''"
| "code_prefix kIOError = ''IO error: ''"
| "code_prefix kMergeInProgress = ''Merge in progress: ''"
| "code_prefix kUnableToMerge = ''Cannot merge: ''"
| "code_prefix kIncomplete = ''Result incomplete: ''"
| "code_prefix kShutdownInProgress = ''Shutdown in progress: ''"
| "code_prefix kAborted = ''Operation aborted: ''"
| "code_prefix kBusy = ''Resource busy: ''"
| "code_prefix c = ''Unknown code('' @ decimal (code_number c) @ ''): ''"

definition ToString :: "status_obj \<Rightarrow> string" where
  "ToString s =
     (if scode s = kOk then ''OK''
      else code_prefix (scode s) @
        (case sstate s of None \<Rightarrow> []
         | Some st \<Rightarrow> take (unat (of_le32 (take 4 st))) (drop 4 st)))"

section \<open>Length prefix\<close>

lemma le32_length [simp]: "length (le32 n) = 4"
  by (simp add: le32_def)

lemma of_le32_le32 [simp]: "of_le32 (le32 n) = n"
proof -
  define m where "m = unat n"
  have m: "m < 2 ^ 32" using unsigned_less [of n] by (simp add: m_def)
  have nth: "le32 n ! i = char_of (m div 256 ^ i)" if "i < 4" for i
    using that by (simp add: le32_def m_def)
  have "(\<Sum>i<4. of_char (le32 n ! i) * 256 ^ i) = (\<Sum>i<4. (m div 256 ^ i mod 256) * 256 ^ i)"
    by (rule sum.cong) (simp_all add: nth)
  also have "\<dots> = m mod 256 + m div 256 mod 256 * 256 + m div 65536 mod 256 * 65536
      + m div 16777216 mod 256 * 16777216"
  proof -
    have "{..<4} = {0, 1, 2, 3 :: nat}" by auto
    then show ?thesis by simp
  qed
  also have "\<dots> = m"
  proof -
    define a b c where "a = m div 256" and "b = a div 256" and "c = b div 256"
    have d: "m div 65536 = b" "m div 16777216 = c"
      by (simp_all add: a_def b_def c_def div_mult2_eq [symmetric])
    have "c mod 256 = c" using m d(2) by simp
    then have "m div 256 mod 256 = a mod 256" "m div 65536 mod 256 = b mod 256"
      "m div 16777216 mod 256 = c"
      using d by (simp_all add: a_def)
    moreover have "256 * a + m mod 256 = m" "256 * b + a mod 256 = a" "256 * c + b mod 256 = b"
      unfolding a_def b_def c_def by simp_all
    ultimately show ?thesis by linarith
  qed
  finally show ?thesis by (simp add: of_le32_def m_def)
qed

lemma status_msg_ok:
  assumes "c \<noteq> kOk" and "length msg + length msg2 < 2 ^ 32 - 6"
  shows "status_msg c msg msg2 = Inr \<lparr>scode = c, sstate = Some
     (le32 (of_nat (length msg + (if msg2 = [] then 0 else 2 + length msg2))) @
      msg @ (if msg2 = [] then [] else '': '' @ msg2))\<rparr>"
proof -
  have u: "unat (word_of_nat (length msg) :: u32) = length msg"
    "unat (word_of_nat (length msg2) :: u32) = length msg2"
    using assms(2) by (simp_all add: unat_of_nat)
  then have z: "(word_of_nat (length msg2) :: u32) = 0 \<longleftrightarrow> msg2 = []"
    by (metis length_0_conv unat_eq_zero)
  let ?n = "length msg + (if msg2 = [] then 0 else 2 + length msg2)"
  have sz: "(word_of_nat (length msg) + (if (word_of_nat (length msg2) :: u32) \<noteq> 0
      then 2 + word_of_nat (length msg2) else 0) :: u32) = of_nat ?n"
    by (simp add: z)
  have "unat (of_nat ?n + 4 :: u32) = ?n + 4"
  proof -
    have "(of_nat ?n + 4 :: u32) = of_nat (?n + 4)" by simp
    moreover have "?n + 4 < 2 ^ 32" using assms(2) by auto
    ultimately show ?thesis by (simp only: unat_of_nat) simp
  qed
  then show ?thesis
    using assms(1) unfolding status_msg_def Let_def sz u z by (auto simp: z)
qed

section \<open>Properties\<close>

text \<open>
  C40: A message survives construction and printing: as long as the lengths fit the 32-bit arithmetic
  of the constructor, \<open>ToString\<close> of the status gives the name of the code, the message and, when
  there is a second one, it after a colon; a copy of the status prints the same.
\<close>

theorem status_message_roundtrip:
  assumes "c \<noteq> kOk" and "length msg + length msg2 < 2 ^ 32 - 6"
  shows "\<exists>s. status_msg c msg msg2 = Inr s \<and>
    ToString s = code_prefix c @ msg @ (if msg2 = [] then [] else '': '' @ msg2) \<and>
    ToString (copy_status s) = ToString s \<and> status_eq (copy_status s) s"
proof -
  let ?n = "length msg + (if msg2 = [] then 0 else 2 + length msg2)"
  let ?text = "msg @ (if msg2 = [] then [] else '': '' @ msg2)"
  let ?s = "\<lparr>scode = c, sstate = Some (le32 (of_nat ?n) @ ?text)\<rparr>"
  have tl: "length ?text = ?n" by simp
  have n: "?n + 4 < 2 ^ 32" using assms(2) by auto
  then have u: "unat (of_nat ?n :: u32) = ?n" by (intro unat_of_nat_small) simp
  have "(of_nat ?n + 4 :: u32) = of_nat (?n + 4)" by simp
  then have u4: "unat (of_nat ?n + 4 :: u32) = ?n + 4"
    using n by (simp only: unat_of_nat) simp
  have t4: "take 4 (le32 x @ y) = le32 x" "drop 4 (le32 x @ y) = y" for x y by simp_all
  have str: "ToString ?s = code_prefix c @ ?text"
    using assms(1) tl u unfolding ToString_def by (simp add: t4 del: append_assoc)
  have "CopyState (le32 (of_nat ?n) @ ?text) = le32 (of_nat ?n) @ ?text"
    unfolding CopyState_def t4 of_le32_le32 u4 using tl by simp
  then have "copy_status ?s = ?s" unfolding copy_status_def by (simp del: append_assoc)
  then show ?thesis
    using status_msg_ok [OF assms] str by (simp add: status_eq_def)
qed

theorem status_message_roundtrip_witness:
  "\<exists>s. status_msg kIOError ''disk'' ''full'' = Inr s \<and> ToString s = ''IO error: disk: full''"
  using status_message_roundtrip [of kIOError "''disk''" "''full''"] by auto

end
