(* ===== verification/Epoch.thy ===== *)
theory Epoch
  imports Status
begin

text \<open>
  \<open>EpochManager\<close> and its \<open>MinEpochTable\<close> (\<open>src/src/common/epoch.h\<close>, \<open>src/src/common/epoch.cc\<close>) with
  the hash of \<open>src/src/util/hash.h\<close>. The tables live in a store, because the thread-local pointer of
  \<open>GetEntryForThread\<close> is one variable per thread for all tables of the process: \<open>tls\<close> maps a thread
  to the table and the index of the entry it reserved first.
\<close>

section \<open>Hashing\<close>

definition IS_POWER_OF_TWO :: "u64 \<Rightarrow> bool" where
  "IS_POWER_OF_TWO x \<longleftrightarrow> x \<noteq> 0 \<and> x AND (x - 1) = 0"

definition Murmur3_32 :: "u32 \<Rightarrow> u32" where
  "Murmur3_32 h0 =
     (let h1 = h0 XOR drop_bit 16 h0; h2 = h1 * 0x85ebca6b; h3 = h2 XOR drop_bit 13 h2;
          h4 = h3 * 0xc2b2ae35 in h4 XOR drop_bit 16 h4)"

definition Murmur3_64 :: "u64 \<Rightarrow> u64" where
  "Murmur3_64 h0 =
     (let h1 = h0 XOR drop_bit 33 h0; h2 = h1 * 0xff51afd7ed558ccd; h3 = h2 XOR drop_bit 33 h2;
          h4 = h3 * 0xc4ceb9fe1a85ec53 in h4 XOR drop_bit 33 h4)"

section \<open>The table of protected threads\<close>

record entry =
  protected_epoch :: u64
  last_unprotected_epoch :: u64
  thread_id :: u64

definition new_entry :: entry where
  "new_entry = \<lparr>protected_epoch = 0, last_unprotected_epoch = 0, thread_id = 0\<rparr>"

record min_epoch_table =
  table :: "entry list option"
  tsize :: u64

definition kDefaultSize :: u64 where
  "kDefaultSize = 128"

definition new_MinEpochTable :: min_epoch_table where
  "new_MinEpochTable = \<lparr>table = None, tsize = 0\<rparr>"

definition MinEpochTable_Initialize :: "min_epoch_table \<Rightarrow> u64 \<Rightarrow> status_obj \<times> min_epoch_table" where
  "MinEpochTable_Initialize t sz =
     (if table t \<noteq> None then (OK, t)
      else if \<not> IS_POWER_OF_TWO sz then (status_code kInvalidArgument, t)
      else (OK, \<lparr>table = Some (replicate (unat sz) new_entry), tsize = sz\<rparr>))"

definition MinEpochTable_Uninitialize :: "min_epoch_table \<Rightarrow> status_obj \<times> min_epoch_table" where
  "MinEpochTable_Uninitialize t =
     (if table t = None then (OK, t) else (OK, \<lparr>table = None, tsize = 0\<rparr>))"

definition entries_of :: "min_epoch_table \<Rightarrow> entry list" where
  "entries_of t = (case table t of None \<Rightarrow> [] | Some es \<Rightarrow> es)"

text \<open>
  \<open>ReserveEntry\<close>: one pass of the inner loop over \<open>i\<close>. When every slot is taken the outer loop calls
  \<open>ReclaimOldEntries\<close>, which does nothing, and starts again: as no entry is ever given back, the
  call never returns, which is \<open>None\<close>.
\<close>

fun reserve_scan :: "entry list \<Rightarrow> u64 \<Rightarrow> u64 \<Rightarrow> nat list \<Rightarrow> nat option" where
  "reserve_scan es sz start [] = None"
| "reserve_scan es sz start (i # is) =
     (let index = unat ((start + of_nat i) AND (sz - 1)) in
      if thread_id (es ! index) = 0 then Some index else reserve_scan es sz start is)"

definition ReserveEntry :: "min_epoch_table \<Rightarrow> u64 \<Rightarrow> u64 \<Rightarrow> (nat \<times> min_epoch_table) option" where
  "ReserveEntry t start tid =
     (case reserve_scan (entries_of t) (tsize t) start [0..<unat (tsize t)] of
        None \<Rightarrow> None
      | Some i \<Rightarrow>
          Some (i, t\<lparr>table := Some ((entries_of t)[i := (entries_of t ! i)\<lparr>thread_id := tid\<rparr>])\<rparr>))"

definition ReserveEntryForThread :: "min_epoch_table \<Rightarrow> u64 \<Rightarrow> (nat \<times> min_epoch_table) option" where
  "ReserveEntryForThread t tid = ReserveEntry t (Murmur3_64 tid) tid"

text \<open>All tables of the process and the thread-local entry pointers.\<close>

record epoch_store =
  tables :: "nat \<Rightarrow> min_epoch_table"
  tls :: "u64 \<Rightarrow> (nat \<times> nat) option"

definition GetEntryForThread :: "epoch_store \<Rightarrow> nat \<Rightarrow> u64 \<Rightarrow> ((nat \<times> nat) \<times> epoch_store) option" where
  "GetEntryForThread h k tid =
     (case tls h tid of
        Some p \<Rightarrow> Some (p, h)
      | None \<Rightarrow>
          (case ReserveEntryForThread (tables h k) tid of
             None \<Rightarrow> None
           | Some (i, t) \<Rightarrow>
               Some ((k, i), h\<lparr>tables := (tables h)(k := t), tls := (tls h)(tid \<mapsto> (k, i))\<rparr>)))"

definition update_entry :: "epoch_store \<Rightarrow> nat \<times> nat \<Rightarrow> (entry \<Rightarrow> entry) \<Rightarrow> epoch_store" where
  "update_entry h p f =
     (let t = tables h (fst p); es = entries_of t in
      h\<lparr>tables := (tables h)(fst p := t\<lparr>table := Some (es[snd p := f (es ! snd p)])\<rparr>)\<rparr>)"

definition entry_at :: "epoch_store \<Rightarrow> nat \<times> nat \<Rightarrow> entry" where
  "entry_at h p = entries_of (tables h (fst p)) ! snd p"

definition Table_Protect :: "epoch_store \<Rightarrow> nat \<Rightarrow> u64 \<Rightarrow> u64 \<Rightarrow> epoch_store option" where
  "Table_Protect h k tid current_epoch =
     (case GetEntryForThread h k tid of
        None \<Rightarrow> None
      | Some (p, h') \<Rightarrow> Some (update_entry h' p (\<lambda>e.
            e\<lparr>last_unprotected_epoch := 0, protected_epoch := current_epoch\<rparr>)))"

definition Table_Unprotect :: "epoch_store \<Rightarrow> nat \<Rightarrow> u64 \<Rightarrow> u64 \<Rightarrow> epoch_store option" where
  "Table_Unprotect h k tid current_epoch =
     (case GetEntryForThread h k tid of
        None \<Rightarrow> None
      | Some (p, h') \<Rightarrow> Some (update_entry h' p (\<lambda>e.
            e\<lparr>last_unprotected_epoch := current_epoch, protected_epoch := 0\<rparr>)))"

definition Table_IsProtected :: "epoch_store \<Rightarrow> nat \<Rightarrow> u64 \<Rightarrow> (bool \<times> epoch_store) option" where
  "Table_IsProtected h k tid =
     (case GetEntryForThread h k tid of
        None \<Rightarrow> None
      | Some (p, h') \<Rightarrow> Some (protected_epoch (entry_at h' p) \<noteq> 0, h'))"

text \<open>One iteration of the scan, and the whole of it.\<close>

definition scan_entry :: "u64 \<Rightarrow> entry \<Rightarrow> u64" where
  "scan_entry oldest_call e =
     (if protected_epoch e \<noteq> 0 \<and> protected_epoch e < oldest_call then protected_epoch e else oldest_call)"

definition Table_ComputeNewSafeToReclaimEpoch :: "min_epoch_table \<Rightarrow> u64 \<Rightarrow> u64" where
  "Table_ComputeNewSafeToReclaimEpoch t current_epoch =
     foldl scan_entry current_epoch (entries_of t) - 1"

section \<open>The manager\<close>

record epoch_manager =
  current_epoch :: u64
  safe_to_reclaim_epoch :: u64
  epoch_table :: "nat option"

definition new_EpochManager :: epoch_manager where
  "new_EpochManager = \<lparr>current_epoch = 1, safe_to_reclaim_epoch = 0, epoch_table = None\<rparr>"

text \<open>\<open>Initialize\<close> puts a fresh table into the store, under the number \<open>fresh\<close>.\<close>

definition EpochManager_Initialize ::
    "nat \<Rightarrow> epoch_manager \<Rightarrow> epoch_store \<Rightarrow> status_obj \<times> epoch_manager \<times> epoch_store" where
  "EpochManager_Initialize fresh m h =
     (if epoch_table m \<noteq> None then (OK, m, h)
      else case MinEpochTable_Initialize new_MinEpochTable kDefaultSize of (s, t) \<Rightarrow>
        return_not_ok s
          (OK, \<lparr>current_epoch = 1, safe_to_reclaim_epoch = 0, epoch_table = Some fresh\<rparr>,
           h\<lparr>tables := (tables h)(fresh := t)\<rparr>)
          (\<lambda>s. (s, m, h)))"

definition EpochManager_Uninitialize ::
    "epoch_manager \<Rightarrow> epoch_store \<Rightarrow> status_obj \<times> epoch_manager \<times> epoch_store" where
  "EpochManager_Uninitialize m h =
     (case epoch_table m of
        None \<Rightarrow> (OK, m, h)
      | Some k \<Rightarrow>
          (case MinEpochTable_Uninitialize (tables h k) of (s, t) \<Rightarrow>
             (s, \<lparr>current_epoch = 1, safe_to_reclaim_epoch = 0, epoch_table = None\<rparr>,
              h\<lparr>tables := (tables h)(k := t)\<rparr>)))"

definition GetCurrentEpoch :: "epoch_manager \<Rightarrow> u64" where
  "GetCurrentEpoch m = current_epoch m"

definition IsSafeToReclaim :: "epoch_manager \<Rightarrow> u64 \<Rightarrow> bool" where
  "IsSafeToReclaim m e \<longleftrightarrow> e \<le> safe_to_reclaim_epoch m"

definition ComputeNewSafeToReclaimEpoch :: "epoch_manager \<Rightarrow> min_epoch_table \<Rightarrow> u64 \<Rightarrow> epoch_manager" where
  "ComputeNewSafeToReclaimEpoch m t e =
     m\<lparr>safe_to_reclaim_epoch := Table_ComputeNewSafeToReclaimEpoch t e\<rparr>"

text \<open>\<open>fetch_add\<close> returns the value before the addition.\<close>

definition BumpCurrentEpoch :: "epoch_manager \<Rightarrow> min_epoch_table \<Rightarrow> epoch_manager" where
  "BumpCurrentEpoch m t =
     (let newEpoch = current_epoch m in
      ComputeNewSafeToReclaimEpoch (m\<lparr>current_epoch := current_epoch m + 1\<rparr>) t newEpoch)"

definition Protect :: "epoch_manager \<Rightarrow> epoch_store \<Rightarrow> u64 \<Rightarrow> epoch_store option" where
  "Protect m h tid = (case epoch_table m of None \<Rightarrow> None | Some k \<Rightarrow> Table_Protect h k tid (current_epoch m))"

definition Unprotect :: "epoch_manager \<Rightarrow> epoch_store \<Rightarrow> u64 \<Rightarrow> epoch_store option" where
  "Unprotect m h tid = (case epoch_table m of None \<Rightarrow> None | Some k \<Rightarrow> Table_Unprotect h k tid (current_epoch m))"

definition IsProtected :: "epoch_manager \<Rightarrow> epoch_store \<Rightarrow> u64 \<Rightarrow> (bool \<times> epoch_store) option" where
  "IsProtected m h tid = (case epoch_table m of None \<Rightarrow> None | Some k \<Rightarrow> Table_IsProtected h k tid)"

section \<open>The guard\<close>

text \<open>\<open>attached\<close>: \<open>epoch_manager_\<close> is not null.\<close>

record epoch_guard =
  attached :: bool
  unprotect_at_exit :: bool

definition new_EpochGuard :: "epoch_manager \<Rightarrow> bool \<Rightarrow> epoch_store \<Rightarrow> u64 \<Rightarrow> (epoch_guard \<times> epoch_store) option" where
  "new_EpochGuard m protect h tid =
     (let g = \<lparr>attached = True, unprotect_at_exit = protect\<rparr> in
      if protect then map_option (\<lambda>h'. (g, h')) (Protect m h tid) else Some (g, h))"

definition destroy_EpochGuard :: "epoch_guard \<Rightarrow> epoch_manager \<Rightarrow> epoch_store \<Rightarrow> u64 \<Rightarrow> epoch_store option" where
  "destroy_EpochGuard g m h tid =
     (if unprotect_at_exit g \<and> attached g then Unprotect m h tid else Some h)"

definition Release :: "epoch_guard \<Rightarrow> epoch_guard" where
  "Release g = g\<lparr>attached := False\<rparr>"

section \<open>Powers of two\<close>

lemma IS_POWER_OF_TWO_exp:
  assumes "IS_POWER_OF_TWO x"
  obtains n where "n < 64" "x = 2 ^ n"
proof -
  have "\<exists>n. bit x n" using assms by (auto simp: IS_POWER_OF_TWO_def word_eq_bits)
  then obtain n where n: "bit x n" and least: "\<And>m. m < n \<Longrightarrow> \<not> bit x m"
    using exists_least_iff [of "bit x"] by auto
  have n64: "n < 64" using bit_imp_le_length [OF n] by simp
  define y where "y = x AND NOT (2 ^ n)"
  have y: "bit y m \<longleftrightarrow> bit x m \<and> m > n" for m
    using least [of m] bit_imp_le_length [of x m] n
    by (auto simp: y_def bit_simps) (metis linorder_neqE_nat)
  have "y AND 2 ^ n = 0" by (auto simp: word_eq_bits y_def bit_simps)
  moreover have "x = y OR 2 ^ n"
    using n n64 bit_imp_le_length [of x] by (fastforce simp: word_eq_bits y_def bit_simps)
  ultimately have "x = y + 2 ^ n" by (simp add: disjunctive_add_eq_or)
  then have "x - 1 = y + mask n" by (simp add: mask_eq_exp_minus_1)
  also have "\<dots> = y OR mask n"
    by (rule disjunctive_add_eq_or) (auto simp: word_eq_bits bit_simps y)
  finally have pred: "x - 1 = y OR mask n" .
  have "\<not> bit x m" if "m \<noteq> n" for m
  proof
    assume m: "bit x m"
    then have "bit y m" using least [of m] that y [of m] by (metis linorder_neqE_nat)
    then have "bit (x AND (x - 1)) m" using m by (simp add: pred bit_simps)
    then show False using assms by (simp add: IS_POWER_OF_TWO_def)
  qed
  then have "bit x m \<longleftrightarrow> m = n" for m using n by blast
  then have "x = 2 ^ n" using n64 by (auto simp: word_eq_bits bit_exp_iff)
  then show thesis using that n64 by blast
qed

lemma slot_index:
  assumes "n < 64" and "i < 2 ^ n"
  shows "unat ((start + of_nat i) AND (2 ^ n - 1) :: u64) = (unat start + i) mod 2 ^ n"
proof -
  have i: "i < 2 ^ 64"
    using assms(2) power_increasing [of n 64 "2 :: nat"] assms(1) by linarith
  have "(start + of_nat i) AND (2 ^ n - 1) = take_bit n (start + of_nat i)"
    by (simp add: take_bit_eq_mask mask_eq_exp_minus_1)
  then have "unat ((start + of_nat i) AND (2 ^ n - 1)) = unat (start + of_nat i) mod 2 ^ n"
    by (metis take_bit_eq_mod unsigned_take_bit_eq)
  also have "unat (start + of_nat i) = (unat start + i) mod 2 ^ 64"
    using i by (simp add: unat_word_ariths unat_of_nat)
  also have "(unat start + i) mod 2 ^ 64 mod 2 ^ n = (unat start + i) mod 2 ^ n"
    using assms(1) by (intro mod_mod_cancel le_imp_power_dvd) simp
  finally show ?thesis .
qed

section \<open>Reserving an entry\<close>

definition wf_table :: "min_epoch_table \<Rightarrow> bool" where
  "wf_table t \<longleftrightarrow> IS_POWER_OF_TWO (tsize t) \<and> table t \<noteq> None \<and> length (entries_of t) = unat (tsize t)"

lemma wf_table_exp:
  assumes "wf_table t"
  obtains n where "n < 64" "tsize t = 2 ^ n" "length (entries_of t) = 2 ^ n"
proof -
  obtain n where n: "n < 64" "tsize t = 2 ^ n"
    using assms IS_POWER_OF_TWO_exp [of "tsize t"] unfolding wf_table_def by blast
  have "unat (of_nat (2 ^ n) :: u64) = 2 ^ n"
    using power_strict_increasing [of n 64 "2 :: nat"] n(1) by (intro unat_of_nat_small) simp
  then have "unat (2 ^ n :: u64) = 2 ^ n" by simp
  then show thesis using that [OF n] assms n(2) by (simp add: wf_table_def)
qed

lemma reserve_scan_Some:
  assumes "reserve_scan es sz start is = Some k"
  shows "thread_id (es ! k) = 0 \<and> (\<exists>i \<in> set is. k = unat ((start + of_nat i) AND (sz - 1)))"
  using assms by (induction "is") (auto simp: Let_def split: if_splits)

lemma reserve_scan_None:
  assumes "reserve_scan es sz start is = None" and "i \<in> set is"
  shows "thread_id (es ! unat ((start + of_nat i) AND (sz - 1))) \<noteq> 0"
  using assms by (induction "is") (auto simp: Let_def split: if_splits)

text \<open>The probe sequence visits every slot.\<close>

lemma probe_all:
  fixes s :: nat
  assumes "k < N"
  obtains i where "i < N" "(s + i) mod N = k"
proof -
  define i where "i = (k + (N - s mod N)) mod N"
  have "(s + i) mod N = (s mod N + (k + (N - s mod N))) mod N"
    unfolding i_def by (simp add: mod_add_left_eq mod_add_right_eq)
  also have "s mod N + (k + (N - s mod N)) = k + N"
    using mod_less_divisor [of N s] assms by linarith
  also have "(k + N) mod N = k" using assms by simp
  finally show thesis using that [of i] assms by (simp add: i_def)
qed

lemma ReserveEntry_cases:
  assumes wf: "wf_table t"
  obtains (full) "ReserveEntry t start tid = None" "\<forall>e \<in> set (entries_of t). thread_id e \<noteq> 0"
    | (slot) i where "i < length (entries_of t)" "thread_id (entries_of t ! i) = 0"
        "ReserveEntry t start tid = Some (i, t\<lparr>table := Some ((entries_of t)
            [i := (entries_of t ! i)\<lparr>thread_id := tid\<rparr>])\<rparr>)"
proof -
  obtain n where n: "n < 64" "tsize t = 2 ^ n" "length (entries_of t) = 2 ^ n"
    by (rule wf_table_exp [OF wf])
  have sz: "unat (tsize t) = 2 ^ n" using wf n(3) by (simp add: wf_table_def)
  show thesis
  proof (cases "reserve_scan (entries_of t) (tsize t) start [0..<unat (tsize t)]")
    case None
    have "thread_id (entries_of t ! k) \<noteq> 0" if k: "k < 2 ^ n" for k
    proof -
      obtain i where i: "i < 2 ^ n" "(unat start + i) mod 2 ^ n = k" by (rule probe_all [OF k])
      then show ?thesis
        using reserve_scan_None [OF None, of i] slot_index [OF n(1), of i start] n(2) sz by simp
    qed
    then have "\<forall>e \<in> set (entries_of t). thread_id e \<noteq> 0" using n(3) by (auto simp: in_set_conv_nth)
    then show thesis using full None by (simp add: ReserveEntry_def)
  next
    case (Some i)
    from reserve_scan_Some [OF Some] obtain j where j: "j < 2 ^ n" "thread_id (entries_of t ! i) = 0"
      "i = unat ((start + of_nat j) AND (tsize t - 1))"
      unfolding sz by auto
    then have "i < length (entries_of t)" using slot_index [OF n(1) j(1), of start] n(2,3) by simp
    then show thesis using slot j(2) Some by (simp add: ReserveEntry_def)
  qed
qed

section \<open>Entries of threads\<close>

text \<open>Every entry pointer handed out is in range and the entry carries the number of its thread.\<close>

definition store_inv :: "epoch_store \<Rightarrow> bool" where
  "store_inv h \<longleftrightarrow> (\<forall>tid k i. tls h tid = Some (k, i) \<longrightarrow>
     tid \<noteq> 0 \<and> i < length (entries_of (tables h k)) \<and> thread_id (entries_of (tables h k) ! i) = tid)"

lemma store_invD:
  assumes "store_inv h" and "tls h tid = Some p"
  shows "tid \<noteq> 0" "snd p < length (entries_of (tables h (fst p)))" "thread_id (entry_at h p) = tid"
  using assms by (cases p; auto simp: store_inv_def entry_at_def)+

lemma store_inv_inj:
  assumes "store_inv h" and "tls h tid = Some p" and "tls h tid' = Some p"
  shows "tid = tid'"
  using store_invD(3) [OF assms(1,2)] store_invD(3) [OF assms(1,3)] by simp

lemma entries_of_upd [simp]: "entries_of (t\<lparr>table := Some es\<rparr>) = es"
  by (simp add: entries_of_def)

lemma update_entry_at:
  assumes "snd p < length (entries_of (tables h (fst p)))"
  shows "entry_at (update_entry h p f) q = (if q = p then f (entry_at h p) else entry_at h q)"
  using assms by (cases p; cases q) (auto simp: entry_at_def update_entry_def Let_def)

lemma update_entry_simps [simp]:
  "tls (update_entry h p f) = tls h"
  "length (entries_of (tables (update_entry h p f) k)) = length (entries_of (tables h k))"
  by (auto simp: update_entry_def Let_def)

lemma update_entry_inv:
  assumes "store_inv h" and "tls h tid = Some p" and "\<And>e. thread_id (f e) = thread_id e"
  shows "store_inv (update_entry h p f)"
  unfolding store_inv_def
proof (intro allI impI)
  fix u k i assume u: "tls (update_entry h p f) u = Some (k, i)"
  have "entry_at (update_entry h p f) (k, i) = (if (k, i) = p then f (entry_at h p) else entry_at h (k, i))"
    by (rule update_entry_at [OF store_invD(2) [OF assms(1,2)]])
  then have "thread_id (entry_at (update_entry h p f) (k, i)) = thread_id (entry_at h (k, i))"
    using assms(3) by simp
  then show "u \<noteq> 0 \<and> i < length (entries_of (tables (update_entry h p f) k)) \<and>
      thread_id (entries_of (tables (update_entry h p f) k) ! i) = u"
    using store_invD [OF assms(1), of u "(k, i)"] u by (simp add: entry_at_def)
qed

lemma GetEntryForThread_ok:
  assumes inv: "store_inv h" and wf: "wf_table (tables h k)" and tid: "tid \<noteq> 0"
    and get: "GetEntryForThread h k tid = Some (p, h')"
  shows "store_inv h'" "tls h' tid = Some p" "\<And>u. u \<noteq> tid \<Longrightarrow> tls h' u = tls h u"
    "\<And>u q. tls h u = Some q \<Longrightarrow> entry_at h' q = entry_at h q"
    "GetEntryForThread h' k tid = Some (p, h')" "\<And>q. protected_epoch (entry_at h' q) = protected_epoch (entry_at h q)"
proof -
  have "store_inv h' \<and> tls h' tid = Some p \<and> (\<forall>u. u \<noteq> tid \<longrightarrow> tls h' u = tls h u) \<and>
    (\<forall>u q. tls h u = Some q \<longrightarrow> entry_at h' q = entry_at h q) \<and>
    (\<forall>q. protected_epoch (entry_at h' q) = protected_epoch (entry_at h q))"
  proof (cases "tls h tid")
    case (Some q)
    then show ?thesis using get inv by (simp add: GetEntryForThread_def)
  next
    case None
    let ?t = "tables h k" and ?es = "entries_of (tables h k)"
    show ?thesis
    proof (rule ReserveEntry_cases [OF wf, of "Murmur3_64 tid" tid])
      assume "ReserveEntry ?t (Murmur3_64 tid) tid = None"
      then show ?thesis using None get by (simp add: GetEntryForThread_def ReserveEntryForThread_def)
    next
      fix i assume i: "i < length ?es" "thread_id (?es ! i) = 0"
        and r: "ReserveEntry ?t (Murmur3_64 tid) tid =
          Some (i, ?t\<lparr>table := Some (?es[i := (?es ! i)\<lparr>thread_id := tid\<rparr>])\<rparr>)"
      have p: "p = (k, i)" and h': "h' = h\<lparr>tables := (tables h)(k := ?t\<lparr>table :=
          Some (?es[i := (?es ! i)\<lparr>thread_id := tid\<rparr>])\<rparr>), tls := (tls h)(tid \<mapsto> (k, i))\<rparr>"
        using get None r by (auto simp: GetEntryForThread_def ReserveEntryForThread_def)
      have other: "(k, i) \<noteq> q" if "tls h u = Some q" for u q
        using store_invD [OF inv that] i(2) by (auto simp: entry_at_def)
      have at: "entry_at h' q = (if q = (k, i) then (?es ! i)\<lparr>thread_id := tid\<rparr> else entry_at h q)" for q
        using i(1) by (cases q) (auto simp: entry_at_def h')
      have len: "length (entries_of (tables h' j)) = length (entries_of (tables h j))" for j
        by (simp add: h')
      have "store_inv h'"
        unfolding store_inv_def
      proof (intro allI impI)
        fix u j n assume u: "tls h' u = Some (j, n)"
        have "u \<noteq> 0 \<and> n < length (entries_of (tables h' j)) \<and> thread_id (entry_at h' (j, n)) = u"
        proof (cases "u = tid")
          case True
          then show ?thesis using u i(1) tid at [of "(k, i)"] len by (simp add: h')
        next
          case False
          then have old: "tls h u = Some (j, n)" using u by (simp add: h')
          show ?thesis using store_invD [OF inv old] other [OF old] at len by auto
        qed
        then show "u \<noteq> 0 \<and> n < length (entries_of (tables h' j)) \<and>
            thread_id (entries_of (tables h' j) ! n) = u"
          by (simp add: entry_at_def)
      qed
      moreover have "protected_epoch (entry_at h' q) = protected_epoch (entry_at h q)" for q
        by (simp add: at) (auto simp: entry_at_def)
      moreover have "entry_at h' q = entry_at h q" if "tls h u = Some q" for u q
        using other [OF that] at by metis
      moreover have "tls h' tid = Some p" "\<forall>u. u \<noteq> tid \<longrightarrow> tls h' u = tls h u" by (simp_all add: h' p)
      ultimately show ?thesis by blast
    qed
  qed
  then show "store_inv h'" "tls h' tid = Some p" "\<And>u. u \<noteq> tid \<Longrightarrow> tls h' u = tls h u"
    "\<And>u q. tls h u = Some q \<Longrightarrow> entry_at h' q = entry_at h q"
    "\<And>q. protected_epoch (entry_at h' q) = protected_epoch (entry_at h q)"
    by blast+
  then show "GetEntryForThread h' k tid = Some (p, h')" by (simp add: GetEntryForThread_def)
qed

section \<open>Properties\<close>

text \<open>
  Reserving an entry. On an initialized table the probe sequence visits every slot: the call
  returns exactly when some slot is free, with the number of a free slot, and writes only the thread
  number of that slot; when all slots are taken it spins for ever.
\<close>

theorem reserve_entry_complete:
  assumes "wf_table t"
  shows "case ReserveEntry t start tid of
      None \<Rightarrow> (\<forall>e \<in> set (entries_of t). thread_id e \<noteq> 0)
    | Some (i, t') \<Rightarrow> i < length (entries_of t) \<and> thread_id (entries_of t ! i) = 0 \<and>
        entries_of t' = (entries_of t)[i := (entries_of t ! i)\<lparr>thread_id := tid\<rparr>] \<and>
        tsize t' = tsize t"
  by (rule ReserveEntry_cases [OF assms, of start tid]) simp_all

definition sample_table :: min_epoch_table where
  "sample_table = snd (MinEpochTable_Initialize new_MinEpochTable 4)"

lemma sample_table_wf: "wf_table sample_table"
proof -
  have "IS_POWER_OF_TWO 4" by code_simp
  then show ?thesis
    by (simp add: wf_table_def sample_table_def MinEpochTable_Initialize_def new_MinEpochTable_def entries_of_def)
qed

theorem reserve_entry_complete_witness:
  "\<exists>i t'. ReserveEntry sample_table 7 9 = Some (i, t') \<and> i < 4"
proof -
  have l: "length (entries_of sample_table) = 4" by code_simp
  have "ReserveEntry sample_table 7 9 \<noteq> None" by code_simp
  then show ?thesis using reserve_entry_complete [OF sample_table_wf, where start = 7 and tid = 9] l by auto
qed

lemma foldl_scan:
  "foldl scan_entry c es \<le> c \<and>
   (\<forall>e \<in> set es. protected_epoch e \<noteq> 0 \<longrightarrow> foldl scan_entry c es \<le> protected_epoch e) \<and>
   (foldl scan_entry c es = c \<or> (\<exists>e \<in> set es. protected_epoch e \<noteq> 0 \<and> foldl scan_entry c es = protected_epoch e))"
proof (induction es arbitrary: c)
  case (Cons e es)
  let ?c = "scan_entry c e"
  have "?c \<le> c" "protected_epoch e \<noteq> 0 \<Longrightarrow> ?c \<le> protected_epoch e"
    "?c = c \<or> protected_epoch e \<noteq> 0 \<and> ?c = protected_epoch e"
    by (auto simp: scan_entry_def)
  then show ?case using Cons.IH [of ?c] by (auto intro: order_trans)
qed simp

lemma le_pred_iff: "x \<noteq> 0 \<Longrightarrow> y \<le> x - 1 \<longleftrightarrow> y < x" for x y :: u64
  by (simp add: less_eq_dec_iff)

text \<open>
  C33: The epoch that a scan of the table declares safe lies below the current epoch and below the
  epoch of every protected thread, and it is the largest such epoch.
\<close>

theorem safe_epoch_bound:
  assumes "c \<noteq> 0"
  shows "\<forall>x. x \<le> Table_ComputeNewSafeToReclaimEpoch t c \<longleftrightarrow>
    x < c \<and> (\<forall>e \<in> set (entries_of t). protected_epoch e \<noteq> 0 \<longrightarrow> x < protected_epoch e)"
proof
  fix x
  let ?o = "foldl scan_entry c (entries_of t)"
  have "?o \<noteq> 0" using foldl_scan [of c "entries_of t"] assms by auto
  then have "x \<le> Table_ComputeNewSafeToReclaimEpoch t c \<longleftrightarrow> x < ?o"
    by (simp add: Table_ComputeNewSafeToReclaimEpoch_def le_pred_iff)
  also have "\<dots> \<longleftrightarrow> x < c \<and> (\<forall>e \<in> set (entries_of t). protected_epoch e \<noteq> 0 \<longrightarrow> x < protected_epoch e)"
    using foldl_scan [of c "entries_of t"] by (auto dest: order.strict_trans2)
  finally show "x \<le> Table_ComputeNewSafeToReclaimEpoch t c \<longleftrightarrow>
    x < c \<and> (\<forall>e \<in> set (entries_of t). protected_epoch e \<noteq> 0 \<longrightarrow> x < protected_epoch e)" .
qed

theorem safe_epoch_bound_witness:
  "(5 :: u64) \<noteq> 0 \<and> 4 \<le> Table_ComputeNewSafeToReclaimEpoch sample_table 5"
proof -
  have "(5 :: u64) \<noteq> 0" "(4 :: u64) < 5" "list_all (\<lambda>e. protected_epoch e = 0) (entries_of sample_table)"
    by code_simp+
  then show ?thesis using safe_epoch_bound [of 5 sample_table] by (auto simp: list_all_iff)
qed

text \<open>
  Protection is per thread. Entering the protected region marks exactly the calling thread's own
  entry with the current epoch, and leaving it clears that entry; the entries of all other threads keep
  their contents, no two threads ever share an entry, and the thread sees itself protected in between.
\<close>

theorem protect_isolated:
  assumes "store_inv h" and "wf_table (tables h k)" and "tid \<noteq> 0" and "epoch_table m = Some k"
    and "current_epoch m \<noteq> 0" and "Protect m h tid = Some h'"
  shows "store_inv h' \<and> (\<exists>p. tls h' tid = Some p \<and> protected_epoch (entry_at h' p) = current_epoch m \<and>
      (\<forall>u q. u \<noteq> tid \<longrightarrow> tls h' u = Some q \<longrightarrow> q \<noteq> p \<and> entry_at h' q = entry_at h q)) \<and>
    IsProtected m h' tid = Some (True, h') \<and>
    (\<exists>h''. Unprotect m h' tid = Some h'' \<and> IsProtected m h'' tid = Some (False, h'') \<and>
      (\<forall>u q. u \<noteq> tid \<longrightarrow> tls h'' u = Some q \<longrightarrow> entry_at h'' q = entry_at h q))"
proof -
  let ?f = "\<lambda>e. e\<lparr>last_unprotected_epoch := 0, protected_epoch := current_epoch m\<rparr>"
  let ?g = "\<lambda>e. e\<lparr>last_unprotected_epoch := current_epoch m, protected_epoch := 0\<rparr>"
  obtain p h1 where get: "GetEntryForThread h k tid = Some (p, h1)" and h': "h' = update_entry h1 p ?f"
    using assms(4,6) by (auto simp: Protect_def Table_Protect_def split: option.splits)
  note ok = GetEntryForThread_ok [OF assms(1-3) get]
  have inv': "store_inv h'" unfolding h' by (rule update_entry_inv [OF ok(1,2)]) simp
  have tls': "tls h' tid = Some p" using ok(2) by (simp add: h')
  have at': "entry_at h' q = (if q = p then ?f (entry_at h1 p) else entry_at h1 q)" for q
    unfolding h' by (rule update_entry_at [OF store_invD(2) [OF ok(1,2)]])
  define h'' where "h'' = update_entry h' p ?g"
  have at'': "entry_at h'' q = (if q = p then ?g (entry_at h' p) else entry_at h' q)" for q
    unfolding h''_def by (rule update_entry_at [OF store_invD(2) [OF inv' tls']])
  have un: "Unprotect m h' tid = Some h''"
    using assms(4) tls' by (simp add: Unprotect_def Table_Unprotect_def GetEntryForThread_def h''_def)
  have other: "q \<noteq> p \<and> entry_at h' q = entry_at h q" if u: "u \<noteq> tid" "tls h' u = Some q" for u q
  proof -
    have ne: "q \<noteq> p" using store_inv_inj [OF inv' u(2), of tid] tls' u(1) by auto
    have "tls h u = Some q" using ok(3) [OF u(1)] u(2) by (simp add: h')
    then show ?thesis using ne at' ok(4) by simp
  qed
  have "tls h'' = tls h'" by (simp add: h''_def)
  then have tls'': "tls h'' tid = Some p" using tls' by simp
  have prot: "IsProtected m h' tid = Some (True, h')" "IsProtected m h'' tid = Some (False, h'')"
    using assms(4,5) tls' tls'' at' at''
    by (simp_all add: IsProtected_def Table_IsProtected_def GetEntryForThread_def)
  moreover have "entry_at h'' q = entry_at h q" if "u \<noteq> tid" "tls h'' u = Some q" for u q
    using other [OF that(1)] that(2) at'' \<open>tls h'' = tls h'\<close> by simp
  moreover have "protected_epoch (entry_at h' p) = current_epoch m" by (simp add: at')
  ultimately show ?thesis using inv' tls' other un by metis
qed

definition sample_store :: epoch_store where
  "sample_store = \<lparr>tables = (\<lambda>_. sample_table), tls = (\<lambda>_. None)\<rparr>"

definition sample_manager :: epoch_manager where
  "sample_manager = \<lparr>current_epoch = 3, safe_to_reclaim_epoch = 0, epoch_table = Some 0\<rparr>"

theorem protect_isolated_witness:
  "\<exists>h'. Protect sample_manager sample_store 9 = Some h' \<and> IsProtected sample_manager h' 9 = Some (True, h')"
proof -
  have s: "store_inv sample_store" "wf_table (tables sample_store 0)"
    using sample_table_wf by (simp_all add: store_inv_def sample_store_def)
  have m: "epoch_table sample_manager = Some 0" "current_epoch sample_manager \<noteq> 0" "(9 :: u64) \<noteq> 0"
    by code_simp+
  have "Protect sample_manager sample_store 9 \<noteq> None" by code_simp
  then obtain h' where h': "Protect sample_manager sample_store 9 = Some h'" by auto
  show ?thesis using protect_isolated [OF s m(3,1,2) h'] h' by blast
qed

text \<open>
  The thread-local entry pointer is one variable for all tables. A thread that has reserved its
  entry in the table of one manager does not become visible in the table of another manager when it
  enters that manager's protected region: the other table does not change, so the epochs it computes
  as safe take no account of the thread.
\<close>

theorem protect_elsewhere_ineffective:
  assumes "tls h tid = Some (j, i)" and "epoch_table m = Some k" and "j \<noteq> k"
  shows "\<exists>h'. Protect m h tid = Some h' \<and> tables h' k = tables h k \<and>
    BumpCurrentEpoch m (tables h' k) = BumpCurrentEpoch m (tables h k)"
  using assms
  by (simp add: Protect_def Table_Protect_def GetEntryForThread_def update_entry_def Let_def)

theorem protect_elsewhere_ineffective_witness:
  "\<exists>h'. Protect sample_manager (sample_store\<lparr>tls := [9 \<mapsto> (1, 2)]\<rparr>) 9 = Some h' \<and>
     safe_to_reclaim_epoch (BumpCurrentEpoch sample_manager (tables h' 0)) = 2"
proof -
  let ?h = "sample_store\<lparr>tls := [9 \<mapsto> (1, 2)]\<rparr>"
  have "safe_to_reclaim_epoch (BumpCurrentEpoch sample_manager sample_table) = 2" by code_simp
  moreover have "tls ?h 9 = Some (1, 2)" "epoch_table sample_manager = Some 0" "tables ?h 0 = sample_table"
    by (simp_all add: sample_manager_def sample_store_def)
  ultimately show ?thesis using protect_elsewhere_ineffective [of ?h 9 1 2 sample_manager 0] by auto
qed

end
