(* ===== verification/Garbage.thy ===== *)
theory Garbage
  imports Epoch "HOL-Library.Multiset"
begin

text \<open>
  The two garbage lists (\<open>src/src/common/garbage_list.h\<close> and \<open>garbage_list_unsafe.h\<close>): a ring of removed
  items, each stamped with the epoch of its removal, whose slots are reused when the epoch manager
  declares the stamp safe. The calls are modelled as they run without interference; the list, the
  epoch manager and its table are passed explicitly, and the destroy callbacks that a call makes
  are returned as a list.
\<close>

section \<open>State\<close>

record item =
  removal_epoch :: u64
  destroy_callback :: u64
  destroy_callback_context :: u64
  removed_item :: u64

definition new_item :: item where
  "new_item = \<lparr>removal_epoch = 0, destroy_callback = 0, destroy_callback_context = 0, removed_item = 0\<rparr>"

definition invalid_epoch :: u64 where
  "invalid_epoch = NOT 0"

record garbage_list =
  has_manager :: bool
  tail :: u64
  item_count :: u64
  items :: "item list"

definition new_GarbageList :: garbage_list where
  "new_GarbageList = \<lparr>has_manager = False, tail = 0, item_count = 0, items = []\<rparr>"

text \<open>A call of a destroy callback: the callback, its context and the object.\<close>

type_synonym destroyed = "u64 \<times> u64 \<times> u64"

definition destroy :: "item \<Rightarrow> destroyed" where
  "destroy it = (destroy_callback it, destroy_callback_context it, removed_item it)"

text \<open>
  \<open>avail\<close> is whether the allocator returns memory. The two lists have the same code here; the class
  without synchronization also writes the epoch of every new item.
\<close>

definition GarbageList_Initialize :: "garbage_list \<Rightarrow> bool \<Rightarrow> bool \<Rightarrow> u64 \<Rightarrow> status_obj \<times> garbage_list" where
  "GarbageList_Initialize g manager avail n =
     (if has_manager g then (OK, g)
      else if \<not> manager then (status_code kInvalidArgument, g)
      else if n = 0 \<or> \<not> IS_POWER_OF_TWO n then (status_code kInvalidArgument, g)
      else if \<not> avail then (status_code kCorruption, g\<lparr>items := []\<rparr>)
      else (OK, \<lparr>has_manager = True, tail = 0, item_count = n, items = replicate (unat n) new_item\<rparr>))"

definition GarbageListUnsafe_Initialize :: "garbage_list \<Rightarrow> bool \<Rightarrow> bool \<Rightarrow> u64 \<Rightarrow> status_obj \<times> garbage_list" where
  "GarbageListUnsafe_Initialize g manager avail n =
     (if has_manager g then (OK, g)
      else if \<not> manager then (status_code kInvalidArgument, g)
      else if n = 0 \<or> \<not> IS_POWER_OF_TWO n then (status_code kInvalidArgument, g)
      else if \<not> avail then (status_code kCorruption, g\<lparr>items := []\<rparr>)
      else (OK, \<lparr>has_manager = True, tail = 0, item_count = n,
                 items = map (\<lambda>_. new_item\<lparr>removal_epoch := 0\<rparr>) [0..<unat n]\<rparr>))"

definition GarbageList_Uninitialize :: "garbage_list \<Rightarrow> status_obj \<times> destroyed list \<times> garbage_list" where
  "GarbageList_Uninitialize g =
     (if \<not> has_manager g then (OK, [], g)
      else (OK, map destroy (filter (\<lambda>it. removed_item it \<noteq> 0) (items g)),
            \<lparr>has_manager = False, tail = 0, item_count = 0, items = []\<rparr>))"

definition GarbageListUnsafe_Uninitialize :: "garbage_list \<Rightarrow> status_obj \<times> destroyed list \<times> garbage_list" where
  "GarbageListUnsafe_Uninitialize g =
     (if \<not> has_manager g then (OK, [], g)
      else (OK, concat (map (\<lambda>it. if removed_item it \<noteq> 0 then [destroy it] else []) (items g)),
            \<lparr>has_manager = False, tail = 0, item_count = 0, items = []\<rparr>))"

section \<open>Pushing\<close>

datatype push_outcome =
    Pushed "destroyed list" garbage_list epoch_manager
  | Retry garbage_list epoch_manager
  | PushAbort string

text \<open>Every quarter of the ring advances the epoch.\<close>

definition bump_if_quarter :: "u64 \<Rightarrow> u64 \<Rightarrow> epoch_manager \<Rightarrow> min_epoch_table \<Rightarrow> epoch_manager" where
  "bump_if_quarter slot n m t = (if push_bit 2 slot AND (n - 1) = 0 then BumpCurrentEpoch m t else m)"

text \<open>The compare-and-swap that takes a slot: it returns the epoch found.\<close>

definition claim_slot :: "item \<Rightarrow> u64 \<Rightarrow> u64 \<times> item" where
  "claim_slot it prior =
     (removal_epoch it, if removal_epoch it = prior then it\<lparr>removal_epoch := invalid_epoch\<rparr> else it)"

text \<open>
  The slot holds the claimed item \<open>it\<close>, whose epoch was \<open>prior\<close>: give it back if the item is not safe
  yet; otherwise destroy the item, if there is one, and put the new one there.
\<close>

definition settle :: "garbage_list \<Rightarrow> nat \<Rightarrow> item \<Rightarrow> u64 \<Rightarrow> item \<Rightarrow> epoch_manager \<Rightarrow> push_outcome" where
  "settle g slot it prior new m =
     (if prior \<noteq> 0 \<and> \<not> IsSafeToReclaim m prior
      then Retry (g\<lparr>items := (items g)[slot := it\<lparr>removal_epoch := prior\<rparr>]\<rparr>) m
      else Pushed (if prior \<noteq> 0 then [destroy it] else []) (g\<lparr>items := (items g)[slot := new]\<rparr>) m)"

text \<open>One round of the loop in \<open>GarbageListUnsafe::Push\<close> and in \<open>GarbageList::Push\<close>.\<close>

definition push_try_unsafe :: "garbage_list \<Rightarrow> item \<Rightarrow> epoch_manager \<Rightarrow> min_epoch_table \<Rightarrow> push_outcome" where
  "push_try_unsafe g new m t =
     (let slot = tail g AND (item_count g - 1); g1 = g\<lparr>tail := tail g + 1\<rparr>;
          m1 = bump_if_quarter slot (item_count g) m t;
          it = items g ! unat slot; prior = removal_epoch it in
      if prior = invalid_epoch then PushAbort ''invalid priorItemEpoch''
      else settle g1 (unat slot) (it\<lparr>removal_epoch := invalid_epoch\<rparr>) prior new m1)"

definition push_try :: "garbage_list \<Rightarrow> item \<Rightarrow> epoch_manager \<Rightarrow> min_epoch_table \<Rightarrow> push_outcome" where
  "push_try g new m t =
     (let slot = (tail g - 1) AND (item_count g - 1); g1 = g\<lparr>tail := tail g + 1\<rparr>;
          m1 = bump_if_quarter slot (item_count g) m t;
          it = items g ! unat slot; prior = removal_epoch it in
      if prior = invalid_epoch then Retry g1 m1
      else case claim_slot it prior of (result, it1) \<Rightarrow>
        if result \<noteq> prior then Retry g1 m1
        else settle g1 (unat slot) it1 prior new m1)"

text \<open>The loop with a bound on the number of rounds; \<open>None\<close> means that more rounds are needed.\<close>

fun push_loop :: "(garbage_list \<Rightarrow> item \<Rightarrow> epoch_manager \<Rightarrow> min_epoch_table \<Rightarrow> push_outcome) \<Rightarrow> nat \<Rightarrow>
    garbage_list \<Rightarrow> item \<Rightarrow> epoch_manager \<Rightarrow> min_epoch_table \<Rightarrow>
    (destroyed list \<times> garbage_list \<times> epoch_manager) checked option" where
  "push_loop body 0 g new m t = None"
| "push_loop body (Suc n) g new m t =
     (case body g new m t of
        Pushed ds g' m' \<Rightarrow> Some (Inr (ds, g', m'))
      | Retry g' m' \<Rightarrow> push_loop body n g' new m' t
      | PushAbort e \<Rightarrow> Some (Inl e))"

definition make_item :: "epoch_manager \<Rightarrow> u64 \<Rightarrow> u64 \<Rightarrow> u64 \<Rightarrow> item" where
  "make_item m obj callback context =
     \<lparr>removal_epoch = GetCurrentEpoch m, destroy_callback = callback,
      destroy_callback_context = context, removed_item = obj\<rparr>"

definition GarbageListUnsafe_Push ::
    "nat \<Rightarrow> garbage_list \<Rightarrow> u64 \<Rightarrow> u64 \<Rightarrow> u64 \<Rightarrow> epoch_manager \<Rightarrow> min_epoch_table \<Rightarrow>
     (destroyed list \<times> garbage_list \<times> epoch_manager) checked option" where
  "GarbageListUnsafe_Push fuel g obj callback context m t =
     push_loop push_try_unsafe fuel g (make_item m obj callback context) m t"

definition GarbageList_Push ::
    "nat \<Rightarrow> garbage_list \<Rightarrow> u64 \<Rightarrow> u64 \<Rightarrow> u64 \<Rightarrow> epoch_manager \<Rightarrow> min_epoch_table \<Rightarrow>
     (destroyed list \<times> garbage_list \<times> epoch_manager) checked option" where
  "GarbageList_Push fuel g obj callback context m t =
     push_loop push_try fuel g (make_item m obj callback context) m t"

section \<open>Scavenging\<close>

text \<open>What is done with one slot: the item destroyed, if any, and the new content.\<close>

definition scavenge_claimed :: "epoch_manager \<Rightarrow> item \<Rightarrow> u64 \<Rightarrow> destroyed list \<times> item" where
  "scavenge_claimed m it prior =
     (if \<not> IsSafeToReclaim m prior then ([], it\<lparr>removal_epoch := prior\<rparr>)
      else ([destroy it],
            \<lparr>removal_epoch = 0, destroy_callback = 0, destroy_callback_context = 0, removed_item = 0\<rparr>))"

definition scavenge_item :: "epoch_manager \<Rightarrow> item \<Rightarrow> destroyed list \<times> item" where
  "scavenge_item m it =
     (let prior = removal_epoch it in
      if prior = 0 \<or> prior = invalid_epoch then ([], it)
      else case claim_slot it prior of (result, it1) \<Rightarrow>
        if result \<noteq> prior then ([], it1) else scavenge_claimed m it1 prior)"

definition scavenge_item_unsafe :: "epoch_manager \<Rightarrow> item \<Rightarrow> destroyed list \<times> item" where
  "scavenge_item_unsafe m it =
     (let prior = removal_epoch it in
      if prior = 0 \<or> prior = invalid_epoch then ([], it)
      else scavenge_claimed m (it\<lparr>removal_epoch := invalid_epoch\<rparr>) prior)"

fun scavenge_loop :: "(item \<Rightarrow> destroyed list \<times> item) \<Rightarrow> item list \<Rightarrow> destroyed list \<times> item list" where
  "scavenge_loop body [] = ([], [])"
| "scavenge_loop body (it # its) =
     (case body it of (d, it') \<Rightarrow> case scavenge_loop body its of (ds, its') \<Rightarrow> (d @ ds, it' # its'))"

text \<open>The returned count \<open>scavenged\<close> is never incremented.\<close>

definition Scavenge :: "garbage_list \<Rightarrow> epoch_manager \<Rightarrow> int \<times> destroyed list \<times> garbage_list" where
  "Scavenge g m =
     (case scavenge_loop (scavenge_item m) (items g) of (ds, its) \<Rightarrow> (0, ds, g\<lparr>items := its\<rparr>))"

definition ScavengeUnsafe :: "garbage_list \<Rightarrow> epoch_manager \<Rightarrow> int \<times> destroyed list \<times> garbage_list" where
  "ScavengeUnsafe g m =
     (case scavenge_loop (scavenge_item_unsafe m) (items g) of (ds, its) \<Rightarrow> (0, ds, g\<lparr>items := its\<rparr>))"

definition reclaimable :: "epoch_manager \<Rightarrow> item \<Rightarrow> bool" where
  "reclaimable m it \<longleftrightarrow> removal_epoch it \<noteq> 0 \<and> removal_epoch it \<noteq> invalid_epoch \<and>
     IsSafeToReclaim m (removal_epoch it)"

section \<open>The contract of a garbage list\<close>

text \<open>
  What the owner of objects relies on: an object pushed is either still held or has been handed to its
  destroy callback, exactly once. \<open>held\<close> are the objects on the list, and the operations return what
  they destroyed; \<open>None\<close> is a call that does not return.
\<close>

fun run_ops :: "(u64 \<Rightarrow> 'g \<Rightarrow> (u64 list \<times> 'g) option) \<Rightarrow> ('g \<Rightarrow> u64 list \<times> 'g) \<Rightarrow> u64 option list \<Rightarrow>
    'g \<Rightarrow> (u64 list \<times> 'g) option" where
  "run_ops push scavenge [] g = Some ([], g)"
| "run_ops push scavenge (op # ops) g =
     (case (case op of Some x \<Rightarrow> push x g | None \<Rightarrow> Some (scavenge g)) of
        None \<Rightarrow> None
      | Some (ds, g') \<Rightarrow> map_option (\<lambda>(ds', g''). (ds @ ds', g'')) (run_ops push scavenge ops g'))"

fun pushes :: "u64 option list \<Rightarrow> u64 list" where
  "pushes [] = []"
| "pushes (Some x # ops) = x # pushes ops"
| "pushes (None # ops) = pushes ops"

locale reclaim_list =
  fixes inv :: "'g \<Rightarrow> bool" and held :: "'g \<Rightarrow> u64 multiset"
    and push :: "u64 \<Rightarrow> 'g \<Rightarrow> (u64 list \<times> 'g) option" and scavenge :: "'g \<Rightarrow> u64 list \<times> 'g"
  assumes push_conserves: "inv g \<Longrightarrow> push x g = Some (ds, g') \<Longrightarrow>
      inv g' \<and> held g' + mset ds = held g + {#x#}"
    and scavenge_conserves: "inv g \<Longrightarrow> scavenge g = (ds, g') \<Longrightarrow> inv g' \<and> held g' + mset ds = held g"
begin

lemma run_conserves:
  "inv g \<Longrightarrow> run_ops push scavenge ops g = Some (ds, g') \<Longrightarrow>
   inv g' \<and> held g' + mset ds = held g + mset (pushes ops)"
proof (induction ops arbitrary: g ds)
  case Nil
  then show ?case by simp
next
  case (Cons op ops)
  obtain d1 g1 d2 where step: "(case op of Some x \<Rightarrow> push x g | None \<Rightarrow> Some (scavenge g)) = Some (d1, g1)"
    and rest: "run_ops push scavenge ops g1 = Some (d2, g')" and ds: "ds = d1 @ d2"
    using Cons.prems(2) by (auto split: option.splits)
  have 1: "inv g1 \<and> held g1 + mset d1 = held g + mset (pushes [op])"
    using step push_conserves [OF Cons.prems(1)] scavenge_conserves [OF Cons.prems(1)]
    by (cases op) auto
  then have 2: "inv g' \<and> held g' + mset d2 = held g1 + mset (pushes ops)"
    using Cons.IH [OF _ rest] by simp
  have "mset (pushes (op # ops)) = mset (pushes [op]) + mset (pushes ops)" by (cases op) simp_all
  then show ?case using 1 2 by (simp add: ds ac_simps)
qed

end

section \<open>One round\<close>

definition list_ok :: "garbage_list \<Rightarrow> bool" where
  "list_ok g \<longleftrightarrow> has_manager g \<and> IS_POWER_OF_TWO (item_count g) \<and> length (items g) = unat (item_count g) \<and>
     (\<forall>it \<in> set (items g). removal_epoch it \<noteq> invalid_epoch)"

definition slot_at :: "u64 \<Rightarrow> garbage_list \<Rightarrow> nat" where
  "slot_at c g = unat ((tail g + c) AND (item_count g - 1))"

lemma list_ok_exp:
  assumes "list_ok g"
  obtains n where "n < 64" "item_count g = 2 ^ n" "length (items g) = 2 ^ n"
proof -
  obtain n where n: "n < 64" "item_count g = 2 ^ n"
    using assms IS_POWER_OF_TWO_exp [of "item_count g"] unfolding list_ok_def by blast
  have "unat (of_nat (2 ^ n) :: u64) = 2 ^ n"
    using power_strict_increasing [of n 64 "2 :: nat"] n(1) by (intro unat_of_nat_small) simp
  then show thesis using that [OF n] assms n(2) by (simp add: list_ok_def)
qed

lemma slot_at_mod:
  assumes "list_ok g" and "n < 64" and "item_count g = 2 ^ n"
  shows "slot_at c g = unat (tail g + c) mod 2 ^ n"
  using slot_index [OF assms(2), of 0 "tail g + c"] assms(3) by (simp add: slot_at_def)

lemma unat_succ_mod:
  assumes "n < 64"
  shows "unat (x + 1 :: u64) mod 2 ^ n = Suc (unat x) mod 2 ^ n"
proof -
  have "unat (x + 1) = Suc (unat x) mod 2 ^ 64" using unat_word_ariths(1) [of x 1] by simp
  moreover have "Suc (unat x) mod 2 ^ 64 mod 2 ^ n = Suc (unat x) mod 2 ^ n"
    using assms by (intro mod_mod_cancel le_imp_power_dvd) simp
  ultimately show ?thesis by simp
qed

lemma slot_at_less:
  assumes "list_ok g"
  shows "slot_at c g < length (items g)"
  using assms by (rule list_ok_exp) (simp add: slot_at_mod [OF assms])

text \<open>Both lists do the same thing, at the slot \<open>tail + c\<close>: fill the slot if it can be reused.\<close>

definition fill_slot :: "garbage_list \<Rightarrow> nat \<Rightarrow> item \<Rightarrow> epoch_manager \<Rightarrow> push_outcome" where
  "fill_slot g slot new m =
     (let it = items g ! slot in
      if removal_epoch it \<noteq> 0 \<and> \<not> IsSafeToReclaim m (removal_epoch it) then Retry g m
      else Pushed (if removal_epoch it \<noteq> 0 then [destroy it] else [])
             (g\<lparr>items := (items g)[slot := new]\<rparr>) m)"

lemma item_restore [simp]: "it\<lparr>removal_epoch := e, removal_epoch := removal_epoch it\<rparr> = it"
  by (cases it) simp

lemma destroy_claimed [simp]: "destroy (it\<lparr>removal_epoch := e\<rparr>) = destroy it"
  by (simp add: destroy_def)

lemma settle_eq:
  "settle g slot ((items g ! slot)\<lparr>removal_epoch := e\<rparr>) (removal_epoch (items g ! slot)) new m =
     fill_slot g slot new m"
  by (simp add: settle_def fill_slot_def Let_def)

definition body_at :: "u64 \<Rightarrow> (garbage_list \<Rightarrow> item \<Rightarrow> epoch_manager \<Rightarrow> min_epoch_table \<Rightarrow> push_outcome) \<Rightarrow> bool" where
  "body_at c body \<longleftrightarrow> (\<forall>g new m t. list_ok g \<longrightarrow>
     body g new m t = fill_slot (g\<lparr>tail := tail g + 1\<rparr>) (slot_at c g) new
       (bump_if_quarter (of_nat (slot_at c g)) (item_count g) m t))"

lemma bodies_at: "body_at 0 push_try_unsafe" "body_at (-1) push_try"
proof -
  have ne: "removal_epoch (items g ! slot_at c g) \<noteq> invalid_epoch" if "list_ok g" for c g
    using slot_at_less [OF that] that nth_mem by (auto simp: list_ok_def)
  have settle: "settle (g\<lparr>tail := x\<rparr>) i ((items g ! i)\<lparr>removal_epoch := invalid_epoch\<rparr>)
      (removal_epoch (items g ! i)) new m = fill_slot (g\<lparr>tail := x\<rparr>) i new m" for g i x new m
    using settle_eq [of "g\<lparr>tail := x\<rparr>" i] by simp
  show "body_at 0 push_try_unsafe"
    using ne [of _ 0] by (simp add: body_at_def push_try_unsafe_def slot_at_def Let_def settle)
  show "body_at (-1) push_try"
    using ne [of _ "-1"] by (simp add: body_at_def push_try_def slot_at_def Let_def claim_slot_def settle)
qed

lemma fill_slot_cases:
  obtains (busy) "fill_slot g i new m = Retry g m" "removal_epoch (items g ! i) \<noteq> 0"
      "\<not> IsSafeToReclaim m (removal_epoch (items g ! i))"
    | (free) "fill_slot g i new m = Pushed [] (g\<lparr>items := (items g)[i := new]\<rparr>) m"
      "removal_epoch (items g ! i) = 0"
    | (reuse) "fill_slot g i new m = Pushed [destroy (items g ! i)] (g\<lparr>items := (items g)[i := new]\<rparr>) m"
      "removal_epoch (items g ! i) \<noteq> 0" "IsSafeToReclaim m (removal_epoch (items g ! i))"
  by (cases "removal_epoch (items g ! i) = 0"; cases "IsSafeToReclaim m (removal_epoch (items g ! i))")
    (simp_all add: fill_slot_def Let_def)

section \<open>The loop\<close>

text \<open>What a call that returns has done.\<close>

lemma push_loop_effect:
  assumes body: "body_at c body" and "list_ok g"
    and "push_loop body fuel g new m t = Some r"
  shows "\<exists>ds g' m' i. r = Inr (ds, g', m') \<and> i < length (items g) \<and> items g' = (items g)[i := new] \<and>
    has_manager g' = has_manager g \<and> item_count g' = item_count g \<and>
    (removal_epoch (items g ! i) = 0 \<and> ds = [] \<or>
     removal_epoch (items g ! i) \<noteq> 0 \<and> IsSafeToReclaim m' (removal_epoch (items g ! i)) \<and>
     ds = [destroy (items g ! i)])"
  using assms(2,3)
proof (induction fuel arbitrary: g m)
  case 0
  then show ?case by simp
next
  case (Suc n)
  let ?i = "slot_at c g" and ?g = "g\<lparr>tail := tail g + 1\<rparr>"
  let ?m = "bump_if_quarter (of_nat (slot_at c g)) (item_count g) m t"
  have b: "body g new m t = fill_slot ?g ?i new ?m" using body Suc.prems(1) by (simp add: body_at_def)
  have i: "?i < length (items g)" by (rule slot_at_less [OF Suc.prems(1)])
  have ok: "list_ok ?g" using Suc.prems(1) by (simp add: list_ok_def)
  show ?case
  proof (rule fill_slot_cases [of ?g ?i new ?m])
    assume "fill_slot ?g ?i new ?m = Retry ?g ?m"
    then show ?thesis using Suc.IH [OF ok, of ?m] Suc.prems(2) b by simp
  next
    assume "fill_slot ?g ?i new ?m = Pushed [] (?g\<lparr>items := (items ?g)[?i := new]\<rparr>) ?m"
      "removal_epoch (items ?g ! ?i) = 0"
    then show ?thesis using Suc.prems(2) b i by (auto intro!: exI [of _ ?i])
  next
    assume "fill_slot ?g ?i new ?m = Pushed [destroy (items ?g ! ?i)] (?g\<lparr>items := (items ?g)[?i := new]\<rparr>) ?m"
      "removal_epoch (items ?g ! ?i) \<noteq> 0" "IsSafeToReclaim ?m (removal_epoch (items ?g ! ?i))"
    then show ?thesis using Suc.prems(2) b i by (auto intro!: exI [of _ ?i])
  qed
qed

text \<open>It returns when a round meets a free slot.\<close>

lemma push_loop_returns:
  assumes body: "body_at c body" and "list_ok g" and "n < 64" and "item_count g = 2 ^ n"
    and "(unat (tail g + c) + i) mod 2 ^ n = j" and "removal_epoch (items g ! j) = 0" and "i < fuel"
  shows "\<exists>r. push_loop body fuel g new m t = Some r"
  using assms(2,4-7)
proof (induction i arbitrary: g m fuel)
  case 0
  then obtain f where f: "fuel = Suc f" by (cases fuel) auto
  have "slot_at c g = j" using slot_at_mod [OF "0.prems"(1) assms(3) "0.prems"(2)] "0.prems"(3) by simp
  then show ?case
    using "0.prems"(1,4) body by (simp add: f body_at_def fill_slot_def Let_def)
next
  case (Suc i)
  then obtain f where f: "fuel = Suc f" "i < f" by (cases fuel) auto
  let ?g = "g\<lparr>tail := tail g + 1\<rparr>" and ?m = "bump_if_quarter (of_nat (slot_at c g)) (item_count g) m t"
  have b: "body g new m t = fill_slot ?g (slot_at c g) new ?m"
    using body Suc.prems(1) by (simp add: body_at_def)
  have "unat (tail ?g + c) mod 2 ^ n = Suc (unat (tail g + c)) mod 2 ^ n"
  proof -
    have "tail ?g + c = tail g + c + 1" by simp
    then show ?thesis using unat_succ_mod [OF assms(3), of "tail g + c"] by metis
  qed
  then have "(unat (tail ?g + c) + i) mod 2 ^ n = j"
    using Suc.prems(3) by (metis add_Suc_right add_Suc mod_add_left_eq)
  then have ret: "\<exists>r. push_loop body f ?g new ?m t = Some r"
    using Suc.prems(1,2,4) f(2) by (intro Suc.IH) (simp_all add: list_ok_def)
  show ?case
    by (rule fill_slot_cases [of ?g "slot_at c g" new ?m]) (simp_all add: f(1) b ret)
qed

section \<open>Both lists keep the contract\<close>

text \<open>The objects on a list, and the two calls as the contract sees them. The stamp of a pushed item is
  the current epoch; the two values that the code uses as marks are not legal stamps.\<close>

definition held :: "garbage_list \<Rightarrow> u64 multiset" where
  "held g = mset (map removed_item (filter (\<lambda>it. removal_epoch it \<noteq> 0) (items g)))"

definition push_object :: "(garbage_list \<Rightarrow> item \<Rightarrow> epoch_manager \<Rightarrow> min_epoch_table \<Rightarrow> push_outcome) \<Rightarrow> nat \<Rightarrow>
    u64 \<Rightarrow> u64 \<Rightarrow> u64 \<Rightarrow> garbage_list \<times> epoch_manager \<times> min_epoch_table \<Rightarrow>
    (u64 list \<times> garbage_list \<times> epoch_manager \<times> min_epoch_table) option" where
  "push_object body fuel cb ctx x s = (case s of (g, m, t) \<Rightarrow>
     if GetCurrentEpoch m = 0 \<or> GetCurrentEpoch m = invalid_epoch then None
     else case push_loop body fuel g (make_item m x cb ctx) m t of
            Some (Inr (ds, g', m')) \<Rightarrow> Some (map (\<lambda>(_, _, obj). obj) ds, g', m', t)
          | _ \<Rightarrow> None)"

definition scavenge_objects :: "garbage_list \<times> epoch_manager \<times> min_epoch_table \<Rightarrow>
    u64 list \<times> garbage_list \<times> epoch_manager \<times> min_epoch_table" where
  "scavenge_objects s = (case s of (g, m, t) \<Rightarrow>
     case ScavengeUnsafe g (BumpCurrentEpoch m t) of (_, ds, g') \<Rightarrow>
       (map (\<lambda>(_, _, obj). obj) ds, g', BumpCurrentEpoch m t, t))"

lemma scavenge_item_spec:
  "scavenge_item m it = (if reclaimable m it then ([destroy it], new_item) else ([], it))"
  by (simp add: scavenge_item_def scavenge_claimed_def claim_slot_def reclaimable_def new_item_def Let_def)

lemma scavenge_item_unsafe_eq: "scavenge_item_unsafe = scavenge_item"
  by (intro ext) (simp add: scavenge_item_unsafe_def scavenge_item_def claim_slot_def Let_def)

lemma scavenge_loop_spec:
  "scavenge_loop (scavenge_item m) its =
     (map destroy (filter (reclaimable m) its), map (\<lambda>it. if reclaimable m it then new_item else it) its)"
  by (induction its) (auto simp: scavenge_item_spec)

lemma held_update:
  assumes "i < length its"
  shows "mset (map removed_item (filter P (its[i := new]))) +
      (if P (its ! i) then {#removed_item (its ! i)#} else {#}) =
    mset (map removed_item (filter P its)) + (if P new then {#removed_item new#} else {#})"
proof -
  have "its = take i its @ its ! i # drop (Suc i) its" using assms by (rule id_take_nth_drop)
  then obtain xs y ys where its: "its = xs @ y # ys" "length xs = i" "its ! i = y"
    using assms by (metis length_take min.absorb4)
  then show ?thesis by (auto simp: list_update_append)
qed

lemma held_scavenged:
  "mset (map removed_item (filter P (map (\<lambda>it. if R it then z else it) its))) +
     mset (map removed_item (filter R its)) = mset (map removed_item (filter P its))"
  if "\<And>it. R it \<Longrightarrow> P it" and "\<not> P z"
  using that by (induction its) auto

lemma obj_destroy [simp]: "map ((\<lambda>(_, _, obj). obj) \<circ> destroy) its = map removed_item its"
  by (simp add: destroy_def)

lemma reclaim_listI:
  assumes "body_at c body"
  shows "reclaim_list (\<lambda>s. list_ok (fst s)) (\<lambda>s. held (fst s)) (push_object body fuel cb ctx) scavenge_objects"
proof
  fix s x ds s'
  assume ok: "list_ok (fst s)" and push: "push_object body fuel cb ctx x s = Some (ds, s')"
  obtain g m t where s: "s = (g, m, t)" by (cases s)
  let ?new = "make_item m x cb ctx"
  have ne: "removal_epoch ?new \<noteq> 0" "removal_epoch ?new \<noteq> invalid_epoch" "removed_item ?new = x"
    using push by (auto simp: push_object_def s make_item_def split: if_splits)
  obtain es g' m' where run: "push_loop body fuel g ?new m t = Some (Inr (es, g', m'))"
    and r: "ds = map (\<lambda>(_, _, obj). obj) es" "s' = (g', m', t)"
    using push by (auto simp: push_object_def s split: if_splits option.splits sum.splits)
  have okg: "list_ok g" using ok s by simp
  obtain i where i: "i < length (items g)" "items g' = (items g)[i := ?new]"
    "has_manager g' = has_manager g" "item_count g' = item_count g"
    "removal_epoch (items g ! i) = 0 \<and> es = [] \<or> removal_epoch (items g ! i) \<noteq> 0 \<and> es = [destroy (items g ! i)]"
    using push_loop_effect [OF assms okg run] by auto
  have "list_ok g'"
    using okg i ne(2) set_update_subset_insert [of "items g" i ?new] by (auto simp: list_ok_def)
  moreover have "held g' + mset ds = held g + {#x#}"
    using held_update [OF i(1), of "\<lambda>it. removal_epoch it \<noteq> 0" ?new] i(2,5) ne
    by (auto simp: held_def r(1) destroy_def)
  ultimately show "list_ok (fst s') \<and> held (fst s') + mset ds = held (fst s) + {#x#}"
    by (simp add: r(2) s)
next
  fix s ds s'
  assume ok: "list_ok (fst s)" and scav: "scavenge_objects s = (ds, s')"
  obtain g m t where s: "s = (g, m, t)" by (cases s)
  let ?m = "BumpCurrentEpoch m t"
  have "list_ok (g\<lparr>items := map (\<lambda>it. if reclaimable ?m it then new_item else it) (items g)\<rparr>)"
    using ok by (auto simp: list_ok_def s new_item_def invalid_epoch_def)
  moreover have "held (g\<lparr>items := map (\<lambda>it. if reclaimable ?m it then new_item else it) (items g)\<rparr>) +
      mset (map removed_item (filter (reclaimable ?m) (items g))) = held g"
    unfolding held_def using held_scavenged [of "reclaimable ?m" "\<lambda>it. removal_epoch it \<noteq> 0" new_item "items g"]
    by (simp add: reclaimable_def new_item_def)
  ultimately show "list_ok (fst s') \<and> held (fst s') + mset ds = held (fst s)"
    using scav by (auto simp: scavenge_objects_def s ScavengeUnsafe_def scavenge_item_unsafe_eq scavenge_loop_spec)
qed

interpretation gu: reclaim_list "\<lambda>s. list_ok (fst s)" "\<lambda>s. held (fst s)"
    "push_object push_try_unsafe fuel cb ctx" scavenge_objects for fuel cb ctx
  by (rule reclaim_listI [OF bodies_at(1)])

interpretation gl: reclaim_list "\<lambda>s. list_ok (fst s)" "\<lambda>s. held (fst s)"
    "push_object push_try fuel cb ctx" scavenge_objects for fuel cb ctx
  by (rule reclaim_listI [OF bodies_at(2)])

section \<open>A blocked list\<close>

text \<open>A thread protected since epoch \<open>p\<close> keeps the safe epoch below \<open>p\<close>.\<close>

definition pinned :: "u64 \<Rightarrow> epoch_manager \<Rightarrow> min_epoch_table \<Rightarrow> bool" where
  "pinned p m t \<longleftrightarrow> p \<noteq> 0 \<and> (\<exists>e \<in> set (entries_of t). protected_epoch e = p) \<and>
     current_epoch m \<noteq> 0 \<and> safe_to_reclaim_epoch m < p"

lemma pinned_bump:
  assumes "pinned p m t" and "unat (current_epoch m) + 1 < 2 ^ 64"
  shows "pinned p (BumpCurrentEpoch m t) t \<and>
    unat (current_epoch (BumpCurrentEpoch m t)) = unat (current_epoch m) + 1"
proof -
  let ?o = "foldl scan_entry (current_epoch m) (entries_of t)"
  have "?o \<le> p" "?o \<noteq> 0"
    using assms(1) foldl_scan [of "current_epoch m" "entries_of t"] by (auto simp: pinned_def)
  then have "?o - 1 < p" using le_pred_iff [of ?o "?o - 1"] by auto
  moreover have "unat (current_epoch m + 1) = unat (current_epoch m) + 1"
    using assms(2) by (simp add: unat_word_ariths)
  moreover from this have "current_epoch m + 1 \<noteq> 0" by (metis add_is_0 unat_0 one_neq_zero)
  ultimately show ?thesis
    using assms(1)
    by (simp add: pinned_def BumpCurrentEpoch_def ComputeNewSafeToReclaimEpoch_def
        Table_ComputeNewSafeToReclaimEpoch_def Let_def)
qed

lemma pinned_bump_if_quarter:
  assumes "pinned p m t" and "unat (current_epoch m) + 1 < 2 ^ 64"
  shows "pinned p (bump_if_quarter s n m t) t \<and>
    unat (current_epoch (bump_if_quarter s n m t)) \<le> unat (current_epoch m) + 1"
  using pinned_bump [OF assms] assms(1) by (simp add: bump_if_quarter_def)

lemma push_loop_blocked:
  assumes body: "body_at c body" and "list_ok g" and "pinned p m t"
    and "\<forall>it \<in> set (items g). removal_epoch it \<noteq> 0 \<and> p \<le> removal_epoch it"
    and "unat (current_epoch m) + fuel < 2 ^ 64"
  shows "push_loop body fuel g new m t = None"
  using assms(2-)
proof (induction fuel arbitrary: g m)
  case (Suc n)
  let ?g = "g\<lparr>tail := tail g + 1\<rparr>" and ?m = "bump_if_quarter (of_nat (slot_at c g)) (item_count g) m t"
  let ?it = "items g ! slot_at c g"
  have b: "body g new m t = fill_slot ?g (slot_at c g) new ?m"
    using body Suc.prems(1) by (simp add: body_at_def)
  have m: "pinned p ?m t" "unat (current_epoch ?m) \<le> unat (current_epoch m) + 1"
    using pinned_bump_if_quarter [OF Suc.prems(2)] Suc.prems(4) by auto
  have "?it \<in> set (items g)" using slot_at_less [OF Suc.prems(1)] by simp
  then have "removal_epoch ?it \<noteq> 0" "p \<le> removal_epoch ?it" using Suc.prems(3) by auto
  moreover have "safe_to_reclaim_epoch ?m < p" using m(1) by (simp add: pinned_def)
  ultimately have "fill_slot ?g (slot_at c g) new ?m = Retry ?g ?m"
    by (auto simp: fill_slot_def Let_def IsSafeToReclaim_def)
  moreover have "push_loop body n ?g new ?m t = None"
    using Suc.prems(1,3,4) m by (intro Suc.IH) (auto simp: list_ok_def)
  ultimately show ?case by (simp add: b)
qed simp

section \<open>Properties\<close>


definition sample_list :: garbage_list where
  "sample_list = snd (GarbageListUnsafe_Initialize new_GarbageList True True 4)"

lemma sample_list_ok: "list_ok sample_list"
proof -
  have "IS_POWER_OF_TWO (item_count sample_list)" "length (items sample_list) = unat (item_count sample_list)"
    "has_manager sample_list" "list_all (\<lambda>it. removal_epoch it \<noteq> invalid_epoch) (items sample_list)"
    by code_simp+
  then show ?thesis by (auto simp: list_ok_def list_all_iff)
qed


text \<open>
  C35: A push returns. When the ring has a free slot the loop ends within as many rounds as the ring has
  slots; it then has stored the new item in one slot, changed no other slot, raised no check, and
  destroyed at most the previous item of that slot, and that only if its removal epoch was safe.
\<close>

theorem push_returns:
  assumes "list_ok g" and "it \<in> set (items g)" and "removal_epoch it = 0" and "unat (item_count g) \<le> fuel"
    and "push \<in> {GarbageListUnsafe_Push, GarbageList_Push}"
  shows "\<exists>ds g' m' i. push fuel g obj cb ctx m t = Some (Inr (ds, g', m')) \<and> i < length (items g) \<and>
    items g' = (items g)[i := make_item m obj cb ctx] \<and>
    (removal_epoch (items g ! i) = 0 \<and> ds = [] \<or>
     IsSafeToReclaim m' (removal_epoch (items g ! i)) \<and> ds = [destroy (items g ! i)])"
proof -
  obtain n where n: "n < 64" "item_count g = 2 ^ n" "length (items g) = 2 ^ n"
    by (rule list_ok_exp [OF assms(1)])
  obtain j where j: "j < 2 ^ n" "items g ! j = it" using assms(2) n(3) by (auto simp: in_set_conv_nth)
  have le: "2 ^ n \<le> fuel" using assms(1,4) n(3) by (simp add: list_ok_def)
  have ret: "\<exists>r. push_loop body fuel g new m t = Some r" if "body_at c body" for c body new
  proof -
    obtain i where i: "i < 2 ^ n" "(unat (tail g + c) + i) mod 2 ^ n = j" by (rule probe_all [OF j(1)])
    show ?thesis
      by (rule push_loop_returns [OF that assms(1) n(1,2) i(2)]) (use i(1) le j(2) assms(3) in simp_all)
  qed
  obtain c body where c: "body_at c body"
    "push fuel g obj cb ctx m t = push_loop body fuel g (make_item m obj cb ctx) m t"
    using assms(5) bodies_at by (auto simp: GarbageListUnsafe_Push_def GarbageList_Push_def)
  obtain r where r: "push_loop body fuel g (make_item m obj cb ctx) m t = Some r" using ret [OF c(1)] by blast
  show ?thesis using push_loop_effect [OF c(1) assms(1) r] r c(2) by auto
qed

theorem push_returns_witness:
  "\<exists>ds g' m'. GarbageListUnsafe_Push 4 sample_list 16 0 0 sample_manager sample_table = Some (Inr (ds, g', m'))"
proof -
  have "new_item \<in> set (items sample_list)" "removal_epoch new_item = 0" "unat (item_count sample_list) \<le> 4"
    by code_simp+
  then show ?thesis using push_returns [OF sample_list_ok, of new_item 4 GarbageListUnsafe_Push] by blast
qed

text \<open>
  Scavenging destroys exactly the items on the list whose removal epoch is safe, in the order of the
  slots, frees their slots and leaves all others as they are. The count it returns is always 0.
\<close>

theorem scavenge_exact:
  "Scavenge g m = (0, map destroy (filter (reclaimable m) (items g)),
     g\<lparr>items := map (\<lambda>it. if reclaimable m it then new_item else it) (items g)\<rparr>)"
  by (simp add: Scavenge_def scavenge_loop_spec)

lemma push_loop_shift:
  assumes "list_ok g"
  shows "push_loop push_try fuel (g\<lparr>tail := tail g + 1\<rparr>) new m t =
    map_option (map_sum id (\<lambda>(ds, g', m'). (ds, g'\<lparr>tail := tail g' + 1\<rparr>, m')))
      (push_loop push_try_unsafe fuel g new m t)"
  using assms
proof (induction fuel arbitrary: g m)
  case (Suc n)
  let ?g = "g\<lparr>tail := tail g + 1\<rparr>" and ?i = "slot_at 0 g"
  let ?m = "bump_if_quarter (of_nat ?i) (item_count g) m t"
  have ok: "list_ok ?g" using Suc.prems by (simp add: list_ok_def)
  have i: "slot_at (-1) ?g = ?i" by (simp add: slot_at_def)
  have b: "push_try_unsafe g new m t = fill_slot ?g ?i new ?m"
    "push_try ?g new m t = fill_slot (?g\<lparr>tail := tail ?g + 1\<rparr>) ?i new ?m"
    using bodies_at Suc.prems ok i by (simp_all add: body_at_def)
  show ?case
    by (rule fill_slot_cases [of ?g ?i new ?m])
      (use Suc.IH [OF ok, of ?m] in \<open>simp_all add: b fill_slot_def Let_def\<close>)
qed simp

text \<open>
  Without interference the list with synchronization and the one without do the same thing:
  they initialize, empty and scavenge alike, and a push gives the same result when the tail of the first
  is one ahead of the tail of the second.
\<close>

theorem lists_agree:
  "GarbageListUnsafe_Initialize g mgr avail n = GarbageList_Initialize g mgr avail n \<and>
   GarbageListUnsafe_Uninitialize g = GarbageList_Uninitialize g \<and> ScavengeUnsafe g m = Scavenge g m \<and>
   (list_ok g \<longrightarrow> GarbageList_Push fuel (g\<lparr>tail := tail g + 1\<rparr>) obj cb ctx m t =
      map_option (map_sum id (\<lambda>(ds, g', m'). (ds, g'\<lparr>tail := tail g' + 1\<rparr>, m')))
        (GarbageListUnsafe_Push fuel g obj cb ctx m t))"
proof -
  have "concat (map (\<lambda>it. if removed_item it \<noteq> 0 then [destroy it] else []) its) =
      map destroy (filter (\<lambda>it. removed_item it \<noteq> 0) its)" for its
    by (induction its) simp_all
  moreover have "map (\<lambda>_. new_item\<lparr>removal_epoch := 0\<rparr>) [0..<k] = replicate k new_item" for k
    by (simp add: map_replicate_const new_item_def)
  ultimately show ?thesis
    using push_loop_shift [of g fuel "make_item m obj cb ctx" m t]
    by (simp add: GarbageListUnsafe_Initialize_def GarbageList_Initialize_def GarbageListUnsafe_Uninitialize_def
        GarbageList_Uninitialize_def ScavengeUnsafe_def Scavenge_def scavenge_item_unsafe_eq
        GarbageList_Push_def GarbageListUnsafe_Push_def)
qed

theorem lists_agree_witness:
  "GarbageList_Push 4 (sample_list\<lparr>tail := tail sample_list + 1\<rparr>) 16 0 0 sample_manager sample_table =
     map_option (map_sum id (\<lambda>(ds, g', m'). (ds, g'\<lparr>tail := tail g' + 1\<rparr>, m')))
       (GarbageListUnsafe_Push 4 sample_list 16 0 0 sample_manager sample_table)"
  using lists_agree sample_list_ok by blast

text \<open>
  C36: A full ring blocks. While a thread stays protected since an epoch at or before the removal of
  every item of a full ring, a push does not return, however many rounds it makes before the epoch
  counter wraps; in particular a thread that fills the ring inside its own protected region spins for
  ever on its next push.
\<close>

theorem push_blocked_while_protected:
  assumes "list_ok g" and "pinned p m t" and "\<forall>it \<in> set (items g). removal_epoch it \<noteq> 0 \<and> p \<le> removal_epoch it"
    and "unat (current_epoch m) + fuel < 2 ^ 64" and "push \<in> {GarbageListUnsafe_Push, GarbageList_Push}"
  shows "push fuel g obj cb ctx m t = None"
  using assms(5) push_loop_blocked [OF bodies_at(1) assms(1-4)] push_loop_blocked [OF bodies_at(2) assms(1-4)]
  by (auto simp: GarbageListUnsafe_Push_def GarbageList_Push_def)

theorem push_blocked_while_protected_witness:
  "GarbageListUnsafe_Push (2 ^ 63)
     (sample_list\<lparr>items := replicate 4 (make_item sample_manager 16 0 0)\<rparr>) 32 0 0 sample_manager
     (sample_table\<lparr>table := Some [\<lparr>protected_epoch = 3, last_unprotected_epoch = 0, thread_id = 9\<rparr>]\<rparr>) = None"
proof -
  let ?g = "sample_list\<lparr>items := replicate 4 (make_item sample_manager 16 0 0)\<rparr>"
  let ?t = "sample_table\<lparr>table := Some [\<lparr>protected_epoch = 3, last_unprotected_epoch = 0, thread_id = 9\<rparr>]\<rparr>"
  have "unat (item_count sample_list) = 4" "3 \<noteq> invalid_epoch" by code_simp+
  then have "list_ok ?g"
    using sample_list_ok by (simp add: list_ok_def make_item_def sample_manager_def GetCurrentEpoch_def)
  moreover have "pinned 3 sample_manager ?t" by (simp add: pinned_def entries_of_def sample_manager_def)
  ultimately show ?thesis
    by (rule push_blocked_while_protected) (simp_all add: make_item_def sample_manager_def GetCurrentEpoch_def)
qed

end
