(* ===== verification/Flags.thy ===== *)
theory Flags
  imports Pmwcas_Prelude
begin

text \<open>
  The flag bits of target words (\<open>BaseDescriptor\<close> in \<open>src/src/mwcas/mwcas.h\<close>): bit 63 marks a
  pointer to an MwCAS descriptor, bit 62 a pointer to a word descriptor (conditional CAS), bit 61
  a word that may not have reached NVRAM yet. The definitions follow the source; the lemmas turn
  every test and every mask into statements about single bits, and then into the small algebra of
  tagged values that the protocol theories use.
\<close>

section \<open>Flags and masks\<close>

definition kDirtyFlag :: u64 where
  "kDirtyFlag = push_bit 61 1"

definition kMwCASFlag :: u64 where
  "kMwCASFlag = push_bit 63 1"

definition kCondCASFlag :: u64 where
  "kCondCASFlag = push_bit 62 1"

definition IsMwCASDescriptorPtr :: "u64 \<Rightarrow> bool" where
  "IsMwCASDescriptorPtr value \<longleftrightarrow> value AND kMwCASFlag \<noteq> 0"

definition IsCondCASDescriptorPtr :: "u64 \<Rightarrow> bool" where
  "IsCondCASDescriptorPtr value \<longleftrightarrow> value AND kCondCASFlag \<noteq> 0"

definition IsDirtyPtr :: "u64 \<Rightarrow> bool" where
  "IsDirtyPtr value \<longleftrightarrow> value AND kDirtyFlag \<noteq> 0"

definition CleanPtr :: "u64 \<Rightarrow> u64" where
  "CleanPtr ptr = ptr AND NOT (kMwCASFlag OR kCondCASFlag OR kDirtyFlag)"

definition SetFlags :: "u64 \<Rightarrow> u64 \<Rightarrow> u64 checked" where
  "SetFlags value flags =
     (if flags AND NOT (kMwCASFlag OR kCondCASFlag OR kDirtyFlag) = 0
      then Inr (value OR flags) else Inl ''invalid flags'')"

definition isDescriptorPtr :: "u64 \<Rightarrow> bool" where
  "isDescriptorPtr value \<longleftrightarrow> IsMwCASDescriptorPtr value \<or> IsCondCASDescriptorPtr value"

definition IsCleanPtr :: "u64 \<Rightarrow> bool" where
  "IsCleanPtr value \<longleftrightarrow> value AND (kCondCASFlag OR kMwCASFlag OR kDirtyFlag) = 0"

text \<open>\<open>val & ~kDirtyFlag\<close>, which the code writes out at every use.\<close>

definition ClearDirty :: "u64 \<Rightarrow> u64" where
  "ClearDirty value = value AND NOT kDirtyFlag"

section \<open>Bits\<close>

lemma bit_flags [flag_simps]:
  "bit kDirtyFlag n \<longleftrightarrow> n = 61"
  "bit kMwCASFlag n \<longleftrightarrow> n = 63"
  "bit kCondCASFlag n \<longleftrightarrow> n = 62"
  unfolding kDirtyFlag_def kMwCASFlag_def kCondCASFlag_def push_bit_of_1
  by (auto simp add: bit_exp_iff simp del: power_numeral)

lemma flags_exp:
  "kDirtyFlag = 2 ^ 61" "kMwCASFlag = 2 ^ 63" "kCondCASFlag = 2 ^ 62"
  by (simp_all add: kDirtyFlag_def kMwCASFlag_def kCondCASFlag_def)

lemma flag_tests [flag_defs]:
  "IsMwCASDescriptorPtr v \<longleftrightarrow> bit v 63"
  "IsCondCASDescriptorPtr v \<longleftrightarrow> bit v 62"
  "IsDirtyPtr v \<longleftrightarrow> bit v 61"
  unfolding IsMwCASDescriptorPtr_def IsCondCASDescriptorPtr_def IsDirtyPtr_def flags_exp
  by (rule and_exp_neq_0_iff)+

lemma bit_CleanPtr [flag_simps]:
  "bit (CleanPtr v) n \<longleftrightarrow> bit v n \<and> n \<noteq> 61 \<and> n \<noteq> 62 \<and> n \<noteq> 63"
  using bit_imp_le_length [of v n]
  by (auto simp: CleanPtr_def bit_simps flag_simps)

lemma bit_ClearDirty [flag_simps]:
  "bit (ClearDirty v) n \<longleftrightarrow> bit v n \<and> n \<noteq> 61"
  using bit_imp_le_length [of v n]
  by (auto simp: ClearDirty_def bit_simps flag_simps)

lemma IsCleanPtr_bits [flag_defs]:
  "IsCleanPtr v \<longleftrightarrow> \<not> bit v 61 \<and> \<not> bit v 62 \<and> \<not> bit v 63"
proof
  assume "IsCleanPtr v"
  then have "\<And>n. \<not> bit (v AND (kCondCASFlag OR kMwCASFlag OR kDirtyFlag)) n"
    by (simp add: IsCleanPtr_def)
  from this [of 61] this [of 62] this [of 63]
  show "\<not> bit v 61 \<and> \<not> bit v 62 \<and> \<not> bit v 63"
    by (simp add: bit_simps flag_simps)
next
  assume "\<not> bit v 61 \<and> \<not> bit v 62 \<and> \<not> bit v 63"
  then have "v AND (kCondCASFlag OR kMwCASFlag OR kDirtyFlag) = 0"
    by (intro bit_word_eqI) (auto simp: bit_simps flag_simps)
  then show "IsCleanPtr v" by (simp add: IsCleanPtr_def)
qed

section \<open>The algebra of tagged values\<close>

lemma IsCleanPtr_iff: "IsCleanPtr v \<longleftrightarrow> CleanPtr v = v"
  by (auto simp: word_eq_bits flag_simps flag_defs)

lemma IsCleanPtr_CleanPtr [simp]: "IsCleanPtr (CleanPtr v)"
  by (simp add: flag_simps flag_defs)

lemma CleanPtr_clean [simp]: "IsCleanPtr v \<Longrightarrow> CleanPtr v = v"
  by (simp add: IsCleanPtr_iff)

lemma clean_no_flags [simp]:
  assumes "IsCleanPtr v"
  shows "\<not> IsMwCASDescriptorPtr v" "\<not> IsCondCASDescriptorPtr v" "\<not> IsDirtyPtr v"
  using assms by (simp_all add: flag_defs)

lemma tests_OR_flags [simp]:
  "IsMwCASDescriptorPtr (v OR kMwCASFlag)"
  "IsMwCASDescriptorPtr (v OR kCondCASFlag) \<longleftrightarrow> IsMwCASDescriptorPtr v"
  "IsMwCASDescriptorPtr (v OR kDirtyFlag) \<longleftrightarrow> IsMwCASDescriptorPtr v"
  "IsCondCASDescriptorPtr (v OR kCondCASFlag)"
  "IsCondCASDescriptorPtr (v OR kMwCASFlag) \<longleftrightarrow> IsCondCASDescriptorPtr v"
  "IsCondCASDescriptorPtr (v OR kDirtyFlag) \<longleftrightarrow> IsCondCASDescriptorPtr v"
  "IsDirtyPtr (v OR kDirtyFlag)"
  "IsDirtyPtr (v OR kMwCASFlag) \<longleftrightarrow> IsDirtyPtr v"
  "IsDirtyPtr (v OR kCondCASFlag) \<longleftrightarrow> IsDirtyPtr v"
  by (simp_all add: flag_defs flag_simps bit_or_iff)

lemma CleanPtr_OR_flags [simp]:
  "CleanPtr (v OR kMwCASFlag) = CleanPtr v"
  "CleanPtr (v OR kCondCASFlag) = CleanPtr v"
  "CleanPtr (v OR kDirtyFlag) = CleanPtr v"
  by (auto simp: word_eq_bits flag_simps bit_or_iff)

lemma ClearDirty_simps [simp]:
  "ClearDirty (v OR kDirtyFlag) = ClearDirty v"
  "ClearDirty (v OR kMwCASFlag) = ClearDirty v OR kMwCASFlag"
  "ClearDirty (v OR kCondCASFlag) = ClearDirty v OR kCondCASFlag"
  "CleanPtr (ClearDirty v) = CleanPtr v"
  "\<not> IsDirtyPtr (ClearDirty v)"
  "IsMwCASDescriptorPtr (ClearDirty v) \<longleftrightarrow> IsMwCASDescriptorPtr v"
  "IsCondCASDescriptorPtr (ClearDirty v) \<longleftrightarrow> IsCondCASDescriptorPtr v"
  by (auto simp: word_eq_bits flag_simps flag_defs bit_or_iff)

lemma ClearDirty_id [simp]: "\<not> IsDirtyPtr v \<Longrightarrow> ClearDirty v = v"
  by (auto simp: word_eq_bits flag_simps flag_defs)

lemma ClearDirty_OR_Dirty: "IsDirtyPtr v \<Longrightarrow> ClearDirty v OR kDirtyFlag = v"
  by (auto simp: word_eq_bits flag_simps flag_defs bit_or_iff)

lemma OR_Dirty_dirty: "IsDirtyPtr v \<Longrightarrow> v OR kDirtyFlag = v"
  by (auto simp: word_eq_bits flag_simps flag_defs bit_or_iff)

lemma CleanPtr_OR: "CleanPtr (v OR w) = CleanPtr v OR CleanPtr w"
  by (auto simp: word_eq_bits flag_simps bit_or_iff)

lemma CleanPtr_flags [simp]:
  "CleanPtr kMwCASFlag = 0" "CleanPtr kCondCASFlag = 0" "CleanPtr kDirtyFlag = 0"
  by (auto simp: word_eq_bits flag_simps)

lemma OR_flags_inj:
  assumes "IsCleanPtr p" and "IsCleanPtr q" and "CleanPtr f = 0" and "p OR f = q OR f"
  shows "p = q"
proof -
  from assms(4) have "CleanPtr (p OR f) = CleanPtr (q OR f)" by simp
  then show ?thesis using assms(1-3) by (simp add: CleanPtr_OR)
qed

lemma tagged_eq_iff [simp]:
  assumes "IsCleanPtr p" and "IsCleanPtr q"
  shows "p OR kMwCASFlag = q OR kMwCASFlag \<longleftrightarrow> p = q"
    and "p OR kCondCASFlag = q OR kCondCASFlag \<longleftrightarrow> p = q"
    and "p OR kDirtyFlag = q OR kDirtyFlag \<longleftrightarrow> p = q"
    and "p OR kMwCASFlag OR kDirtyFlag = q OR kMwCASFlag OR kDirtyFlag \<longleftrightarrow> p = q"
  using OR_flags_inj [OF assms, of kMwCASFlag] OR_flags_inj [OF assms, of kCondCASFlag]
    OR_flags_inj [OF assms, of kDirtyFlag] OR_flags_inj [OF assms, of "kMwCASFlag OR kDirtyFlag"]
  by (simp_all add: or.assoc CleanPtr_OR) blast+

text \<open>A word without the two descriptor bits is a plain value, possibly dirty.\<close>

lemma plain_cases:
  assumes "\<not> IsMwCASDescriptorPtr v" and "\<not> IsCondCASDescriptorPtr v"
  obtains "v = CleanPtr v" | "v = CleanPtr v OR kDirtyFlag"
proof (cases "IsDirtyPtr v")
  case True
  then have "v = CleanPtr v OR kDirtyFlag"
    using assms by (auto simp: word_eq_bits flag_simps flag_defs bit_or_iff)
  then show thesis by (rule that(2))
next
  case False
  then have "v = CleanPtr v"
    using assms by (auto simp: word_eq_bits flag_simps flag_defs)
  then show thesis by (rule that(1))
qed

lemma mw_cases:
  assumes "IsMwCASDescriptorPtr v" and "\<not> IsCondCASDescriptorPtr v"
  obtains "v = CleanPtr v OR kMwCASFlag" | "v = CleanPtr v OR kMwCASFlag OR kDirtyFlag"
proof (cases "IsDirtyPtr v")
  case True
  then have "v = CleanPtr v OR kMwCASFlag OR kDirtyFlag"
    using assms by (auto simp: word_eq_bits flag_simps flag_defs bit_or_iff)
  then show thesis by (rule that(2))
next
  case False
  then have "v = CleanPtr v OR kMwCASFlag"
    using assms by (auto simp: word_eq_bits flag_simps flag_defs bit_or_iff)
  then show thesis by (rule that(1))
qed

lemma SetFlags_flags [simp]:
  "SetFlags v kMwCASFlag = Inr (v OR kMwCASFlag)"
  "SetFlags v kCondCASFlag = Inr (v OR kCondCASFlag)"
  "SetFlags v (kMwCASFlag OR kDirtyFlag) = Inr (v OR kMwCASFlag OR kDirtyFlag)"
proof -
  have "f AND NOT (kMwCASFlag OR kCondCASFlag OR kDirtyFlag) = CleanPtr f" for f
    by (simp add: CleanPtr_def)
  moreover have "CleanPtr (kMwCASFlag OR kDirtyFlag) = 0"
    by (simp add: CleanPtr_OR)
  ultimately show
    "SetFlags v kMwCASFlag = Inr (v OR kMwCASFlag)"
    "SetFlags v kCondCASFlag = Inr (v OR kCondCASFlag)"
    "SetFlags v (kMwCASFlag OR kDirtyFlag) = Inr (v OR kMwCASFlag OR kDirtyFlag)"
    by (simp_all add: SetFlags_def or.assoc)
qed


lemma SetFlags_Inr:
  assumes "SetFlags p f = Inr v"
  shows "v = p OR f" and "CleanPtr f = 0"
  using assms by (auto simp: SetFlags_def CleanPtr_def split: if_splits)

section \<open>Kernel evaluation\<close>

text \<open>Arithmetic forms of the tests and masks, which the simplifier evaluates much faster on literals
  than the bitwise operations.\<close>

lemma flags_eval [code]:
  "kDirtyFlag = 2305843009213693952"
  "kMwCASFlag = 9223372036854775808"
  "kCondCASFlag = 4611686018427387904"
  by (simp_all add: flags_exp)

lemma tests_eval [code]:
  "IsMwCASDescriptorPtr v \<longleftrightarrow> v div 9223372036854775808 mod 2 = 1"
  "IsCondCASDescriptorPtr v \<longleftrightarrow> v div 4611686018427387904 mod 2 = 1"
  "IsDirtyPtr v \<longleftrightarrow> v div 2305843009213693952 mod 2 = 1"
  using bit_iff_odd [of v 63] bit_iff_odd [of v 62] bit_iff_odd [of v 61]
  by (simp_all add: flag_defs odd_iff_mod_2_eq_one)

lemma CleanPtr_eval [code]: "CleanPtr v = v mod 2305843009213693952"
proof -
  have "CleanPtr v = take_bit 61 v"
    using bit_imp_le_length [of v]
    by (fastforce simp: word_eq_bits flag_simps bit_take_bit_iff)
  then show ?thesis by (simp add: take_bit_eq_mod)
qed

lemma OR_disjoint: "x AND y = 0 \<Longrightarrow> x OR y = x + y" for x y :: u64
  by (simp add: disjunctive_add_eq_or)

lemma OR_absorb: "(\<And>n. bit f n \<Longrightarrow> bit v n) \<Longrightarrow> v OR f = v" for v f :: u64
  by (auto simp: word_eq_bits bit_or_iff)

lemma OR_flags_eval:
  "v OR kDirtyFlag = (if IsDirtyPtr v then v else v + kDirtyFlag)"
  "v OR kMwCASFlag = (if IsMwCASDescriptorPtr v then v else v + kMwCASFlag)"
  "v OR kCondCASFlag = (if IsCondCASDescriptorPtr v then v else v + kCondCASFlag)"
proof -
  have absorb: "IsDirtyPtr v \<Longrightarrow> v OR kDirtyFlag = v" "IsMwCASDescriptorPtr v \<Longrightarrow> v OR kMwCASFlag = v"
    "IsCondCASDescriptorPtr v \<Longrightarrow> v OR kCondCASFlag = v"
    using OR_absorb [of kDirtyFlag v] OR_absorb [of kMwCASFlag v] OR_absorb [of kCondCASFlag v]
    by (simp_all add: flag_defs flag_simps)
  have disj: "\<not> IsDirtyPtr v \<Longrightarrow> v OR kDirtyFlag = v + kDirtyFlag"
    "\<not> IsMwCASDescriptorPtr v \<Longrightarrow> v OR kMwCASFlag = v + kMwCASFlag"
    "\<not> IsCondCASDescriptorPtr v \<Longrightarrow> v OR kCondCASFlag = v + kCondCASFlag"
    by (auto simp: IsDirtyPtr_def IsMwCASDescriptorPtr_def IsCondCASDescriptorPtr_def intro: OR_disjoint)
  show "v OR kDirtyFlag = (if IsDirtyPtr v then v else v + kDirtyFlag)"
    "v OR kMwCASFlag = (if IsMwCASDescriptorPtr v then v else v + kMwCASFlag)"
    "v OR kCondCASFlag = (if IsCondCASDescriptorPtr v then v else v + kCondCASFlag)"
    by (simp_all add: absorb disj)
qed

lemma ClearDirty_eval [code]: "ClearDirty v = (if IsDirtyPtr v then v - kDirtyFlag else v)"
proof (cases "IsDirtyPtr v")
  case True
  have "ClearDirty v AND kDirtyFlag = 0" by (auto simp: word_eq_bits bit_and_iff flag_simps)
  then have "v = ClearDirty v + kDirtyFlag"
    using ClearDirty_OR_Dirty [OF True] by (simp add: OR_disjoint)
  then show ?thesis using True by (metis add_diff_cancel_right')
qed simp

lemmas IsCleanPtr_eval [code] = IsCleanPtr_iff

end
