(* ===== verification/Descriptor.thy ===== *)
theory Descriptor
  imports Flags
begin

text \<open>
  The MwCAS descriptor (\<open>Descriptor\<close> in \<open>src/src/mwcas/mwcas.h\<close>, \<open>src/src/mwcas/mwcas.cc\<close>) as a
  private data structure of the thread that fills it in: construction, \<open>AddEntry\<close> and its
  variants with the in-place insertion of \<open>GetInsertPosition\<close>, \<open>Abort\<close>, and the release of the
  memory the words refer to. The lemmas show that the word array is kept sorted on addresses and
  free of duplicates, which the protocol relies on, and which memory each policy releases.
\<close>

section \<open>Data\<close>

record word_desc =
  address :: u64
  old_value :: u64
  new_value :: u64
  ownDesc :: u64
  recycle_policy :: u32

text \<open>A callback is a function pointer; the code only stores it and calls it.\<close>

datatype callback = DefaultCallback | UserCallback u64

record descriptor =
  status :: u32
  count :: nat
  words :: "word_desc list"
  next_ptr :: u64
  owner_partition :: nat
  allocate_callback :: callback
  free_callback :: callback

definition kRecycleOnRecovery :: u32 where "kRecycleOnRecovery = 1"
definition kRecycleNever :: u32 where "kRecycleNever = 2"
definition kRecycleAlways :: u32 where "kRecycleAlways = 3"
definition kRecycleOldOnSuccess :: u32 where "kRecycleOldOnSuccess = 4"
definition kRecycleNewOnFailure :: u32 where "kRecycleNewOnFailure = 5"

definition kNewValueReserved :: u64 where "kNewValueReserved = NOT 0"

definition kStatusInvalid :: u32 where "kStatusInvalid = 0"
definition kStatusFinished :: u32 where "kStatusFinished = 1"
definition kStatusSucceeded :: u32 where "kStatusSucceeded = 2"
definition kStatusFailed :: u32 where "kStatusFailed = 3"
definition kStatusUndecided :: u32 where "kStatusUndecided = 4"
definition kStatusDirtyFlag :: u32 where "kStatusDirtyFlag = push_bit 31 1"

definition kMaxCount :: nat where "kMaxCount = 4"

lemmas recycle_defs = kRecycleOnRecovery_def kRecycleNever_def kRecycleAlways_def
  kRecycleOldOnSuccess_def kRecycleNewOnFailure_def

lemmas status_defs = kStatusInvalid_def kStatusFinished_def kStatusSucceeded_def
  kStatusFailed_def kStatusUndecided_def

text \<open>\<open>status_ & ~kStatusDirtyFlag\<close>.\<close>

definition clean_status :: "u32 \<Rightarrow> u32" where
  "clean_status s = s AND NOT kStatusDirtyFlag"

definition assert_valid_status :: "descriptor \<Rightarrow> bool" where
  "assert_valid_status d \<longleftrightarrow>
     (let s = clean_status (status d)
      in s = kStatusFinished \<or> s = kStatusFailed \<or> s = kStatusSucceeded \<or> s = kStatusUndecided)"

section \<open>Construction\<close>

definition zero_word :: word_desc where
  "zero_word = \<lparr>address = 0, old_value = 0, new_value = 0, ownDesc = 0, recycle_policy = 0\<rparr>"

text \<open>The descriptor a pool area holds before construction: \<open>memset\<close> to zero.\<close>

definition zero_descriptor :: descriptor where
  "zero_descriptor = \<lparr>status = kStatusInvalid, count = 0, words = replicate kMaxCount zero_word,
     next_ptr = 0, owner_partition = 0, allocate_callback = DefaultCallback,
     free_callback = DefaultCallback\<rparr>"

definition new_Descriptor :: "nat \<Rightarrow> descriptor \<Rightarrow> descriptor" where
  "new_Descriptor part d = d\<lparr>owner_partition := part, next_ptr := 0,
     status := kStatusFinished, count := 0, words := replicate kMaxCount zero_word\<rparr>"

definition Initialize :: "descriptor \<Rightarrow> descriptor" where
  "Initialize d = d\<lparr>status := kStatusFinished, count := 0, next_ptr := 0,
     words := replicate kMaxCount zero_word\<rparr>"

section \<open>Adding words\<close>

text \<open>
  The loop of \<open>GetInsertPosition\<close>: \<open>Suc i\<close> stands for the loop being at index \<open>i\<close>; every word
  with a larger address moves one slot up. A duplicate address ends it with \<open>-2\<close>.
\<close>

fun insert_loop :: "word_desc list \<Rightarrow> u64 \<Rightarrow> nat \<Rightarrow> int \<Rightarrow> int \<times> word_desc list" where
  "insert_loop ws addr 0 insertpos = (insertpos, ws)"
| "insert_loop ws addr (Suc i) insertpos =
     (if address (ws ! i) = addr then (-2, ws)
      else if address (ws ! i) < addr then (insertpos, ws)
      else insert_loop (ws[Suc i := ws ! i]) addr i (insertpos - 1))"

definition GetInsertPosition :: "descriptor \<Rightarrow> u64 \<Rightarrow> (int \<times> descriptor) checked" where
  "GetInsertPosition d addr =
     (if count d < kMaxCount
      then (case insert_loop (words d) addr (count d) (int (count d)) of
              (pos, ws) \<Rightarrow> Inr (pos, d\<lparr>words := ws\<rparr>))
      else Inl ''too many words'')"

text \<open>\<open>self\<close> is the address of the descriptor (\<open>this\<close>), which every word records.\<close>

definition AddEntry :: "u64 \<Rightarrow> descriptor \<Rightarrow> u64 \<Rightarrow> u64 \<Rightarrow> u64 \<Rightarrow> u32 \<Rightarrow> (nat \<times> descriptor) checked" where
  "AddEntry self d addr oldval newval policy =
     bind_checked (GetInsertPosition d addr) (\<lambda>(insertpos, d').
       if insertpos \<ge> 0
       then Inr (nat insertpos,
              d'\<lparr>words := (words d')[nat insertpos :=
                    \<lparr>address = addr, old_value = oldval, new_value = newval,
                     ownDesc = self, recycle_policy = policy\<rparr>],
                 count := count d' + 1\<rparr>)
       else Inl ''invalid insert position'')"

text \<open>
  \<open>AllocateAndAddEntry\<close> calls the allocation callback with the size; the callback is user code,
  so it is the parameter \<open>alloc\<close>. A null result is fatal.
\<close>

definition AllocateAndAddEntry ::
    "(nat \<Rightarrow> u64) \<Rightarrow> u64 \<Rightarrow> descriptor \<Rightarrow> u64 \<Rightarrow> u64 \<Rightarrow> nat \<Rightarrow> u32 \<Rightarrow> (nat \<times> descriptor) checked" where
  "AllocateAndAddEntry alloc self d addr oldval sz policy =
     bind_checked (GetInsertPosition d addr) (\<lambda>(insertpos, d').
       if insertpos \<ge> 0
       then (if alloc sz \<noteq> 0
             then Inr (nat insertpos,
                    d'\<lparr>words := (words d')[nat insertpos :=
                          \<lparr>address = addr, old_value = oldval, new_value = alloc sz,
                           ownDesc = self, recycle_policy = policy\<rparr>],
                       count := count d' + 1\<rparr>)
             else Inl ''allocation failed'')
       else Inl ''invalid insert position'')"

definition ReserveAndAddEntry :: "u64 \<Rightarrow> descriptor \<Rightarrow> u64 \<Rightarrow> u64 \<Rightarrow> u32 \<Rightarrow> (nat \<times> descriptor) checked" where
  "ReserveAndAddEntry self d addr oldval policy =
     AddEntry self d addr oldval kNewValueReserved policy"

definition GetNewValue :: "descriptor \<Rightarrow> nat \<Rightarrow> u64" where
  "GetNewValue d index = new_value (words d ! index)"

text \<open>Writing through the pointer that \<open>GetNewValuePtr\<close> returns.\<close>

definition SetNewValue :: "descriptor \<Rightarrow> nat \<Rightarrow> u64 \<Rightarrow> descriptor" where
  "SetNewValue d index v = d\<lparr>words := (words d)[index := (words d ! index)\<lparr>new_value := v\<rparr>]\<rparr>"

section \<open>Releasing the memory of a descriptor\<close>

text \<open>
  One iteration of \<open>DeallocateMemory\<close>: the addresses handed to the free callback for one word.
\<close>

definition dealloc_word :: "u32 \<Rightarrow> word_desc \<Rightarrow> u64 list checked" where
  "dealloc_word st w =
     (if recycle_policy w = kRecycleNever \<or> recycle_policy w = kRecycleOnRecovery then Inr []
      else if recycle_policy w = kRecycleAlways then
        (if st = kStatusSucceeded then
           Inr (if old_value w \<noteq> kNewValueReserved then [old_value w] else [])
         else if st = kStatusFailed \<or> st = kStatusFinished then
           Inr (if new_value w \<noteq> kNewValueReserved then [new_value w] else [])
         else Inl ''incorrect status found on used/discarded descriptor'')
      else if recycle_policy w = kRecycleOldOnSuccess then
        Inr (if st = kStatusSucceeded \<and> old_value w \<noteq> kNewValueReserved then [old_value w] else [])
      else if recycle_policy w = kRecycleNewOnFailure then
        Inr (if st \<noteq> kStatusSucceeded \<and> new_value w \<noteq> kNewValueReserved then [new_value w] else [])
      else Inl ''invalid recycle policy'')"

fun dealloc_words :: "u32 \<Rightarrow> word_desc list \<Rightarrow> u64 list checked" where
  "dealloc_words st [] = Inr []"
| "dealloc_words st (w # ws) =
     bind_checked (dealloc_word st w) (\<lambda>xs.
       bind_checked (dealloc_words st ws) (\<lambda>ys. Inr (xs @ ys)))"

definition DeallocateMemory :: "descriptor \<Rightarrow> (u64 list \<times> descriptor) checked" where
  "DeallocateMemory d =
     bind_checked (dealloc_words (status d) (take (count d) (words d)))
       (\<lambda>freed. Inr (freed, d\<lparr>count := 0\<rparr>))"

section \<open>The word array as a sorted list\<close>

definition entries :: "descriptor \<Rightarrow> word_desc list" where
  "entries d = take (count d) (words d)"

definition wf_entries :: "descriptor \<Rightarrow> bool" where
  "wf_entries d \<longleftrightarrow> length (words d) = kMaxCount \<and> count d \<le> kMaxCount \<and>
     sorted_wrt (<) (map address (entries d))"

lemma entries_length: "wf_entries d \<Longrightarrow> length (entries d) = count d"
  by (simp add: wf_entries_def entries_def)

lemma wf_entries_Initialize: "wf_entries (Initialize d)"
  by (simp add: wf_entries_def Initialize_def entries_def kMaxCount_def)

lemma insert_loop_length [simp]: "length (snd (insert_loop ws addr n p)) = length ws"
  by (induction ws addr n p rule: insert_loop.induct) auto

text \<open>One more word moved up by one slot.\<close>

lemma shift_up_step:
  assumes "length ws' = length ws" and "k \<le> i" and "Suc i < length ws"
    and "drop (Suc k) (take (Suc i) ws') = drop k (take i ws)"
    and "drop (Suc i) ws' = drop (Suc i) (ws[Suc i := ws ! i])"
  shows "drop (Suc k) (take (Suc (Suc i)) ws') = drop k (take i ws) @ [ws ! i]"
    and "drop (Suc (Suc i)) ws' = drop (Suc (Suc i)) ws"
proof -
  have "ws' ! Suc i = ws ! i"
    using assms(1,3,5) hd_drop_conv_nth [of "Suc i" ws'] hd_drop_conv_nth [of "Suc i" "ws[Suc i := ws ! i]"]
    by simp
  moreover have "take (Suc (Suc i)) ws' = take (Suc i) ws' @ [ws' ! Suc i]"
    using assms(1,3) by (intro take_Suc_conv_app_nth) simp
  ultimately show "drop (Suc k) (take (Suc (Suc i)) ws') = drop k (take i ws) @ [ws ! i]"
    using assms(1-4) by simp
  have "drop (Suc (Suc i)) ws' = drop 1 (drop (Suc i) ws')" by simp
  then show "drop (Suc (Suc i)) ws' = drop (Suc (Suc i)) ws" unfolding assms(5) by simp
qed

text \<open>
  What the loop computes: without a duplicate it stops at the first position whose address is
  smaller, with everything above moved up by one.
\<close>

lemma insert_loop_spec:
  assumes "n < length ws" and "sorted_wrt (<) (map address (take n ws))"
    and "addr \<notin> address ` set (take n ws)"
  shows "\<exists>k ws'. insert_loop ws addr n (int n) = (int k, ws') \<and> k \<le> n \<and>
      take k ws' = take k ws \<and> drop (Suc k) (take (Suc n) ws') = drop k (take n ws) \<and>
      drop (Suc n) ws' = drop (Suc n) ws \<and>
      (\<forall>w \<in> set (take k ws). address w < addr) \<and>
      (\<forall>w \<in> set (drop k (take n ws)). addr < address w)"
  using assms
proof (induction n arbitrary: ws)
  case 0
  then show ?case by auto
next
  case (Suc i)
  have take_Suc: "take (Suc i) ws = take i ws @ [ws ! i]"
    using Suc.prems(1) by (simp add: take_Suc_conv_app_nth)
  show ?case
  proof (cases "address (ws ! i) < addr")
    case True
    have "\<forall>w \<in> set (take (Suc i) ws). address w < addr"
      using Suc.prems(2) True unfolding take_Suc
      by (auto simp: sorted_wrt_append)
    moreover have "address (ws ! i) \<noteq> addr" using True by simp
    ultimately show ?thesis using True
      by (intro exI [of _ "Suc i"] exI [of _ ws]) simp
  next
    case False
    moreover have ne: "address (ws ! i) \<noteq> addr"
      using Suc.prems(3) by (auto simp: take_Suc)
    ultimately have gt: "addr < address (ws ! i)" by simp
    let ?vs = "ws[Suc i := ws ! i]"
    have "take i ?vs = take i ws" by simp
    then have "i < length ?vs" "sorted_wrt (<) (map address (take i ?vs))"
      "addr \<notin> address ` set (take i ?vs)"
      using Suc.prems unfolding take_Suc by (auto simp: sorted_wrt_append)
    from Suc.IH [OF this] obtain k ws' where
      IH: "insert_loop ?vs addr i (int i) = (int k, ws')" "k \<le> i" "take k ws' = take k ?vs"
        "drop (Suc k) (take (Suc i) ws') = drop k (take i ?vs)"
        "drop (Suc i) ws' = drop (Suc i) ?vs"
        "\<forall>w \<in> set (take k ?vs). address w < addr"
        "\<forall>w \<in> set (drop k (take i ?vs)). addr < address w"
      by blast
    have len: "length ws' = length ws"
      using insert_loop_length [of ?vs addr i "int i"] IH(1) by simp
    note shift = shift_up_step [OF len IH(2) Suc.prems(1) _ IH(5)]
    have "insert_loop ws addr (Suc i) (int (Suc i)) = (int k, ws')"
      using IH(1) ne False by simp
    moreover have "take k ws' = take k ws" using IH(2,3) by simp
    moreover have "drop k (take (Suc i) ws) = drop k (take i ws) @ [ws ! i]"
      using IH(2) Suc.prems(1) by (simp add: take_Suc)
    moreover have "\<forall>w \<in> set (take k ws). address w < addr"
      using IH(2,6) by simp
    moreover have "\<forall>w \<in> set (drop k (take i ws)). addr < address w"
      using IH(7) by simp
    ultimately show ?thesis using IH(2,4) shift gt
      by (intro exI [of _ k] exI [of _ ws']) auto
  qed
qed

lemma insert_loop_dup:
  assumes "n \<le> length ws" and "sorted_wrt (<) (map address (take n ws))"
    and "addr \<in> address ` set (take n ws)"
  shows "fst (insert_loop ws addr n p) = -2"
  using assms
proof (induction n arbitrary: ws p)
  case 0
  then show ?case by simp
next
  case (Suc i)
  have take_Suc: "take (Suc i) ws = take i ws @ [ws ! i]"
    using Suc.prems(1) by (simp add: take_Suc_conv_app_nth)
  show ?case
  proof (cases "address (ws ! i) = addr")
    case True
    then show ?thesis by simp
  next
    case False
    then have mem: "addr \<in> address ` set (take i ws)"
      using Suc.prems(3) unfolding take_Suc by auto
    then have "\<not> address (ws ! i) < addr"
      using Suc.prems(2) unfolding take_Suc by (auto simp: sorted_wrt_append)
    moreover have "fst (insert_loop (ws[Suc i := ws ! i]) addr i (p - 1)) = -2"
      using Suc.prems mem unfolding take_Suc
      by (intro Suc.IH) (auto simp: sorted_wrt_append)
    ultimately show ?thesis using False by simp
  qed
qed

text \<open>
  \<open>AddEntry\<close> on a descriptor with room and no word at that address: the used part of the array
  becomes the sorted insertion of the new word, at the returned position.
\<close>

definition rank_of :: "descriptor \<Rightarrow> u64 \<Rightarrow> nat" where
  "rank_of d addr = length (filter (\<lambda>w. address w < addr) (entries d))"

lemma insort_key_split:
  assumes "\<forall>w \<in> set xs. f w < f x" and "\<forall>w \<in> set ys. f x < (f w :: 'b::linorder)"
  shows "insort_key f x (xs @ ys) = xs @ x # ys"
  using assms
proof (induction xs)
  case Nil
  then show ?case by (cases ys) auto
next
  case (Cons a xs)
  then show ?case by auto
qed

lemma rank_of_split:
  assumes "entries d = xs @ ys" and "\<forall>w \<in> set xs. address w < addr"
    and "\<forall>w \<in> set ys. addr < address w"
  shows "rank_of d addr = length xs"
proof -
  have "filter (\<lambda>w. address w < addr) ys = []"
    using assms(3) by (auto simp: filter_empty_conv)
  then show ?thesis using assms(1,2) by (simp add: rank_of_def)
qed

lemma list_update_split:
  assumes "take k ws' = xs" and "drop (Suc k) (take (Suc n) ws') = ys" and "length xs = k"
    and "k \<le> n" and "n < length ws'"
  shows "take (Suc n) (ws'[k := w]) = xs @ w # ys"
proof -
  have "take (Suc n) (ws'[k := w]) = (take (Suc n) ws')[k := w]"
    by (simp add: take_update_swap)
  also have "\<dots> = take k (take (Suc n) ws') @ w # drop (Suc k) (take (Suc n) ws')"
    using assms(4,5) by (intro upd_conv_take_nth_drop) simp
  also have "\<dots> = xs @ w # ys" using assms by (simp add: min_absorb1)
  finally show ?thesis .
qed

lemma GetInsertPosition_fresh:
  assumes "wf_entries d" and "count d < kMaxCount" and "addr \<notin> address ` set (entries d)"
  obtains ws xs ys where "GetInsertPosition d addr = Inr (int (rank_of d addr), d\<lparr>words := ws\<rparr>)"
    "entries d = xs @ ys" "length xs = rank_of d addr" "length ws = kMaxCount"
    "\<forall>w \<in> set xs. address w < addr" "\<forall>w \<in> set ys. addr < address w"
    "\<forall>w. take (Suc (count d)) (ws[rank_of d addr := w]) = xs @ w # ys"
proof -
  let ?n = "count d"
  have n: "?n < length (words d)" using assms(1,2) by (simp add: wf_entries_def)
  have srt: "sorted_wrt (<) (map address (take ?n (words d)))"
    using assms(1) by (simp add: wf_entries_def entries_def)
  from insert_loop_spec [OF n srt] assms(3) obtain k ws where
    k: "insert_loop (words d) addr ?n (int ?n) = (int k, ws)" "k \<le> ?n"
      "take k ws = take k (words d)" "drop (Suc k) (take (Suc ?n) ws) = drop k (take ?n (words d))"
      "\<forall>w \<in> set (take k (words d)). address w < addr"
      "\<forall>w \<in> set (drop k (take ?n (words d))). addr < address w"
    unfolding entries_def by blast
  let ?xs = "take k (words d)" and ?ys = "drop k (take ?n (words d))"
  have len: "length ws = length (words d)"
    using insert_loop_length [of "words d" addr ?n "int ?n"] k(1) by simp
  have lx: "length ?xs = k" using k(2) n by simp
  have split: "entries d = ?xs @ ?ys"
    using append_take_drop_id [of k "take ?n (words d)"] k(2) by (simp add: entries_def min_absorb1)
  have rank: "rank_of d addr = k"
    using rank_of_split [OF split k(5,6)] lx by simp
  show thesis
  proof (rule that)
    show "GetInsertPosition d addr = Inr (int (rank_of d addr), d\<lparr>words := ws\<rparr>)"
      using k(1) assms(2) rank by (simp add: GetInsertPosition_def)
    show "\<forall>w. take (Suc ?n) (ws[rank_of d addr := w]) = ?xs @ w # ?ys"
      using list_update_split [OF k(3,4) lx k(2)] n len rank by simp
    show "length ws = kMaxCount" using len assms(1) by (simp add: wf_entries_def)
  qed (use split lx rank k in simp_all)
qed

lemma AddEntry_fresh:
  assumes "wf_entries d" and "count d < kMaxCount" and "addr \<notin> address ` set (entries d)"
  obtains d' where "AddEntry self d addr oldval newval policy = Inr (rank_of d addr, d')"
    "entries d' = insort_key address \<lparr>address = addr, old_value = oldval, new_value = newval,
        ownDesc = self, recycle_policy = policy\<rparr> (entries d)"
    "count d' = Suc (count d)" "length (words d') = kMaxCount" "status d' = status d"
proof -
  let ?w = "\<lparr>address = addr, old_value = oldval, new_value = newval,
        ownDesc = self, recycle_policy = policy\<rparr>"
  obtain ws xs ys where
    g: "GetInsertPosition d addr = Inr (int (rank_of d addr), d\<lparr>words := ws\<rparr>)"
      "entries d = xs @ ys" "length xs = rank_of d addr" "length ws = kMaxCount"
      "\<forall>w \<in> set xs. address w < addr" "\<forall>w \<in> set ys. addr < address w"
      "\<forall>w. take (Suc (count d)) (ws[rank_of d addr := w]) = xs @ w # ys"
    by (rule GetInsertPosition_fresh [OF assms])
  have "insort_key address ?w (xs @ ys) = xs @ ?w # ys"
    using g(5,6) by (intro insort_key_split) simp_all
  then show thesis
    by (intro that [of "d\<lparr>words := ws[rank_of d addr := ?w], count := Suc (count d)\<rparr>"])
      (simp_all add: AddEntry_def g entries_def [of "d\<lparr>words := w, count := c\<rparr>" for w c])
qed

lemma sorted_insort_key_strict:
  assumes "sorted_wrt (<) (map f xs)" and "(f x :: 'b::linorder) \<notin> f ` set xs"
  shows "sorted_wrt (<) (map f (insort_key f x xs))"
  using assms
proof (induction xs)
  case Nil
  then show ?case by simp
next
  case (Cons a xs)
  then show ?case
    by (auto simp: set_insort_key not_le)
qed

section \<open>Adding an entry\<close>

lemma insort_key_nth:
  assumes "sorted_wrt (<) (map f xs)" and "(f x :: 'b::linorder) \<notin> f ` set xs"
  shows "insort_key f x xs ! length (filter (\<lambda>y. f y < f x) xs) = x"
  using assms
proof (induction xs)
  case Nil
  then show ?case by simp
next
  case (Cons y xs)
  have "filter (\<lambda>z. f z < f x) xs = []" if "f x < f y"
    using Cons.prems(1) that by (auto simp: filter_empty_conv)
  then show ?case using Cons by (auto simp: not_le)
qed

text \<open>
  C11: Adding a word to a descriptor with sorted entries. A full descriptor and an address that it
  already has are refused; otherwise the word goes to the position of its address in the order,
  which is the index returned, the other words keep theirs, the entries stay strictly sorted, and
  the new value can be read and replaced at that index.
\<close>

theorem add_entry_sorted:
  assumes "wf_entries d"
  shows "if count d = kMaxCount then AddEntry self d addr oldval newval policy = Inl ''too many words''
    else if addr \<in> address ` set (entries d)
    then AddEntry self d addr oldval newval policy = Inl ''invalid insert position''
    else \<exists>d'. AddEntry self d addr oldval newval policy = Inr (rank_of d addr, d') \<and> wf_entries d' \<and>
      entries d' = insort_key address \<lparr>address = addr, old_value = oldval, new_value = newval,
        ownDesc = self, recycle_policy = policy\<rparr> (entries d) \<and>
      GetNewValue d' (rank_of d addr) = newval"
proof -
  let ?w = "\<lparr>address = addr, old_value = oldval, new_value = newval, ownDesc = self, recycle_policy = policy\<rparr>"
  consider (full) "count d = kMaxCount" | (dup) "count d < kMaxCount" "addr \<in> address ` set (entries d)"
    | (fresh) "count d < kMaxCount" "addr \<notin> address ` set (entries d)"
    using assms by (fastforce simp: wf_entries_def)
  then show ?thesis
  proof cases
    case full
    then show ?thesis by (simp add: AddEntry_def GetInsertPosition_def)
  next
    case dup
    have "fst (insert_loop (words d) addr (count d) (int (count d))) = -2"
      using assms dup by (intro insert_loop_dup) (auto simp: wf_entries_def entries_def)
    then show ?thesis
      using dup by (auto simp: AddEntry_def GetInsertPosition_def split: prod.splits)
  next
    case fresh
    obtain d' where d': "AddEntry self d addr oldval newval policy = Inr (rank_of d addr, d')"
        "entries d' = insort_key address ?w (entries d)" "count d' = Suc (count d)"
        "length (words d') = kMaxCount"
      by (rule AddEntry_fresh [OF assms fresh])
    have srt: "sorted_wrt (<) (map address (entries d))" using assms by (simp add: wf_entries_def)
    have "entries d' ! rank_of d addr = ?w"
      using insort_key_nth [OF srt, of ?w] fresh(2) unfolding d'(2) rank_of_def by simp
    moreover have "rank_of d addr < count d'"
      using length_filter_le [of "\<lambda>w. address w < addr" "entries d"] entries_length [OF assms] d'(3)
      by (simp add: rank_of_def)
    ultimately have "GetNewValue d' (rank_of d addr) = newval" by (simp add: GetNewValue_def entries_def)
    moreover have "wf_entries d'"
      using sorted_insort_key_strict [OF srt, of ?w] fresh d' by (simp add: wf_entries_def)
    ultimately show ?thesis using fresh d'(1,2) by auto
  qed
qed

theorem add_entry_sorted_witness:
  "\<exists>d'. AddEntry 4096 (Initialize zero_descriptor) 64 5 6 kRecycleNever = Inr (0, d') \<and> wf_entries d' \<and>
     GetNewValue d' 0 = 6"
proof -
  have "rank_of (Initialize zero_descriptor) 64 = 0" "count (Initialize zero_descriptor) \<noteq> kMaxCount"
    "64 \<notin> address ` set (entries (Initialize zero_descriptor))"
    by (simp_all add: rank_of_def entries_def Initialize_def kMaxCount_def)
  then show ?thesis
    using add_entry_sorted [OF wf_entries_Initialize, of zero_descriptor 4096 64 5 6 kRecycleNever] by auto
qed

end
