(* ===== verification/Mwcas_Machine.thy ===== *)
theory Mwcas_Machine
  imports Descriptor
begin

text \<open>
  The persistent MwCAS of \<open>src/src/mwcas/mwcas.cc\<close> as a concurrent machine. A thread is a stack of
  activation frames (an operation that meets another operation's descriptor helps it by a nested
  call); every step of a frame performs at most one access to shared memory, so that an execution
  is an arbitrary interleaving of these accesses. Memory has two images: \<open>mem\<close> is what the
  processors see, \<open>nvm\<close> is what survives a crash. A flush copies a word from the first to the
  second; the cache may also do so at any time on its own (the two eviction events).
\<close>

section \<open>Memory\<close>

record shared =
  mem :: "u64 \<Rightarrow> u64"
  nvm :: "u64 \<Rightarrow> u64"
  descs :: "u64 \<Rightarrow> descriptor"
  pdescs :: "u64 \<Rightarrow> descriptor"
  pool :: "u64 list"

text \<open>
  Addresses: \<open>sizeof(Descriptor)\<close> is 256, its array \<open>words_\<close> starts at offset 48 and
  \<open>sizeof(WordDescriptor)\<close> is 40.
\<close>

definition desc_ptr :: "u64 \<Rightarrow> nat \<Rightarrow> u64" where
  "desc_ptr base k = base + 256 * of_nat k"

definition word_ptr :: "u64 \<Rightarrow> nat \<Rightarrow> u64" where
  "word_ptr d i = d + (48 + 40 * of_nat i)"

text \<open>The word descriptor at an address: which descriptor of the pool holds it, and where.\<close>

definition find_word :: "u64 list \<Rightarrow> u64 \<Rightarrow> (u64 \<times> nat) option" where
  "find_word pl p = find (\<lambda>(d, i). word_ptr d i = p) (List.product pl [0..<kMaxCount])"

definition word_at :: "shared \<Rightarrow> u64 \<Rightarrow> nat \<Rightarrow> word_desc" where
  "word_at sh d i = words (descs sh d) ! i"

text \<open>\<open>CompareExchange64\<close> and \<open>CompareExchange32\<close> return the value found.\<close>

definition CompareExchange64 :: "shared \<Rightarrow> u64 \<Rightarrow> u64 \<Rightarrow> u64 \<Rightarrow> u64 \<times> shared" where
  "CompareExchange64 sh destination newv comparand =
     (mem sh destination,
      if mem sh destination = comparand
      then sh\<lparr>mem := (mem sh)(destination := newv)\<rparr> else sh)"

definition set_status :: "shared \<Rightarrow> u64 \<Rightarrow> u32 \<Rightarrow> shared" where
  "set_status sh d s = sh\<lparr>descs := (descs sh)(d := (descs sh d)\<lparr>status := s\<rparr>)\<rparr>"

definition CompareExchange32 :: "shared \<Rightarrow> u64 \<Rightarrow> u32 \<Rightarrow> u32 \<Rightarrow> u32 \<times> shared" where
  "CompareExchange32 sh d newv comparand =
     (status (descs sh d),
      if status (descs sh d) = comparand then set_status sh d newv else sh)"

text \<open>
  \<open>NVRAM::Flush\<close> of one word, of the status field, and of a whole descriptor, with
  \<open>use_clflush\<close> set; \<open>pmem_persist\<close> makes the current content durable.
\<close>

definition flush_word :: "shared \<Rightarrow> u64 \<Rightarrow> shared" where
  "flush_word sh a = sh\<lparr>nvm := (nvm sh)(a := mem sh a)\<rparr>"

definition flush_status :: "shared \<Rightarrow> u64 \<Rightarrow> shared" where
  "flush_status sh d =
     sh\<lparr>pdescs := (pdescs sh)(d := (pdescs sh d)\<lparr>status := status (descs sh d)\<rparr>)\<rparr>"

definition flush_desc :: "shared \<Rightarrow> u64 \<Rightarrow> shared" where
  "flush_desc sh d = sh\<lparr>pdescs := (pdescs sh)(d := descs sh d)\<rparr>"

section \<open>The conditional CAS\<close>

datatype cpc =
    CTry                  \<comment> \<open>CAS of the word descriptor into the target\<close>
  | CStat u64             \<comment> \<open>found another word descriptor: read its owner's status\<close>
  | CRecheck u64 u64      \<comment> \<open>re-read the target\<close>
  | CStat2 u64 u64        \<comment> \<open>read the status again for the CAS\<close>
  | CSwap u64 u64 u64     \<comment> \<open>CAS that replaces the other word descriptor\<close>
  | COwnStat              \<comment> \<open>installed: read the own status\<close>
  | COwnSwap u64          \<comment> \<open>CAS that replaces the own word descriptor\<close>

datatype cond_outcome =
    CGoto cpc shared
  | CRet u64 shared
  | CAbort string

definition cond_descptr :: "u64 \<Rightarrow> nat \<Rightarrow> u64" where
  "cond_descptr d i = word_ptr d i OR kCondCASFlag"

definition mwcas_descptr :: "u64 \<Rightarrow> u64 \<Rightarrow> u64" where
  "mwcas_descptr dirty_flag d = d OR kMwCASFlag OR dirty_flag"

lemma cond_descptr_eval [code]:
  "cond_descptr d i =
     (let p = word_ptr d i in if IsCondCASDescriptorPtr p then p else p + kCondCASFlag)"
  by (simp add: cond_descptr_def OR_flags_eval Let_def)

lemma mwcas_descptr_eval [code]:
  "mwcas_descptr f d =
     (let p = (if IsMwCASDescriptorPtr d then d else d + kMwCASFlag) in
      if f = 0 then p else if f = kDirtyFlag then (if IsDirtyPtr p then p else p + f) else p OR f)"
  unfolding mwcas_descptr_def or.assoc [symmetric] Let_def OR_flags_eval(2) [symmetric]
  using OR_flags_eval(1) [of "d OR kMwCASFlag"] by auto

text \<open>\<open>wd->ownDesc_->status_ == kStatusUndecided ? dptr : wd->old_value_\<close>\<close>

definition completion :: "shared \<Rightarrow> u64 \<Rightarrow> word_desc \<Rightarrow> u64" where
  "completion sh dirty_flag wd =
     (if status (descs sh (ownDesc wd)) = kStatusUndecided
      then mwcas_descptr dirty_flag (ownDesc wd) else old_value wd)"

definition deref_word :: "shared \<Rightarrow> u64 \<Rightarrow> word_desc option" where
  "deref_word sh p = map_option (\<lambda>(d, i). word_at sh d i) (find_word (pool sh) p)"

definition CondCAS_step :: "u64 \<Rightarrow> u64 \<Rightarrow> nat \<Rightarrow> cpc \<Rightarrow> shared \<Rightarrow> cond_outcome" where
  "CondCAS_step dirty_flag d i pc sh =
     (let w = word_at sh d i in
      case pc of
        CTry \<Rightarrow>
          (case CompareExchange64 sh (address w) (cond_descptr d i) (old_value w) of (ret, sh') \<Rightarrow>
             if IsCondCASDescriptorPtr ret then CGoto (CStat ret) sh'
             else if ret = old_value w then CGoto COwnStat sh'
             else CRet ret sh')
      | CStat ret \<Rightarrow>
          (case deref_word sh (CleanPtr ret) of
             None \<Rightarrow> CAbort ''wild word descriptor''
           | Some wd \<Rightarrow>
               if address wd = address w then CGoto (CRecheck ret (completion sh dirty_flag wd)) sh
               else CAbort ''wrong address'')
      | CRecheck ret desired \<Rightarrow>
          if mem sh (address w) \<noteq> ret then CGoto CTry sh else CGoto (CStat2 ret desired) sh
      | CStat2 ret desired \<Rightarrow>
          (case deref_word sh (CleanPtr ret) of
             None \<Rightarrow> CAbort ''wild word descriptor''
           | Some wd \<Rightarrow> CGoto (CSwap ret desired (completion sh dirty_flag wd)) sh)
      | CSwap ret desired newv \<Rightarrow>
          (case deref_word sh (CleanPtr ret) of
             None \<Rightarrow> CAbort ''wild word descriptor''
           | Some wd \<Rightarrow>
               (case CompareExchange64 sh (address wd) newv ret of (rval, sh') \<Rightarrow>
                  if rval = ret \<and> desired = mwcas_descptr dirty_flag (ownDesc wd)
                  then CRet (mwcas_descptr dirty_flag (ownDesc wd)) sh'
                  else CGoto CTry sh'))
      | COwnStat \<Rightarrow>
          CGoto (COwnSwap (if status (descs sh d) = kStatusUndecided
                           then mwcas_descptr dirty_flag d else old_value w)) sh
      | COwnSwap newv \<Rightarrow>
          (case CompareExchange64 sh (address w) newv (cond_descptr d i) of (_, sh') \<Rightarrow>
             CRet (old_value w) sh'))"

section \<open>The persistent multi-word CAS\<close>

datatype pc =
    LoadStatus | StatusFlush u32 | StatusClear u32
  | Loop nat u32
  | InCond nat cpc
  | GotRval nat u64
  | HelpFlush nat u64 | HelpClear nat u64
  | PersistLoad nat | PersistFlush nat | PersistClear nat
  | Decide u32 | DecideCheck
  | StatusFlush2 | StatusLoad2 | StatusStore2 u32 | Outcome
  | Final nat bool | Final2 nat bool | FinalFlush nat bool | FinalClear nat bool
  | Exit bool

datatype outcome =
    Goto pc shared
  | Call u64 pc shared      \<comment> \<open>help this descriptor, then continue at the pc\<close>
  | Return bool shared
  | Abort string

definition final_value :: "bool \<Rightarrow> word_desc \<Rightarrow> u64" where
  "final_value succeeded wd = (if succeeded then new_value wd else old_value wd) OR kDirtyFlag"

lemma final_value_eval [code]:
  "final_value b wd =
     (let v = (if b then new_value wd else old_value wd) in if IsDirtyPtr v then v else v + kDirtyFlag)"
  by (simp only: final_value_def OR_flags_eval(1) Let_def)

text \<open>\<open>Descriptor::Cleanup\<close>; the push on the garbage list is the pool's part of it.\<close>

definition Cleanup :: "shared \<Rightarrow> u64 \<Rightarrow> outcome" where
  "Cleanup sh d =
     (let s = status (descs sh d) in
      if s AND kStatusDirtyFlag \<noteq> 0 then Abort ''invalid status''
      else if s = kStatusFailed \<or> s = kStatusSucceeded then Return (s = kStatusSucceeded) sh
      else Abort ''invalid status'')"

text \<open>\<open>NVRAM::Flush\<close> refuses a null pointer.\<close>

definition flush_then :: "shared \<Rightarrow> u64 \<Rightarrow> pc \<Rightarrow> outcome" where
  "flush_then sh a k = (if a = 0 then Abort ''null data'' else Goto k (flush_word sh a))"

fun PersistentMwCAS_step :: "u64 \<Rightarrow> nat \<Rightarrow> pc \<Rightarrow> shared \<Rightarrow> outcome" where
  "PersistentMwCAS_step d calldepth LoadStatus sh =
     (let s = status (descs sh d) in
      if s AND kStatusDirtyFlag \<noteq> 0 then Goto (StatusFlush s) sh
      else Goto (Loop 0 kStatusSucceeded) sh)"
| "PersistentMwCAS_step d calldepth (StatusFlush s) sh = Goto (StatusClear s) (flush_status sh d)"
| "PersistentMwCAS_step d calldepth (StatusClear s) sh =
     Goto (Loop 0 kStatusSucceeded) (snd (CompareExchange32 sh d (clean_status s) s))"
| "PersistentMwCAS_step d calldepth (Loop i my_status) sh =
     (if i < count (descs sh d) \<and> my_status = kStatusSucceeded then Goto (InCond i CTry) sh
      else if my_status = kStatusSucceeded then Goto (PersistLoad 0) sh
      else Goto (Decide my_status) sh)"
| "PersistentMwCAS_step d calldepth (InCond i c) sh =
     (case CondCAS_step kDirtyFlag d i c sh of
        CGoto c' sh' \<Rightarrow> Goto (InCond i c') sh'
      | CRet rval sh' \<Rightarrow> Goto (GotRval i rval) sh'
      | CAbort m \<Rightarrow> Abort m)"
| "PersistentMwCAS_step d calldepth (GotRval i rval) sh =
     (if rval = old_value (word_at sh d i) \<or> CleanPtr rval = d
      then Goto (Loop (Suc i) kStatusSucceeded) sh
      else if IsMwCASDescriptorPtr rval then
        (if IsDirtyPtr rval then Goto (HelpFlush i rval) sh
         else Call (CleanPtr rval) (InCond i CTry) sh)
      else Goto (Loop (Suc i) kStatusFailed) sh)"
| "PersistentMwCAS_step d calldepth (HelpFlush i rval) sh =
     flush_then sh (address (word_at sh d i)) (HelpClear i rval)"
| "PersistentMwCAS_step d calldepth (HelpClear i rval) sh =
     Call (CleanPtr rval) (InCond i CTry)
       (snd (CompareExchange64 sh (address (word_at sh d i)) (ClearDirty rval) rval))"
| "PersistentMwCAS_step d calldepth (PersistLoad i) sh =
     (if i < count (descs sh d) then
        (if mem sh (address (word_at sh d i)) = mwcas_descptr kDirtyFlag d
         then Goto (PersistFlush i) sh else Goto (PersistLoad (Suc i)) sh)
      else Goto (Decide kStatusSucceeded) sh)"
| "PersistentMwCAS_step d calldepth (PersistFlush i) sh =
     flush_then sh (address (word_at sh d i)) (PersistClear i)"
| "PersistentMwCAS_step d calldepth (PersistClear i) sh =
     Goto (PersistLoad (Suc i))
       (snd (CompareExchange64 sh (address (word_at sh d i))
          (ClearDirty (mwcas_descptr kDirtyFlag d)) (mwcas_descptr kDirtyFlag d)))"
| "PersistentMwCAS_step d calldepth (Decide my_status) sh =
     Goto DecideCheck
       (snd (CompareExchange32 sh d (my_status OR kStatusDirtyFlag) kStatusUndecided))"
| "PersistentMwCAS_step d calldepth DecideCheck sh =
     (if clean_status (status (descs sh d)) \<noteq> kStatusUndecided then Goto StatusFlush2 sh
      else Abort ''invalid status'')"
| "PersistentMwCAS_step d calldepth StatusFlush2 sh = Goto StatusLoad2 (flush_status sh d)"
| "PersistentMwCAS_step d calldepth StatusLoad2 sh = Goto (StatusStore2 (status (descs sh d))) sh"
| "PersistentMwCAS_step d calldepth (StatusStore2 s) sh =
     Goto Outcome (set_status sh d (clean_status s))"
| "PersistentMwCAS_step d calldepth Outcome sh =
     Goto (Final 0 (status (descs sh d) = kStatusSucceeded)) sh"
| "PersistentMwCAS_step d calldepth (Final i succeeded) sh =
     (if i < count (descs sh d) then
        (let wd = word_at sh d i; descptr = mwcas_descptr kDirtyFlag d in
         case CompareExchange64 sh (address wd) (final_value succeeded wd) descptr of (r, sh') \<Rightarrow>
           if r = ClearDirty descptr then Goto (Final2 i succeeded) sh'
           else Goto (FinalFlush i succeeded) sh')
      else Goto (Exit succeeded) sh)"
| "PersistentMwCAS_step d calldepth (Final2 i succeeded) sh =
     (let wd = word_at sh d i in
      Goto (FinalFlush i succeeded)
        (snd (CompareExchange64 sh (address wd) (final_value succeeded wd)
           (ClearDirty (mwcas_descptr kDirtyFlag d)))))"
| "PersistentMwCAS_step d calldepth (FinalFlush i succeeded) sh =
     flush_then sh (address (word_at sh d i)) (FinalClear i succeeded)"
| "PersistentMwCAS_step d calldepth (FinalClear i succeeded) sh =
     (let wd = word_at sh d i in
      Goto (Final (Suc i) succeeded)
        (snd (CompareExchange64 sh (address wd) (ClearDirty (final_value succeeded wd))
           (final_value succeeded wd))))"
| "PersistentMwCAS_step d calldepth (Exit succeeded) sh =
     (if calldepth = 0 then Cleanup sh d else Return succeeded sh)"

section \<open>Reading a target word\<close>

datatype rpc = RLoad | RStat u64 | RSwap u64 u64 | RFlush u64 | RClear u64

datatype read_outcome =
    RGoto rpc shared
  | RCall u64 rpc shared
  | RRet u64 shared
  | RAbort string

text \<open>The tail shared by both paths of \<open>GetValuePersistent\<close>, after the dirty bit is dealt with.\<close>

definition read_finish :: "u64 \<Rightarrow> shared \<Rightarrow> read_outcome" where
  "read_finish val sh =
     (if IsMwCASDescriptorPtr val then
        (if CleanPtr val \<noteq> 0 then RCall (CleanPtr val) RLoad sh
         else RAbort ''invalid descriptor pointer'')
      else if IsCleanPtr val then RRet val sh
      else RAbort ''dirty flag set on return value'')"

fun GetValuePersistent_step :: "u64 \<Rightarrow> rpc \<Rightarrow> shared \<Rightarrow> read_outcome" where
  "GetValuePersistent_step a RLoad sh =
     (let val = mem sh a in
      if IsCondCASDescriptorPtr val then
        (if IsDirtyPtr val then RAbort ''dirty flag set on CondCAS descriptor''
         else RGoto (RStat val) sh)
      else if IsDirtyPtr val then RGoto (RFlush val) sh
      else read_finish val sh)"
| "GetValuePersistent_step a (RStat val) sh =
     (case deref_word sh (CleanPtr val) of
        None \<Rightarrow> RAbort ''wild word descriptor''
      | Some wd \<Rightarrow> RGoto (RSwap val (completion sh kDirtyFlag wd)) sh)"
| "GetValuePersistent_step a (RSwap val newv) sh =
     (case deref_word sh (CleanPtr val) of
        None \<Rightarrow> RAbort ''wild word descriptor''
      | Some wd \<Rightarrow> RGoto RLoad (snd (CompareExchange64 sh (address wd) newv val)))"
| "GetValuePersistent_step a (RFlush val) sh =
     (if a = 0 then RAbort ''null data'' else RGoto (RClear val) (flush_word sh a))"
| "GetValuePersistent_step a (RClear val) sh =
     read_finish (ClearDirty val) (snd (CompareExchange64 sh a (ClearDirty val) val))"

section \<open>Threads and executions\<close>

datatype frame = MwFrame u64 nat pc | RdFrame u64 rpc

datatype thread_result = MwResult u64 bool | RdResult u64 u64

record sys =
  glob :: shared
  stacks :: "nat \<Rightarrow> frame list"
  results :: "(nat \<times> thread_result) list"
  aborted :: "string option"

text \<open>
  Starting an operation: the thread fills a fresh descriptor of the pool with \<open>AddEntry\<close>, and
  \<open>MwCAS\<close> checks that the status is \<open>kStatusFinished\<close>, sets it to \<open>kStatusUndecided\<close> and persists
  the descriptor before anyone else can see it.
\<close>

fun AddEntries :: "u64 \<Rightarrow> descriptor \<Rightarrow> (u64 \<times> u64 \<times> u64) list \<Rightarrow> descriptor checked" where
  "AddEntries self d [] = Inr d"
| "AddEntries self d ((addr, oldval, newval) # es) =
     bind_checked (AddEntry self d addr oldval newval kRecycleNever)
       (\<lambda>(_, d'). AddEntries self d' es)"

definition MwCAS_start :: "shared \<Rightarrow> u64 \<Rightarrow> (u64 \<times> u64 \<times> u64) list \<Rightarrow> shared checked" where
  "MwCAS_start sh d es =
     bind_checked (AddEntries d (descs sh d) es) (\<lambda>desc.
       if status desc = kStatusFinished
       then (let desc' = desc\<lparr>status := kStatusUndecided\<rparr> in
             Inr (sh\<lparr>descs := (descs sh)(d := desc'), pdescs := (pdescs sh)(d := desc')\<rparr>))
       else Inl ''status of descriptor is not kStatusFinished'')"

datatype event =
    Run nat
  | StartMwCAS nat u64 "(u64 \<times> u64 \<times> u64) list"
  | StartRead nat u64
  | EvictWord u64
  | EvictDesc u64

definition abort_sys :: "sys \<Rightarrow> string \<Rightarrow> sys" where
  "abort_sys s m = s\<lparr>aborted := Some m\<rparr>"

definition frame_step :: "sys \<Rightarrow> nat \<Rightarrow> frame \<Rightarrow> frame list \<Rightarrow> sys" where
  "frame_step s t f fs =
     (case f of
        MwFrame d depth pc \<Rightarrow>
          (case PersistentMwCAS_step d depth pc (glob s) of
             Goto pc' sh' \<Rightarrow> s\<lparr>glob := sh', stacks := (stacks s)(t := MwFrame d depth pc' # fs)\<rparr>
           | Call d' pc' sh' \<Rightarrow>
               s\<lparr>glob := sh', stacks := (stacks s)
                   (t := MwFrame d' (Suc depth) LoadStatus # MwFrame d depth pc' # fs)\<rparr>
           | Return b sh' \<Rightarrow>
               s\<lparr>glob := sh', stacks := (stacks s)(t := fs),
                 results := (if depth = 0 then (t, MwResult d b) # results s else results s)\<rparr>
           | Abort m \<Rightarrow> abort_sys s m)
      | RdFrame a rpc \<Rightarrow>
          (case GetValuePersistent_step a rpc (glob s) of
             RGoto rpc' sh' \<Rightarrow> s\<lparr>glob := sh', stacks := (stacks s)(t := RdFrame a rpc' # fs)\<rparr>
           | RCall d' rpc' sh' \<Rightarrow>
               s\<lparr>glob := sh', stacks := (stacks s)
                   (t := MwFrame d' 1 LoadStatus # RdFrame a rpc' # fs)\<rparr>
           | RRet v sh' \<Rightarrow>
               s\<lparr>glob := sh', stacks := (stacks s)(t := fs), results := (t, RdResult a v) # results s\<rparr>
           | RAbort m \<Rightarrow> abort_sys s m))"

text \<open>
  What the application owes: it passes clean values (the \<open>DCHECK\<close>s of \<open>AddEntry\<close>) that are not
  addresses of descriptors or of their word descriptors, at most \<open>kMaxCount\<close> distinct non-null target addresses, and a descriptor that the pool handed out
  and nobody has used yet.
\<close>

definition app_value :: "u64 list \<Rightarrow> u64 \<Rightarrow> bool" where
  "app_value pl v \<longleftrightarrow> IsCleanPtr v \<and> v \<notin> set pl \<and> find_word pl v = None"

definition may_start :: "shared \<Rightarrow> u64 \<Rightarrow> (u64 \<times> u64 \<times> u64) list \<Rightarrow> bool" where
  "may_start shd d es \<longleftrightarrow> d \<in> set (pool shd) \<and> status (descs shd d) = kStatusFinished \<and>
     length es \<le> kMaxCount \<and> distinct (map fst es) \<and>
     list_all (\<lambda>(a, v, v'). a \<noteq> 0 \<and> app_value (pool shd) v \<and> app_value (pool shd) v') es"

definition exec :: "event \<Rightarrow> sys \<Rightarrow> sys option" where
  "exec e s =
     (if aborted s \<noteq> None then None else
      case e of
        Run t \<Rightarrow> (case stacks s t of [] \<Rightarrow> None | f # fs \<Rightarrow> Some (frame_step s t f fs))
      | StartMwCAS t d es \<Rightarrow>
          if stacks s t = [] \<and> may_start (glob s) d es then
            Some (case MwCAS_start (glob s) d es of
                    Inl m \<Rightarrow> abort_sys s m
                  | Inr sh' \<Rightarrow> s\<lparr>glob := sh', stacks := (stacks s)(t := [MwFrame d 0 LoadStatus])\<rparr>)
          else None
      | StartRead t a \<Rightarrow>
          if stacks s t = [] \<and> a \<noteq> 0
          then Some (s\<lparr>stacks := (stacks s)(t := [RdFrame a RLoad])\<rparr>) else None
      | EvictWord a \<Rightarrow> Some (s\<lparr>glob := flush_word (glob s) a\<rparr>)
      | EvictDesc d \<Rightarrow>
          if d \<in> set (pool (glob s)) then Some (s\<lparr>glob := flush_desc (glob s) d\<rparr>) else None)"

fun exec_all :: "event list \<Rightarrow> sys \<Rightarrow> sys option" where
  "exec_all [] s = Some s"
| "exec_all (e # es) s = (case exec e s of None \<Rightarrow> None | Some s' \<Rightarrow> exec_all es s')"

end
