(* ===== verification/Mwcas_Protocol.thy ===== *)
theory Mwcas_Protocol
  imports Mwcas_Machine
begin

text \<open>
  The invariant of the MwCAS protocol on shared memory, and the relation between two states that
  every atomic access of the algorithm respects. A target word holds a plain value, a pointer to a
  word descriptor or a pointer to a descriptor; \<open>interp\<close> gives the value such a word stands for
  under a given assignment of statuses, so that \<open>abs_mem\<close> is the memory the application sees and
  \<open>pabs_mem\<close> the one a crash would leave to recovery.
\<close>

section \<open>Reading the shared state\<close>

definition st :: "shared \<Rightarrow> u64 \<Rightarrow> u32" where
  "st sh d = clean_status (status (descs sh d))"

definition pst :: "shared \<Rightarrow> u64 \<Rightarrow> u32" where
  "pst sh d = clean_status (status (pdescs sh d))"

definition active :: "shared \<Rightarrow> u64 \<Rightarrow> bool" where
  "active sh d \<longleftrightarrow> d \<in> set (pool sh) \<and>
     (st sh d = kStatusUndecided \<or> st sh d = kStatusSucceeded \<or> st sh d = kStatusFailed)"

definition decided :: "shared \<Rightarrow> u64 \<Rightarrow> bool" where
  "decided sh d \<longleftrightarrow> st sh d = kStatusSucceeded \<or> st sh d = kStatusFailed"

definition target :: "shared \<Rightarrow> u64 \<Rightarrow> nat \<Rightarrow> bool" where
  "target sh d i \<longleftrightarrow> active sh d \<and> i < count (descs sh d)"

abbreviation waddr :: "shared \<Rightarrow> u64 \<Rightarrow> nat \<Rightarrow> u64" where
  "waddr sh d i \<equiv> address (word_at sh d i)"

abbreviation wold :: "shared \<Rightarrow> u64 \<Rightarrow> nat \<Rightarrow> u64" where
  "wold sh d i \<equiv> old_value (word_at sh d i)"

abbreviation wnew :: "shared \<Rightarrow> u64 \<Rightarrow> nat \<Rightarrow> u64" where
  "wnew sh d i \<equiv> new_value (word_at sh d i)"

text \<open>A pointer to the descriptor, with or without the dirty bit.\<close>

definition is_mw :: "u64 \<Rightarrow> u64 \<Rightarrow> bool" where
  "is_mw d v \<longleftrightarrow> v = mwcas_descptr 0 d \<or> v = mwcas_descptr kDirtyFlag d"

text \<open>The value a word stands for.\<close>

definition interp :: "(u64 \<Rightarrow> u32) \<Rightarrow> shared \<Rightarrow> u64 \<Rightarrow> u64 \<Rightarrow> u64" where
  "interp stat sh a v =
     (if IsCondCASDescriptorPtr v then
        (case deref_word sh (CleanPtr v) of Some wd \<Rightarrow> old_value wd | None \<Rightarrow> 0)
      else if IsMwCASDescriptorPtr v then
        (case find (\<lambda>w. address w = a) (entries (descs sh (CleanPtr v))) of
           Some w \<Rightarrow> if stat (CleanPtr v) = kStatusSucceeded then new_value w else old_value w
         | None \<Rightarrow> 0)
      else CleanPtr v)"

definition abs_mem :: "shared \<Rightarrow> u64 \<Rightarrow> u64" where
  "abs_mem sh a = interp (st sh) sh a (mem sh a)"

definition pabs_mem :: "shared \<Rightarrow> u64 \<Rightarrow> u64" where
  "pabs_mem sh a = interp (pst sh) sh a (nvm sh a)"

section \<open>The invariant\<close>

definition pool_ok :: "u64 list \<Rightarrow> bool" where
  "pool_ok pl \<longleftrightarrow> distinct pl \<and> (\<forall>d \<in> set pl. d \<noteq> 0 \<and> IsCleanPtr d \<and>
     (\<forall>i < kMaxCount. IsCleanPtr (word_ptr d i) \<and> find_word pl (word_ptr d i) = Some (d, i) \<and>
        word_ptr d i \<notin> set pl))"

definition wf_status :: "u32 \<Rightarrow> bool" where
  "wf_status s \<longleftrightarrow> s = kStatusUndecided \<or> s = kStatusSucceeded \<or> s = kStatusFailed \<or>
     s = kStatusSucceeded OR kStatusDirtyFlag \<or> s = kStatusFailed OR kStatusDirtyFlag"

definition wf_word :: "shared \<Rightarrow> u64 \<Rightarrow> nat \<Rightarrow> bool" where
  "wf_word sh d i \<longleftrightarrow> ownDesc (word_at sh d i) = d \<and> waddr sh d i \<noteq> 0 \<and>
     app_value (pool sh) (wold sh d i) \<and> app_value (pool sh) (wnew sh d i)"

definition wf_active :: "shared \<Rightarrow> u64 \<Rightarrow> bool" where
  "wf_active sh d \<longleftrightarrow> wf_entries (descs sh d) \<and> (\<forall>i < count (descs sh d). wf_word sh d i) \<and>
     words (pdescs sh d) = words (descs sh d) \<and> count (pdescs sh d) = count (descs sh d) \<and>
     wf_status (status (descs sh d)) \<and> wf_status (status (pdescs sh d)) \<and>
     (pst sh d = kStatusUndecided \<or> pst sh d = st sh d)"

definition wf_idle :: "shared \<Rightarrow> u64 \<Rightarrow> bool" where
  "wf_idle sh d \<longleftrightarrow> status (descs sh d) = kStatusFinished \<and> count (descs sh d) = 0 \<and>
     length (words (descs sh d)) = kMaxCount \<and> status (pdescs sh d) = kStatusFinished"

definition plain :: "u64 list \<Rightarrow> u64 \<Rightarrow> bool" where
  "plain pl v \<longleftrightarrow> \<not> IsCondCASDescriptorPtr v \<and> \<not> IsMwCASDescriptorPtr v \<and>
     CleanPtr v \<notin> set pl \<and> find_word pl (CleanPtr v) = None"

definition good_word :: "shared \<Rightarrow> u64 \<Rightarrow> u64 \<Rightarrow> bool" where
  "good_word sh a v \<longleftrightarrow> plain (pool sh) v \<or>
     (\<exists>d i. target sh d i \<and> waddr sh d i = a \<and> (v = cond_descptr d i \<or> is_mw d v))"

definition desc_inv :: "shared \<Rightarrow> bool" where
  "desc_inv sh \<longleftrightarrow> pool_ok (pool sh) \<and>
     (\<forall>d \<in> set (pool sh). if active sh d then wf_active sh d else wf_idle sh d)"

definition word_inv :: "shared \<Rightarrow> bool" where
  "word_inv sh \<longleftrightarrow> (\<forall>a. good_word sh a (mem sh a) \<and> good_word sh a (nvm sh a) \<and>
     interp (pst sh) sh a (nvm sh a) = interp (pst sh) sh a (mem sh a))"

text \<open>
  Facts about one word of one active descriptor: no word descriptor of a successful operation is
  left in memory; an operation that has succeeded but whose status has not reached NVRAM still has
  all its pointers in place in both images; a pointer without the dirty bit has been persisted.
\<close>

definition slot_inv :: "shared \<Rightarrow> u64 \<Rightarrow> nat \<Rightarrow> bool" where
  "slot_inv sh d i \<longleftrightarrow> (let a = waddr sh d i in
     (mem sh a = cond_descptr d i \<longrightarrow> st sh d \<noteq> kStatusSucceeded) \<and>
     (nvm sh a = cond_descptr d i \<longrightarrow> pst sh d \<noteq> kStatusSucceeded) \<and>
     (st sh d = kStatusSucceeded \<and> pst sh d \<noteq> kStatusSucceeded \<longrightarrow>
        is_mw d (mem sh a) \<and> is_mw d (nvm sh a)) \<and>
     (st sh d = kStatusUndecided \<and> mem sh a = mwcas_descptr 0 d \<longrightarrow> is_mw d (nvm sh a)))"

definition proto_inv :: "shared \<Rightarrow> bool" where
  "proto_inv sh \<longleftrightarrow> desc_inv sh \<and> word_inv sh \<and> (\<forall>d i. target sh d i \<longrightarrow> slot_inv sh d i)"

section \<open>Statuses\<close>

lemma status_distinct [simp]:
  "kStatusUndecided \<noteq> kStatusSucceeded" "kStatusUndecided \<noteq> kStatusFailed"
  "kStatusSucceeded \<noteq> kStatusFailed" "kStatusFinished \<noteq> kStatusUndecided"
  "kStatusFinished \<noteq> kStatusSucceeded" "kStatusFinished \<noteq> kStatusFailed"
  "kStatusInvalid \<noteq> kStatusUndecided" "kStatusInvalid \<noteq> kStatusFinished"
  "kStatusInvalid \<noteq> kStatusSucceeded" "kStatusInvalid \<noteq> kStatusFailed"
  by (simp_all add: status_defs)

declare status_distinct [symmetric, simp]

lemma clean_status_simps [simp]:
  "clean_status kStatusUndecided = kStatusUndecided"
  "clean_status kStatusSucceeded = kStatusSucceeded"
  "clean_status kStatusFailed = kStatusFailed"
  "clean_status kStatusFinished = kStatusFinished"
  "clean_status kStatusInvalid = kStatusInvalid"
  "clean_status (kStatusSucceeded OR kStatusDirtyFlag) = kStatusSucceeded"
  "clean_status (kStatusFailed OR kStatusDirtyFlag) = kStatusFailed"
  by (simp_all add: clean_status_def status_defs kStatusDirtyFlag_def)

lemma status_dirty_simps [simp]:
  "kStatusUndecided AND kStatusDirtyFlag = 0"
  "kStatusSucceeded AND kStatusDirtyFlag = 0"
  "kStatusFailed AND kStatusDirtyFlag = 0"
  "kStatusFinished AND kStatusDirtyFlag = 0"
  "(s OR kStatusDirtyFlag) AND kStatusDirtyFlag = kStatusDirtyFlag"
  "kStatusDirtyFlag \<noteq> 0"
proof -
  show "(s OR kStatusDirtyFlag) AND kStatusDirtyFlag = kStatusDirtyFlag"
    by (auto simp: word_eq_bits bit_and_iff bit_or_iff)
qed (simp_all add: status_defs kStatusDirtyFlag_def)

lemma wf_status_cases:
  assumes "wf_status s"
  obtains "s = kStatusUndecided" | "clean_status s = kStatusSucceeded" | "clean_status s = kStatusFailed"
  using assms by (auto simp: wf_status_def)

lemma wf_status_clean: "wf_status s \<Longrightarrow> wf_status (clean_status s)"
  by (auto simp: wf_status_def)

lemma wf_status_undecided: "wf_status s \<Longrightarrow> clean_status s = kStatusUndecided \<longleftrightarrow> s = kStatusUndecided"
  by (auto simp: wf_status_def)

section \<open>Pointers\<close>

lemma mwcas_descptr_alt: "mwcas_descptr f d = (d OR kMwCASFlag) OR f"
  by (simp add: mwcas_descptr_def or.assoc)

lemma is_mw_tests:
  assumes "is_mw d v" and "IsCleanPtr d"
  shows "IsMwCASDescriptorPtr v" "\<not> IsCondCASDescriptorPtr v" "CleanPtr v = d"
  using assms by (auto simp: is_mw_def mwcas_descptr_alt)

lemma is_mw_iff:
  assumes "IsMwCASDescriptorPtr v" and "\<not> IsCondCASDescriptorPtr v"
  shows "is_mw (CleanPtr v) v"
  using assms by (rule mw_cases) (simp_all add: is_mw_def mwcas_descptr_def)

lemma is_mw_descptr [simp]: "is_mw d (mwcas_descptr 0 d)" "is_mw d (mwcas_descptr kDirtyFlag d)"
  by (simp_all add: is_mw_def)

lemma mwcas_descptr_dirty:
  assumes "IsCleanPtr d"
  shows "IsDirtyPtr (mwcas_descptr kDirtyFlag d)" "\<not> IsDirtyPtr (mwcas_descptr 0 d)"
    "ClearDirty (mwcas_descptr kDirtyFlag d) = mwcas_descptr 0 d"
    "ClearDirty (mwcas_descptr 0 d) = mwcas_descptr 0 d"
  using assms by (simp_all add: mwcas_descptr_alt)

lemma is_mw_ClearDirty: "is_mw d v \<Longrightarrow> IsCleanPtr d \<Longrightarrow> ClearDirty v = mwcas_descptr 0 d"
  by (auto simp: is_mw_def mwcas_descptr_dirty)

lemma is_mw_inj: "is_mw d v \<Longrightarrow> is_mw d' v \<Longrightarrow> IsCleanPtr d \<Longrightarrow> IsCleanPtr d' \<Longrightarrow> d = d'"
  using is_mw_tests(3) by blast

lemma cond_descptr_tests:
  assumes "IsCleanPtr (word_ptr d i)"
  shows "IsCondCASDescriptorPtr (cond_descptr d i)" "\<not> IsMwCASDescriptorPtr (cond_descptr d i)"
    "\<not> IsDirtyPtr (cond_descptr d i)" "CleanPtr (cond_descptr d i) = word_ptr d i"
  using assms by (simp_all add: cond_descptr_def)

section \<open>What the invariant says about one descriptor\<close>

lemma active_pool: "active sh d \<Longrightarrow> d \<in> set (pool sh)"
  by (simp add: active_def)

lemma decided_active: "d \<in> set (pool sh) \<Longrightarrow> decided sh d \<Longrightarrow> active sh d"
  by (auto simp: active_def decided_def)

lemma active_undecided: "active sh d \<Longrightarrow> \<not> decided sh d \<longleftrightarrow> st sh d = kStatusUndecided"
  by (auto simp: active_def decided_def)

lemma targetD:
  assumes "target sh d i"
  shows "active sh d" "i < count (descs sh d)" "d \<in> set (pool sh)"
  using assms by (simp_all add: target_def active_pool)

lemma desc_inv_active: "desc_inv sh \<Longrightarrow> active sh d \<Longrightarrow> wf_active sh d"
  by (auto simp: desc_inv_def active_pool)

lemma pool_cleanD:
  assumes "desc_inv sh" and "d \<in> set (pool sh)"
  shows "IsCleanPtr d" "d \<noteq> 0"
  using assms by (auto simp: desc_inv_def pool_ok_def)

lemma active_count: "desc_inv sh \<Longrightarrow> active sh d \<Longrightarrow> count (descs sh d) \<le> kMaxCount"
  using desc_inv_active by (auto simp: wf_active_def wf_entries_def)

lemma target_word:
  assumes "desc_inv sh" and "target sh d i"
  shows "IsCleanPtr (word_ptr d i)" "find_word (pool sh) (word_ptr d i) = Some (d, i)"
    "word_ptr d i \<notin> set (pool sh)" "wf_word sh d i"
proof -
  have "i < kMaxCount"
    using assms active_count [of sh d] targetD [OF assms(2)] by simp
  then show "IsCleanPtr (word_ptr d i)" "find_word (pool sh) (word_ptr d i) = Some (d, i)"
    "word_ptr d i \<notin> set (pool sh)"
    using assms targetD [OF assms(2)] by (auto simp: desc_inv_def pool_ok_def)
  show "wf_word sh d i"
    using desc_inv_active [OF assms(1)] targetD [OF assms(2)] by (simp add: wf_active_def)
qed

lemma target_values:
  assumes "desc_inv sh" and "target sh d i"
  shows "IsCleanPtr (wold sh d i)" "IsCleanPtr (wnew sh d i)" "ownDesc (word_at sh d i) = d"
    "waddr sh d i \<noteq> 0" "wold sh d i \<notin> set (pool sh)" "wnew sh d i \<notin> set (pool sh)"
    "find_word (pool sh) (wold sh d i) = None" "find_word (pool sh) (wnew sh d i) = None"
  using target_word(4) [OF assms] by (simp_all add: wf_word_def app_value_def)

lemma target_deref:
  assumes "desc_inv sh" and "target sh d i"
  shows "deref_word sh (CleanPtr (cond_descptr d i)) = Some (word_at sh d i)"
  using target_word [OF assms] by (simp add: deref_word_def cond_descptr_tests)

lemma cond_descptr_inj:
  assumes "desc_inv sh" and "target sh d i" and "target sh d' i'"
    and "cond_descptr d i = cond_descptr d' i'"
  shows "d = d'" "i = i'"
proof -
  have "word_ptr d i = CleanPtr (cond_descptr d i)"
    by (rule cond_descptr_tests(4) [symmetric, OF target_word(1) [OF assms(1,2)]])
  also have "\<dots> = CleanPtr (cond_descptr d' i')"
    by (simp only: assms(4))
  also have "\<dots> = word_ptr d' i'"
    by (rule cond_descptr_tests(4) [OF target_word(1) [OF assms(1,3)]])
  finally have "Some (d, i) = Some (d', i')"
    by (simp only: target_word(2) [OF assms(1,2), symmetric] target_word(2) [OF assms(1,3), symmetric])
  then show "d = d'" "i = i'" by simp_all
qed

lemma target_entry:
  assumes "desc_inv sh" and "target sh d i"
  shows "word_at sh d i = entries (descs sh d) ! i" "i < length (entries (descs sh d))"
  using desc_inv_active [OF assms(1) targetD(1) [OF assms(2)]] targetD(2) [OF assms(2)]
  by (auto simp: word_at_def entries_def wf_active_def wf_entries_def)

lemma target_addr_inj:
  assumes "desc_inv sh" and "target sh d i" and "target sh d j" and "waddr sh d i = waddr sh d j"
  shows "i = j"
proof (rule sorted_wrt_nth_eq [where f = address and xs = "entries (descs sh d)"])
  show "sorted_wrt (<) (map address (entries (descs sh d)))"
    using desc_inv_active [OF assms(1) targetD(1) [OF assms(2)]] by (simp add: wf_active_def wf_entries_def)
  show "address (entries (descs sh d) ! i) = address (entries (descs sh d) ! j)"
    using assms(4) target_entry(1) [OF assms(1,2)] target_entry(1) [OF assms(1,3)] by simp
qed (use target_entry(2) [OF assms(1,2)] target_entry(2) [OF assms(1,3)] in simp_all)

lemma target_find:
  assumes "desc_inv sh" and "target sh d i"
  shows "find (\<lambda>w. address w = waddr sh d i) (entries (descs sh d)) = Some (word_at sh d i)"
proof (rule find_unique)
  show "word_at sh d i \<in> set (entries (descs sh d))"
    using target_entry [OF assms] by simp
  fix w assume "w \<in> set (entries (descs sh d))" and eq: "address w = waddr sh d i"
  then obtain j where j: "j < length (entries (descs sh d))" "w = entries (descs sh d) ! j"
    by (metis in_set_conv_nth)
  then have t: "target sh d j" using assms(2) by (auto simp: target_def entries_def)
  then have "j = i"
    using target_addr_inj [OF assms(1) t assms(2)] eq j(2) target_entry(1) [OF assms(1) t] by simp
  then show "w = word_at sh d i" using j(2) target_entry(1) [OF assms] by simp
qed simp

section \<open>Interpretation of the three kinds of word\<close>

lemma interp_plain: "plain pl v \<Longrightarrow> interp f sh a v = CleanPtr v"
  by (simp add: interp_def plain_def)

lemma interp_cond:
  assumes "desc_inv sh" and "target sh d i"
  shows "interp f sh a (cond_descptr d i) = wold sh d i"
  using target_deref [OF assms] cond_descptr_tests [OF target_word(1) [OF assms]]
  by (simp add: interp_def)

lemma interp_mw:
  assumes "desc_inv sh" and "target sh d i" and "is_mw d v" and "waddr sh d i = a"
  shows "interp f sh a v = (if f d = kStatusSucceeded then wnew sh d i else wold sh d i)"
  using target_find [OF assms(1,2)] assms(4) is_mw_tests [OF assms(3)]
    pool_cleanD(1) [OF assms(1) targetD(3) [OF assms(2)]]
  by (simp add: interp_def)

lemma plain_clean:
  "IsCleanPtr v \<Longrightarrow> v \<notin> set pl \<Longrightarrow> find_word pl v = None \<Longrightarrow> plain pl v"
  "IsCleanPtr v \<Longrightarrow> v \<notin> set pl \<Longrightarrow> find_word pl v = None \<Longrightarrow> plain pl (v OR kDirtyFlag)"
  by (simp_all add: plain_def)

lemma plain_not_pointer:
  assumes "desc_inv sh" and "plain (pool sh) v" and "target sh d i"
  shows "v \<noteq> cond_descptr d i" "\<not> is_mw d v"
  using assms target_word(1) [OF assms(1,3)] pool_cleanD(1) [OF assms(1) targetD(3) [OF assms(3)]]
    cond_descptr_tests(1) is_mw_tests(1)
  by (auto simp: plain_def)

end
