(* ===== verification/Mwcas_Rely.thy ===== *)
theory Mwcas_Rely
  imports Mwcas_Protocol
begin

text \<open>
  The rely/guarantee relation of the protocol. \<open>proto\<close> lists the changes that an atomic access may
  make to the shared state: a write of a target word, a flush or an eviction, and the status
  changes of one descriptor. The theory shows that each of them keeps the invariant, what it does
  to the memory that the application sees, and which facts a thread may rely on while others move.
\<close>

section \<open>The allowed changes\<close>

definition write_ok :: "shared \<Rightarrow> u64 \<Rightarrow> u64 \<Rightarrow> bool" where
  "write_ok sh a v \<longleftrightarrow> good_word sh a v \<and>
     interp (st sh) sh a v = interp (st sh) sh a (mem sh a) \<and>
     interp (pst sh) sh a v = interp (pst sh) sh a (mem sh a) \<and>
     (\<forall>d i. target sh d i \<and> waddr sh d i = a \<longrightarrow>
        (v = cond_descptr d i \<longrightarrow> st sh d \<noteq> kStatusSucceeded) \<and>
        (is_mw d (mem sh a) \<longrightarrow> is_mw d v \<or> (decided sh d \<and> pst sh d = st sh d)) \<and>
        (mem sh a = cond_descptr d i \<longrightarrow> v = cond_descptr d i \<or> is_mw d v \<or> decided sh d) \<and>
        (v = mwcas_descptr 0 d \<longrightarrow> decided sh d \<or> is_mw d (nvm sh a)))"

definition all_installed :: "shared \<Rightarrow> u64 \<Rightarrow> bool" where
  "all_installed sh d \<longleftrightarrow>
     (\<forall>i < count (descs sh d). is_mw d (mem sh (waddr sh d i)) \<and> is_mw d (nvm sh (waddr sh d i)))"

inductive proto :: "shared \<Rightarrow> shared \<Rightarrow> bool" where
  p_skip: "proto sh sh"
| p_write: "write_ok sh a v \<Longrightarrow> proto sh (sh\<lparr>mem := (mem sh)(a := v)\<rparr>)"
| p_flush: "proto sh (flush_word sh a)"
| p_persist: "d \<in> set (pool sh) \<Longrightarrow> status P = status (descs sh d) \<Longrightarrow>
     (active sh d \<Longrightarrow> words P = words (descs sh d) \<and> count P = count (descs sh d)) \<Longrightarrow>
     proto sh (sh\<lparr>pdescs := (pdescs sh)(d := P)\<rparr>)"
| p_decide: "active sh d \<Longrightarrow> status (descs sh d) = kStatusUndecided \<Longrightarrow>
     s = kStatusSucceeded \<and> all_installed sh d \<or> s = kStatusFailed \<Longrightarrow>
     proto sh (set_status sh d (s OR kStatusDirtyFlag))"
| p_clear: "active sh d \<Longrightarrow> proto sh (set_status sh d (st sh d))"
| p_start: "d \<in> set (pool sh) \<Longrightarrow> \<not> active sh d \<Longrightarrow> status desc = kStatusUndecided \<Longrightarrow>
     sh' = sh\<lparr>descs := (descs sh)(d := desc), pdescs := (pdescs sh)(d := desc)\<rparr> \<Longrightarrow>
     wf_active sh' d \<Longrightarrow> proto sh sh'"

section \<open>Updates that leave the readings alone\<close>

lemma mem_update_simps [simp]:
  "st (sh\<lparr>mem := m\<rparr>) = st sh" "pst (sh\<lparr>mem := m\<rparr>) = pst sh"
  "active (sh\<lparr>mem := m\<rparr>) = active sh" "decided (sh\<lparr>mem := m\<rparr>) = decided sh"
  "target (sh\<lparr>mem := m\<rparr>) = target sh" "word_at (sh\<lparr>mem := m\<rparr>) = word_at sh"
  "interp f (sh\<lparr>mem := m\<rparr>) = interp f sh" "good_word (sh\<lparr>mem := m\<rparr>) = good_word sh"
  "wf_active (sh\<lparr>mem := m\<rparr>) = wf_active sh" "wf_idle (sh\<lparr>mem := m\<rparr>) = wf_idle sh"
  "desc_inv (sh\<lparr>mem := m\<rparr>) = desc_inv sh" "deref_word (sh\<lparr>mem := m\<rparr>) = deref_word sh"
  by (auto simp: fun_eq_iff st_def pst_def active_def decided_def target_def word_at_def interp_def
      good_word_def wf_active_def wf_word_def wf_idle_def desc_inv_def deref_word_def)

lemma nvm_update_simps [simp]:
  "st (sh\<lparr>nvm := m\<rparr>) = st sh" "pst (sh\<lparr>nvm := m\<rparr>) = pst sh"
  "active (sh\<lparr>nvm := m\<rparr>) = active sh" "decided (sh\<lparr>nvm := m\<rparr>) = decided sh"
  "target (sh\<lparr>nvm := m\<rparr>) = target sh" "word_at (sh\<lparr>nvm := m\<rparr>) = word_at sh"
  "interp f (sh\<lparr>nvm := m\<rparr>) = interp f sh" "good_word (sh\<lparr>nvm := m\<rparr>) = good_word sh"
  "wf_active (sh\<lparr>nvm := m\<rparr>) = wf_active sh" "wf_idle (sh\<lparr>nvm := m\<rparr>) = wf_idle sh"
  "desc_inv (sh\<lparr>nvm := m\<rparr>) = desc_inv sh" "deref_word (sh\<lparr>nvm := m\<rparr>) = deref_word sh"
  by (auto simp: fun_eq_iff st_def pst_def active_def decided_def target_def word_at_def interp_def
      good_word_def wf_active_def wf_word_def wf_idle_def desc_inv_def deref_word_def)

lemma pdescs_update_simps [simp]:
  "st (sh\<lparr>pdescs := m\<rparr>) = st sh"
  "active (sh\<lparr>pdescs := m\<rparr>) = active sh" "decided (sh\<lparr>pdescs := m\<rparr>) = decided sh"
  "target (sh\<lparr>pdescs := m\<rparr>) = target sh" "word_at (sh\<lparr>pdescs := m\<rparr>) = word_at sh"
  "interp f (sh\<lparr>pdescs := m\<rparr>) = interp f sh" "good_word (sh\<lparr>pdescs := m\<rparr>) = good_word sh"
  "wf_word (sh\<lparr>pdescs := m\<rparr>) = wf_word sh"
  by (auto simp: fun_eq_iff st_def active_def decided_def target_def word_at_def interp_def
      good_word_def wf_word_def deref_word_def)

lemma pst_pdescs_update: "pst (sh\<lparr>pdescs := (pdescs sh)(d := P)\<rparr>) = (pst sh)(d := clean_status (status P))"
  by (simp add: fun_eq_iff pst_def)

lemma set_status_simps [simp]:
  "mem (set_status sh d s) = mem sh" "nvm (set_status sh d s) = nvm sh"
  "pdescs (set_status sh d s) = pdescs sh" "pool (set_status sh d s) = pool sh"
  "pst (set_status sh d s) = pst sh" "word_at (set_status sh d s) = word_at sh"
  "count (descs (set_status sh d s) x) = count (descs sh x)"
  "words (descs (set_status sh d s) x) = words (descs sh x)"
  "status (descs (set_status sh d s) x) = (if x = d then s else status (descs sh x))"
  "interp f (set_status sh d s) = interp f sh" "wf_word (set_status sh d s) = wf_word sh"
  "entries (descs (set_status sh d s) x) = entries (descs sh x)"
  by (auto simp: fun_eq_iff set_status_def pst_def word_at_def interp_def deref_word_def wf_word_def
      entries_def split: option.split)

lemma st_set_status: "st (set_status sh d s) = (st sh)(d := clean_status s)"
  by (simp add: fun_eq_iff st_def)

section \<open>Preservation of the invariant\<close>

lemma proto_invI:
  assumes "desc_inv sh" and "\<And>a. good_word sh a (mem sh a)" and "\<And>a. good_word sh a (nvm sh a)"
    and "\<And>a. interp (pst sh) sh a (nvm sh a) = interp (pst sh) sh a (mem sh a)"
    and "\<And>d i. target sh d i \<Longrightarrow> slot_inv sh d i"
  shows "proto_inv sh"
  using assms by (simp add: proto_inv_def word_inv_def)

lemma proto_invD:
  assumes "proto_inv sh"
  shows "desc_inv sh" "good_word sh a (mem sh a)" "good_word sh a (nvm sh a)"
    "interp (pst sh) sh a (nvm sh a) = interp (pst sh) sh a (mem sh a)"
    "target sh d i \<Longrightarrow> slot_inv sh d i"
  using assms by (simp_all add: proto_inv_def word_inv_def)

lemma active_pst: "desc_inv sh \<Longrightarrow> active sh d \<Longrightarrow> pst sh d = kStatusUndecided \<or> pst sh d = st sh d"
  using desc_inv_active by (simp add: wf_active_def)

lemma slot_invD:
  assumes "proto_inv sh" and "target sh d i" and "waddr sh d i = a"
  shows "mem sh a = cond_descptr d i \<Longrightarrow> st sh d \<noteq> kStatusSucceeded"
    "nvm sh a = cond_descptr d i \<Longrightarrow> pst sh d \<noteq> kStatusSucceeded"
    "st sh d = kStatusSucceeded \<Longrightarrow> pst sh d \<noteq> kStatusSucceeded \<Longrightarrow> is_mw d (mem sh a) \<and> is_mw d (nvm sh a)"
    "st sh d = kStatusUndecided \<Longrightarrow> mem sh a = mwcas_descptr 0 d \<Longrightarrow> is_mw d (nvm sh a)"
  using proto_invD(5) [OF assms(1,2)] assms(3) by (auto simp: slot_inv_def Let_def)

lemma write_inv:
  assumes inv: "proto_inv sh" and ok: "write_ok sh a v"
  shows "proto_inv (sh\<lparr>mem := (mem sh)(a := v)\<rparr>)" (is "proto_inv ?sh'")
proof (rule proto_invI)
  fix d i assume "target ?sh' d i"
  then have t: "target sh d i" by simp
  show "slot_inv ?sh' d i"
  proof (cases "waddr sh d i = a")
    case True
    with ok t have w: "v = cond_descptr d i \<longrightarrow> st sh d \<noteq> kStatusSucceeded"
      "is_mw d (mem sh a) \<longrightarrow> is_mw d v \<or> (decided sh d \<and> pst sh d = st sh d)"
      "v = mwcas_descptr 0 d \<longrightarrow> decided sh d \<or> is_mw d (nvm sh a)"
      by (auto simp: write_ok_def)
    show ?thesis using w slot_invD [OF inv t True] True
      by (auto simp: slot_inv_def Let_def decided_def)
  next
    case False
    then show ?thesis using slot_invD [OF inv t refl] by (auto simp: slot_inv_def Let_def)
  qed
qed (use ok proto_invD [OF inv] in \<open>auto simp: write_ok_def\<close>)

lemma flush_inv:
  assumes inv: "proto_inv sh"
  shows "proto_inv (flush_word sh a)"
proof (rule proto_invI)
  fix d i assume "target (flush_word sh a) d i"
  then have t: "target sh d i" by (simp add: flush_word_def)
  have "pst sh d = kStatusUndecided \<or> pst sh d = st sh d"
    by (rule active_pst [OF proto_invD(1) [OF inv] targetD(1) [OF t]])
  then show "slot_inv (flush_word sh a) d i"
    using slot_invD [OF inv t refl] by (auto simp: slot_inv_def Let_def flush_word_def)
qed (use proto_invD [OF inv] in \<open>auto simp: flush_word_def\<close>)

text \<open>Interpretation depends on the statuses only through the descriptor a word points to.\<close>

lemma interp_stat_cong:
  assumes "IsMwCASDescriptorPtr v \<Longrightarrow> \<not> IsCondCASDescriptorPtr v \<Longrightarrow>
    (f (CleanPtr v) = kStatusSucceeded) = (g (CleanPtr v) = kStatusSucceeded)"
  shows "interp f sh a v = interp g sh a v"
  using assms by (auto simp: interp_def split: option.split)

text \<open>The persisted status of one descriptor catches up with its status.\<close>

lemma interp_catch_up:
  assumes inv: "proto_inv sh"
  shows "interp ((pst sh)(d := st sh d)) sh a (nvm sh a) = interp ((pst sh)(d := st sh d)) sh a (mem sh a)"
    (is "interp ?f sh a _ = _")
proof (cases "active sh d \<and> st sh d = kStatusSucceeded \<and> pst sh d \<noteq> kStatusSucceeded \<and>
    (\<exists>i. target sh d i \<and> waddr sh d i = a)")
  case True
  then obtain i where t: "target sh d i" "waddr sh d i = a" by blast
  have "is_mw d (mem sh a) \<and> is_mw d (nvm sh a)"
    using slot_invD(3) [OF inv t] True by blast
  then show ?thesis
    using interp_mw [OF proto_invD(1) [OF inv] t(1) _ t(2)] by simp
next
  case False
  have cong: "interp ?f sh a v = interp (pst sh) sh a v" if good: "good_word sh a v" for v
  proof (rule interp_stat_cong)
    assume mw: "IsMwCASDescriptorPtr v" "\<not> IsCondCASDescriptorPtr v"
    show "(?f (CleanPtr v) = kStatusSucceeded) = (pst sh (CleanPtr v) = kStatusSucceeded)"
    proof (cases "CleanPtr v = d")
      case True
      obtain d' i where t: "target sh d' i" "waddr sh d' i = a" "v = cond_descptr d' i \<or> is_mw d' v"
        using good mw by (auto simp: good_word_def plain_def)
      have dinv: "desc_inv sh" by (rule proto_invD(1) [OF inv])
      have "is_mw d' v"
        using t(3) mw cond_descptr_tests(1) [OF target_word(1) [OF dinv t(1)]] by auto
      then have "d' = d"
        using True is_mw_tests(3) pool_cleanD(1) [OF dinv targetD(3) [OF t(1)]] by auto
      then show ?thesis
        using False True t active_pst [OF dinv targetD(1) [OF t(1)]] targetD(1) [OF t(1)] by auto
    qed simp
  qed
  show ?thesis
    using cong [OF proto_invD(2) [OF inv]] cong [OF proto_invD(3) [OF inv]] proto_invD(4) [OF inv]
    by simp
qed

lemma persist_inv:
  assumes inv: "proto_inv sh" and d: "d \<in> set (pool sh)" and P: "status P = status (descs sh d)"
    and w: "active sh d \<Longrightarrow> words P = words (descs sh d) \<and> count P = count (descs sh d)"
  shows "proto_inv (sh\<lparr>pdescs := (pdescs sh)(d := P)\<rparr>)" (is "proto_inv ?sh'")
proof (rule proto_invI)
  have dinv: "desc_inv sh" by (rule proto_invD(1) [OF inv])
  have pst': "pst ?sh' = (pst sh)(d := st sh d)"
    by (simp add: pst_pdescs_update P st_def)
  show "desc_inv ?sh'"
    unfolding desc_inv_def
  proof (intro conjI ballI)
    show "pool_ok (pool ?sh')" using dinv by (simp add: desc_inv_def)
    fix x assume x: "x \<in> set (pool ?sh')"
    show "if active ?sh' x then wf_active ?sh' x else wf_idle ?sh' x"
      using dinv x P w by (auto simp: desc_inv_def wf_active_def wf_idle_def pst' split: if_splits)
  qed
  show "interp (pst ?sh') ?sh' a (nvm ?sh' a) = interp (pst ?sh') ?sh' a (mem ?sh' a)" for a
    using interp_catch_up [OF inv] by (simp add: pst')
  fix x i assume "target ?sh' x i"
  then have t: "target sh x i" by simp
  show "slot_inv ?sh' x i"
    using slot_invD [OF inv t refl] active_pst [OF dinv targetD(1) [OF t]]
      is_mw_tests(2) [OF _ pool_cleanD(1) [OF dinv targetD(3) [OF t]]]
      cond_descptr_tests(1) [OF target_word(1) [OF dinv t]]
    by (auto simp: slot_inv_def Let_def pst')
qed (use proto_invD [OF inv] in simp_all)

text \<open>A status change that keeps a descriptor active changes no target and no word.\<close>

lemma active_set_status:
  assumes "active sh d" and "clean_status s = kStatusUndecided \<or> clean_status s = kStatusSucceeded \<or>
    clean_status s = kStatusFailed"
  shows "active (set_status sh d s) = active sh" "target (set_status sh d s) = target sh"
    "good_word (set_status sh d s) = good_word sh"
  using assms by (auto simp: fun_eq_iff active_def target_def good_word_def st_set_status)

lemma desc_inv_set_status:
  assumes dinv: "desc_inv sh" and act: "active sh d" and s: "wf_status s"
    and p: "pst sh d = kStatusUndecided \<or> pst sh d = clean_status s"
  shows "desc_inv (set_status sh d s)"
proof -
  have act': "active (set_status sh d s) = active sh"
    using act s by (intro active_set_status) (auto simp: wf_status_def)
  show ?thesis
    using dinv s p act unfolding desc_inv_def
    by (auto simp: act' wf_active_def wf_idle_def wf_entries_def st_set_status)
qed

lemma decide_inv:
  assumes inv: "proto_inv sh" and act: "active sh d" and u: "status (descs sh d) = kStatusUndecided"
    and s: "s = kStatusSucceeded \<and> all_installed sh d \<or> s = kStatusFailed"
  shows "proto_inv (set_status sh d (s OR kStatusDirtyFlag))" (is "proto_inv ?sh'")
proof (rule proto_invI)
  have dinv: "desc_inv sh" by (rule proto_invD(1) [OF inv])
  have cs: "clean_status (s OR kStatusDirtyFlag) = s" using s by auto
  have pu: "pst sh d = kStatusUndecided"
    using active_pst [OF dinv act] u by (auto simp: st_def)
  have "clean_status (s OR kStatusDirtyFlag) = kStatusUndecided \<or>
      clean_status (s OR kStatusDirtyFlag) = kStatusSucceeded \<or>
      clean_status (s OR kStatusDirtyFlag) = kStatusFailed"
    using s by auto
  note simps = active_set_status [OF act this] st_set_status cs
  show "desc_inv ?sh'"
    using s pu by (intro desc_inv_set_status [OF dinv act]) (auto simp: wf_status_def)
  show "good_word ?sh' a (mem ?sh' a)" "good_word ?sh' a (nvm ?sh' a)" for a
    using proto_invD(2,3) [OF inv] by (simp_all add: simps)
  show "interp (pst ?sh') ?sh' a (nvm ?sh' a) = interp (pst ?sh') ?sh' a (mem ?sh' a)" for a
    using proto_invD(4) [OF inv] by simp
  fix x i assume "target ?sh' x i"
  then have t: "target sh x i" using s by (auto simp: simps)
  show "slot_inv ?sh' x i"
  proof (cases "x = d")
    case True
    have "\<not> is_mw d (cond_descptr d i)"
      using cond_descptr_tests(1) [OF target_word(1) [OF dinv t]] True
        is_mw_tests(2) [OF _ pool_cleanD(1) [OF dinv active_pool [OF act]]] by auto
    then show ?thesis
      using True s pu targetD(2) [OF t]
      by (auto simp: slot_inv_def Let_def simps all_installed_def)
  next
    case False
    then show ?thesis
      using slot_invD [OF inv t refl] by (auto simp: slot_inv_def Let_def simps)
  qed
qed

lemma active_st_cases:
  assumes "desc_inv sh" and "active sh d"
  shows "wf_status (st sh d)" "clean_status (st sh d) = st sh d"
    "clean_status (st sh d) = kStatusUndecided \<or> clean_status (st sh d) = kStatusSucceeded \<or>
      clean_status (st sh d) = kStatusFailed"
  using assms(2) by (auto simp: active_def wf_status_def)

lemma good_word_clear_status:
  assumes "desc_inv sh" and "active sh d"
  shows "good_word (set_status sh d (st sh d)) = good_word sh"
  by (rule active_set_status(3) [OF assms(2) active_st_cases(3) [OF assms]])

lemma clear_inv:
  assumes inv: "proto_inv sh" and act: "active sh d"
  shows "proto_inv (set_status sh d (st sh d))" (is "proto_inv ?sh'")
proof (rule proto_invI)
  have dinv: "desc_inv sh" by (rule proto_invD(1) [OF inv])
  note wf = active_st_cases [OF dinv act]
  have st': "st ?sh' = st sh" using wf(2) by (simp add: st_set_status fun_eq_iff)
  note simps = active_set_status [OF act wf(3)] st'
  show "desc_inv ?sh'"
    using active_pst [OF dinv act] wf by (intro desc_inv_set_status [OF dinv act]) auto
  fix x i assume "target ?sh' x i"
  then have "target sh x i" by (simp add: simps)
  from slot_invD [OF inv this refl] show "slot_inv ?sh' x i"
    by (auto simp: slot_inv_def Let_def simps)
qed (use proto_invD [OF inv] in \<open>simp_all add: good_word_clear_status [OF proto_invD(1) [OF inv] act]\<close>)


text \<open>A descriptor nobody has seen becomes active.\<close>

lemma start_readings:
  assumes idle: "\<not> active sh d" and d: "d \<in> set (pool sh)" and u: "status desc = kStatusUndecided"
    and sh': "sh' = sh\<lparr>descs := (descs sh)(d := desc), pdescs := (pdescs sh)(d := desc)\<rparr>"
  shows "mem sh' = mem sh" "nvm sh' = nvm sh" "pool sh' = pool sh"
    "active sh' x \<longleftrightarrow> x = d \<or> active sh x" "target sh x i \<Longrightarrow> target sh' x i"
    "x \<noteq> d \<Longrightarrow> word_at sh' x i = word_at sh x i" "x \<noteq> d \<Longrightarrow> target sh' x i = target sh x i"
    "st sh' = (st sh)(d := kStatusUndecided)" "pst sh' = (pst sh)(d := kStatusUndecided)"
    "x \<noteq> d \<Longrightarrow> descs sh' x = descs sh x" "x \<noteq> d \<Longrightarrow> pdescs sh' x = pdescs sh x"
  using idle d u by (auto simp: sh' active_def target_def word_at_def st_def pst_def fun_eq_iff)

lemma start_good_word:
  assumes idle: "\<not> active sh d" and d: "d \<in> set (pool sh)" and u: "status desc = kStatusUndecided"
    and sh': "sh' = sh\<lparr>descs := (descs sh)(d := desc), pdescs := (pdescs sh)(d := desc)\<rparr>"
    and good: "good_word sh a v"
  shows "good_word sh' a v"
proof -
  note r = start_readings [OF idle d u sh']
  from good consider (plain) "plain (pool sh) v"
    | (ptr) x i where "target sh x i" "waddr sh x i = a" "v = cond_descptr x i \<or> is_mw x v"
    by (auto simp: good_word_def)
  then show ?thesis
  proof cases
    case plain
    then show ?thesis by (simp add: good_word_def r)
  next
    case (ptr x i)
    have "x \<noteq> d" using targetD(1) [OF ptr(1)] idle by auto
    then have "target sh' x i \<and> waddr sh' x i = a \<and> (v = cond_descptr x i \<or> is_mw x v)"
      using ptr r(5,6) by simp
    then show ?thesis unfolding good_word_def by blast
  qed
qed

lemma start_interp:
  assumes dinv: "desc_inv sh" and dinv': "desc_inv sh'"
    and idle: "\<not> active sh d" and d: "d \<in> set (pool sh)" and u: "status desc = kStatusUndecided"
    and sh': "sh' = sh\<lparr>descs := (descs sh)(d := desc), pdescs := (pdescs sh)(d := desc)\<rparr>"
    and good: "good_word sh a v" and f: "\<And>x. x \<noteq> d \<Longrightarrow> f x = g x"
  shows "interp f sh' a v = interp g sh a v"
proof -
  note r = start_readings [OF idle d u sh']
  from good consider (plain) "plain (pool sh) v"
    | (ptr) x i where "target sh x i" "waddr sh x i = a" "v = cond_descptr x i \<or> is_mw x v"
    by (auto simp: good_word_def)
  then show ?thesis
  proof cases
    case plain
    then show ?thesis by (simp add: interp_plain)
  next
    case (ptr x i)
    have x: "x \<noteq> d" using targetD(1) [OF ptr(1)] idle by auto
    note t' = r(5) [OF ptr(1)]
    from ptr(3) show ?thesis
    proof
      assume "v = cond_descptr x i"
      then show ?thesis using interp_cond [OF dinv ptr(1)] interp_cond [OF dinv' t'] r(6) [OF x] by simp
    next
      assume "is_mw x v"
      then show ?thesis
        using interp_mw [OF dinv ptr(1) _ ptr(2)] interp_mw [OF dinv' t'] ptr(2) r(6) [OF x] f [OF x] by simp
    qed
  qed
qed

lemma fresh_not_referenced:
  assumes dinv: "desc_inv sh" and idle: "\<not> active sh d" and d: "d \<in> set (pool sh)"
    and good: "good_word sh a v"
  shows "\<not> is_mw d v"
proof
  assume mw: "is_mw d v"
  note tests = is_mw_tests [OF mw pool_cleanD(1) [OF dinv d]]
  from good tests obtain x i where x: "target sh x i" "v = cond_descptr x i \<or> is_mw x v"
    by (auto simp: good_word_def plain_def)
  then have "is_mw x v"
    using tests cond_descptr_tests(1) [OF target_word(1) [OF dinv x(1)]] by auto
  then have "x = d"
    using is_mw_inj [OF _ mw] pool_cleanD(1) [OF dinv] targetD(3) [OF x(1)] d by blast
  then show False using targetD(1) [OF x(1)] idle by simp
qed

lemma start_inv:
  assumes inv: "proto_inv sh" and d: "d \<in> set (pool sh)" and idle: "\<not> active sh d"
    and u: "status desc = kStatusUndecided"
    and sh': "sh' = sh\<lparr>descs := (descs sh)(d := desc), pdescs := (pdescs sh)(d := desc)\<rparr>"
    and wf: "wf_active sh' d"
  shows "proto_inv sh'"
proof (rule proto_invI)
  note r = start_readings [OF idle d u sh'] and dinv = proto_invD(1) [OF inv]
  show dinv': "desc_inv sh'"
    unfolding desc_inv_def
  proof (intro conjI ballI)
    show "pool_ok (pool sh')" using dinv by (simp add: desc_inv_def r)
    fix x assume "x \<in> set (pool sh')"
    then show "if active sh' x then wf_active sh' x else wf_idle sh' x"
      using dinv wf r by (cases "x = d")
        (auto simp: desc_inv_def wf_active_def wf_idle_def wf_word_def)
  qed
  show good: "good_word sh' a (mem sh' a)" "good_word sh' a (nvm sh' a)" for a
    using start_good_word [OF idle d u sh'] proto_invD(2,3) [OF inv] by (simp_all add: r)
  show "interp (pst sh') sh' a (nvm sh' a) = interp (pst sh') sh' a (mem sh' a)" for a
    using start_interp [OF dinv dinv' idle d u sh', where g = "pst sh"] proto_invD(2-4) [OF inv]
    by (simp add: r)
  fix x i assume t: "target sh' x i"
  show "slot_inv sh' x i"
  proof (cases "x = d")
    case True
    then show ?thesis
      using fresh_not_referenced [OF dinv idle d proto_invD(2) [OF inv]]
      by (auto simp: slot_inv_def Let_def r is_mw_def)
  next
    case False
    then have "target sh x i" using t r(7) by simp
    then show ?thesis
      using slot_invD [OF inv _ refl] False by (auto simp: slot_inv_def Let_def r)
  qed
qed

theorem proto_preserves_inv: "proto sh sh' \<Longrightarrow> proto_inv sh \<Longrightarrow> proto_inv sh'"
  by (induction rule: proto.induct)
    (auto intro: write_inv flush_inv persist_inv decide_inv clear_inv start_inv)

end
