(* ===== verification/Mwcas_Abs.thy ===== *)
theory Mwcas_Abs
  imports Mwcas_Rely
begin

text \<open>
  What the allowed changes do to the memory the application sees and to the memory a crash would
  leave behind. The specification is an atomic multi-word CAS on a plain memory: \<open>matches\<close> says
  that every word holds its expected value, \<open>apply_words\<close> stores all the new values at once.
\<close>

section \<open>The atomic specification\<close>

definition matches :: "word_desc list \<Rightarrow> (u64 \<Rightarrow> u64) \<Rightarrow> bool" where
  "matches ws m \<longleftrightarrow> list_all (\<lambda>w. m (address w) = old_value w) ws"

definition apply_words :: "word_desc list \<Rightarrow> (u64 \<Rightarrow> u64) \<Rightarrow> u64 \<Rightarrow> u64" where
  "apply_words ws m a =
     (case find (\<lambda>w. address w = a) ws of Some w \<Rightarrow> new_value w | None \<Rightarrow> m a)"

text \<open>The specification as a function: all the words or none.\<close>

definition mwcas_spec :: "word_desc list \<Rightarrow> (u64 \<Rightarrow> u64) \<Rightarrow> bool \<times> (u64 \<Rightarrow> u64)" where
  "mwcas_spec ws m = (if matches ws m then (True, apply_words ws m) else (False, m))"

lemma find_entry:
  assumes "desc_inv sh" and "active sh d"
  obtains (at) i where "target sh d i" "waddr sh d i = a"
      "find (\<lambda>w. address w = a) (entries (descs sh d)) = Some (word_at sh d i)"
    | (away) "\<And>i. target sh d i \<Longrightarrow> waddr sh d i \<noteq> a"
      "find (\<lambda>w. address w = a) (entries (descs sh d)) = None"
proof (cases "\<exists>i. target sh d i \<and> waddr sh d i = a")
  case True
  then obtain i where t: "target sh d i" "waddr sh d i = a" by blast
  show thesis using at [OF t] target_find [OF assms(1) t(1)] t(2) by simp
next
  case False
  have "find (\<lambda>w. address w = a) (entries (descs sh d)) = None"
  proof (rule ccontr)
    assume "find (\<lambda>w. address w = a) (entries (descs sh d)) \<noteq> None"
    then obtain w where "w \<in> set (entries (descs sh d))" "address w = a"
      by (auto simp: find_None_iff)
    then obtain i where "i < count (descs sh d)" "address (words (descs sh d) ! i) = a"
      by (auto simp: entries_def in_set_conv_nth)
    then show False using False assms(2) by (auto simp: target_def word_at_def)
  qed
  then show thesis using away False by blast
qed

lemma matches_iff:
  assumes "desc_inv sh" and "active sh d"
  shows "matches (entries (descs sh d)) m \<longleftrightarrow> (\<forall>i. target sh d i \<longrightarrow> m (waddr sh d i) = wold sh d i)"
proof -
  have len: "length (entries (descs sh d)) = count (descs sh d)"
    using desc_inv_active [OF assms] entries_length by (simp add: wf_active_def)
  show ?thesis
    using target_entry(1) [OF assms(1)] assms(2) len
    by (auto simp: matches_def list_all_length target_def)
qed

section \<open>One operation takes effect\<close>

text \<open>
  When the status of one operation turns to success in either image, and every word of it holds a
  pointer to it there, all of its words change from the old to the new value and nothing else does.
\<close>

lemma commit_interp:
  assumes dinv: "desc_inv sh" and act: "active sh d" and f: "f d \<noteq> kStatusSucceeded"
    and good: "\<And>a. good_word sh a (m a)"
    and inst: "\<And>i. target sh d i \<Longrightarrow> is_mw d (m (waddr sh d i))"
  shows "matches (entries (descs sh d)) (\<lambda>a. interp f sh a (m a))"
    and "(\<lambda>a. interp (f(d := kStatusSucceeded)) sh a (m a)) =
           apply_words (entries (descs sh d)) (\<lambda>a. interp f sh a (m a))"
proof -
  show "matches (entries (descs sh d)) (\<lambda>a. interp f sh a (m a))"
    unfolding matches_iff [OF dinv act]
    using interp_mw [OF dinv _ inst refl] f by simp
  show "(\<lambda>a. interp (f(d := kStatusSucceeded)) sh a (m a)) =
      apply_words (entries (descs sh d)) (\<lambda>a. interp f sh a (m a))"
  proof
    fix a
    show "interp (f(d := kStatusSucceeded)) sh a (m a) =
        apply_words (entries (descs sh d)) (\<lambda>a. interp f sh a (m a)) a"
      using dinv act
    proof (cases rule: find_entry [where a = a])
      case (at i)
      then show ?thesis
        using interp_mw [OF dinv at(1) _ at(2), of "m a" "f(d := kStatusSucceeded)"] inst [OF at(1)]
        by (simp add: apply_words_def)
    next
      case away
      have "interp (f(d := kStatusSucceeded)) sh a (m a) = interp f sh a (m a)"
      proof (rule interp_stat_cong)
        assume mw: "IsMwCASDescriptorPtr (m a)" "\<not> IsCondCASDescriptorPtr (m a)"
        obtain x i where t: "target sh x i" "waddr sh x i = a" "m a = cond_descptr x i \<or> is_mw x (m a)"
          using good [of a] mw by (auto simp: good_word_def plain_def)
        then have "is_mw x (m a)"
          using mw cond_descptr_tests(1) [OF target_word(1) [OF dinv t(1)]] by auto
        then have "CleanPtr (m a) = x"
          by (rule is_mw_tests(3) [OF _ pool_cleanD(1) [OF dinv targetD(3) [OF t(1)]]])
        then show "((f(d := kStatusSucceeded)) (CleanPtr (m a)) = kStatusSucceeded) =
            (f (CleanPtr (m a)) = kStatusSucceeded)"
          using away(1) t by auto
      qed
      then show ?thesis using away(2) by (simp add: apply_words_def)
    qed
  qed
qed

definition commits :: "shared \<Rightarrow> shared \<Rightarrow> u64 \<Rightarrow> bool" where
  "commits sh sh' d \<longleftrightarrow> active sh d \<and> st sh d = kStatusUndecided \<and> st sh' d = kStatusSucceeded \<and>
     matches (entries (descs sh d)) (abs_mem sh) \<and>
     abs_mem sh' = apply_words (entries (descs sh d)) (abs_mem sh)"

definition persists :: "shared \<Rightarrow> shared \<Rightarrow> u64 \<Rightarrow> bool" where
  "persists sh sh' d \<longleftrightarrow> active sh d \<and> pst sh d = kStatusUndecided \<and> st sh d = kStatusSucceeded \<and>
     pst sh' d = kStatusSucceeded \<and> matches (entries (descs sh d)) (pabs_mem sh) \<and>
     pabs_mem sh' = apply_words (entries (descs sh d)) (pabs_mem sh)"

text \<open>The memory the application sees changes only when one operation takes effect.\<close>

lemma decide_abs:
  assumes inv: "proto_inv sh" and act: "active sh d" and u: "status (descs sh d) = kStatusUndecided"
    and s: "s = kStatusSucceeded \<and> all_installed sh d \<or> s = kStatusFailed"
  shows "abs_mem (set_status sh d (s OR kStatusDirtyFlag)) = abs_mem sh \<or>
    commits sh (set_status sh d (s OR kStatusDirtyFlag)) d"
  using s
proof
  assume F: "s = kStatusFailed"
  have "abs_mem (set_status sh d (s OR kStatusDirtyFlag)) a = abs_mem sh a" for a
    unfolding abs_mem_def set_status_simps
    by (rule interp_stat_cong) (use u F in \<open>auto simp: st_set_status st_def\<close>)
  then show ?thesis by blast
next
  assume S: "s = kStatusSucceeded \<and> all_installed sh d"
  have su: "st sh d = kStatusUndecided" using u by (simp add: st_def)
  have eq: "abs_mem (set_status sh d (s OR kStatusDirtyFlag)) =
      (\<lambda>a. interp ((st sh)(d := kStatusSucceeded)) sh a (mem sh a))"
    using S by (simp add: fun_eq_iff abs_mem_def st_set_status)
  have inst: "is_mw d (mem sh (waddr sh d i))" if "target sh d i" for i
    using S that by (auto simp: all_installed_def target_def)
  have abs: "abs_mem sh = (\<lambda>a. interp (st sh) sh a (mem sh a))"
    by (simp add: fun_eq_iff abs_mem_def)
  have "commits sh (set_status sh d (s OR kStatusDirtyFlag)) d"
    using commit_interp [OF proto_invD(1) [OF inv] act _ proto_invD(2) [OF inv] inst, of "st sh"]
      S act su unfolding commits_def eq abs by (simp add: st_set_status)
  then show ?thesis ..
qed

theorem proto_abs:
  assumes "proto sh sh'" and inv: "proto_inv sh"
  shows "abs_mem sh' = abs_mem sh \<or> (\<exists>d. commits sh sh' d)"
  using assms
proof (induction rule: proto.induct)
  case (p_write sh a v)
  then show ?case by (auto simp: write_ok_def abs_mem_def fun_eq_iff)
next
  case (p_flush sh a)
  then show ?case by (simp add: fun_eq_iff abs_mem_def flush_word_def)
next
  case (p_persist d sh P)
  then show ?case by (simp add: fun_eq_iff abs_mem_def)
next
  case (p_decide sh d s)
  then show ?case using decide_abs by blast
next
  case (p_clear sh d)
  have "st (set_status sh d (st sh d)) = st sh"
    using active_st_cases(2) [OF proto_invD(1) [OF p_clear(2)] p_clear(1)] by (simp add: st_set_status)
  then have "abs_mem (set_status sh d (st sh d)) = abs_mem sh"
    by (intro ext) (simp add: abs_mem_def)
  then show ?case ..
next
  case (p_start d sh desc sh')
  note r = start_readings [OF p_start(2,1,3,4)]
  have "interp (st sh') sh' a (mem sh a) = interp (st sh) sh a (mem sh a)" for a
    using start_inv [OF p_start(6,1,2,3,4,5)] p_start(6)
    by (intro start_interp [OF _ _ p_start(2,1,3,4)]) (auto simp: proto_invD r)
  then show ?case by (simp add: fun_eq_iff abs_mem_def r)
qed simp

text \<open>So does the memory that a crash leaves to recovery.\<close>

lemma persist_pabs:
  assumes inv: "proto_inv sh" and d: "d \<in> set (pool sh)" and P: "status P = status (descs sh d)"
  shows "pabs_mem (sh\<lparr>pdescs := (pdescs sh)(d := P)\<rparr>) = pabs_mem sh \<or>
    persists sh (sh\<lparr>pdescs := (pdescs sh)(d := P)\<rparr>) d" (is "pabs_mem ?sh' = _ \<or> _")
proof -
  have pst': "pst ?sh' = (pst sh)(d := st sh d)" by (simp add: pst_pdescs_update P st_def)
  have eq: "pabs_mem ?sh' = (\<lambda>a. interp ((pst sh)(d := st sh d)) sh a (nvm sh a))"
    by (simp add: fun_eq_iff pabs_mem_def pst')
  have abs: "pabs_mem sh = (\<lambda>a. interp (pst sh) sh a (nvm sh a))"
    by (simp add: fun_eq_iff pabs_mem_def)
  show ?thesis
  proof (cases "active sh d \<and> st sh d = kStatusSucceeded \<and> pst sh d \<noteq> kStatusSucceeded")
    case True
    then have act: "active sh d" and s: "st sh d = kStatusSucceeded" "pst sh d \<noteq> kStatusSucceeded"
      by auto
    have inst: "is_mw d (nvm sh (waddr sh d i))" if "target sh d i" for i
      using slot_invD(3) [OF inv that refl] s by blast
    note c = commit_interp [where f = "pst sh" and m = "nvm sh",
        OF proto_invD(1) [OF inv] act s(2) proto_invD(3) [OF inv] inst]
    have "pst sh d = kStatusUndecided"
      using active_pst [OF proto_invD(1) [OF inv] act] s by auto
    then have "persists sh ?sh' d"
      using c act s unfolding persists_def eq abs by (simp add: pst')
    then show ?thesis ..
  next
    case False
    have "(((pst sh)(d := st sh d)) x = kStatusSucceeded) = (pst sh x = kStatusSucceeded)" for x
    proof (cases "x = d \<and> active sh d")
      case True
      then show ?thesis using False active_pst [OF proto_invD(1) [OF inv], of d] by auto
    next
      case nd: False
      show ?thesis
      proof (cases "x = d")
        case True
        then have "wf_idle sh d" using nd d proto_invD(1) [OF inv] by (auto simp: desc_inv_def)
        then show ?thesis using True by (simp add: wf_idle_def st_def pst_def)
      qed simp
    qed
    then have "pabs_mem ?sh' a = pabs_mem sh a" for a
      unfolding eq abs by (intro interp_stat_cong) blast
    then show ?thesis by blast
  qed
qed

theorem proto_pabs:
  assumes "proto sh sh'" and inv: "proto_inv sh"
  shows "pabs_mem sh' = pabs_mem sh \<or> (\<exists>d. persists sh sh' d)"
  using assms
proof (induction rule: proto.induct)
  case (p_flush sh a)
  then show ?case using proto_invD(4) [OF p_flush(1)] by (auto simp: fun_eq_iff pabs_mem_def flush_word_def)
next
  case (p_persist d sh P)
  then show ?case using persist_pabs by blast
next
  case (p_start d sh desc sh')
  note r = start_readings [OF p_start(2,1,3,4)]
  have "interp (pst sh') sh' a (nvm sh a) = interp (pst sh) sh a (nvm sh a)" for a
    using start_inv [OF p_start(6,1,2,3,4,5)] p_start(6)
    by (intro start_interp [OF _ _ p_start(2,1,3,4)]) (auto simp: proto_invD r)
  then show ?case by (simp add: fun_eq_iff pabs_mem_def r)
qed (simp_all add: fun_eq_iff pabs_mem_def)

text \<open>The two memories differ only in operations whose success has not reached NVRAM yet.\<close>

theorem pabs_vs_abs:
  assumes inv: "proto_inv sh"
  shows "pabs_mem sh a = abs_mem sh a \<or>
    (\<exists>d i. target sh d i \<and> waddr sh d i = a \<and> st sh d = kStatusSucceeded \<and>
       pst sh d = kStatusUndecided \<and> abs_mem sh a = wnew sh d i \<and> pabs_mem sh a = wold sh d i)"
proof -
  have dinv: "desc_inv sh" by (rule proto_invD(1) [OF inv])
  have pabs: "pabs_mem sh a = interp (pst sh) sh a (mem sh a)"
    using proto_invD(4) [OF inv] by (simp add: pabs_mem_def)
  from proto_invD(2) [OF inv, of a] consider (plain) "plain (pool sh) (mem sh a)"
    | (cond) d i where "target sh d i" "mem sh a = cond_descptr d i"
    | (mw) d i where "target sh d i" "waddr sh d i = a" "is_mw d (mem sh a)"
    by (auto simp: good_word_def)
  then show ?thesis
  proof cases
    case plain
    then show ?thesis by (simp add: pabs abs_mem_def interp_plain)
  next
    case (cond d i)
    then show ?thesis using interp_cond [OF dinv cond(1)] by (simp add: pabs abs_mem_def)
  next
    case (mw d i)
    have "pst sh d = kStatusUndecided \<or> pst sh d = st sh d"
      by (rule active_pst [OF dinv targetD(1) [OF mw(1)]])
    then show ?thesis
      using interp_mw [OF dinv mw(1,3,2)] mw by (auto simp: pabs abs_mem_def)
  qed
qed

end
