(* ===== verification/Mwcas_Writes.thy ===== *)
theory Mwcas_Writes
  imports Mwcas_Abs
begin

text \<open>
  The compare-and-swaps of the algorithm, one lemma per kind: when the expected value is found, the
  write is one of the changes that \<open>proto\<close> allows. The second half lists the facts about shared
  memory that survive every allowed change of other threads.
\<close>

section \<open>Kinds of word exclude each other\<close>

lemma mw_not_cond:
  assumes "desc_inv sh" and "active sh o'" and "target sh d i" and "is_mw o' v"
  shows "v \<noteq> cond_descptr d i"
  using assms is_mw_tests(2) [OF assms(4) pool_cleanD(1) [OF assms(1) active_pool [OF assms(2)]]]
    cond_descptr_tests(1) [OF target_word(1) [OF assms(1,3)]] by auto

lemma mw_unique:
  assumes "desc_inv sh" and "active sh o'" and "active sh d" and "is_mw o' v" and "is_mw d v"
  shows "d = o'"
  using is_mw_inj [OF assms(5,4)] pool_cleanD(1) [OF assms(1)] active_pool assms(2,3) by blast

lemma mw_in_mem:
  assumes inv: "proto_inv sh" and act: "active sh d" and mw: "is_mw d (mem sh a)"
  obtains i where "target sh d i" "waddr sh d i = a"
proof -
  note dinv = proto_invD(1) [OF inv]
  note tests = is_mw_tests [OF mw pool_cleanD(1) [OF dinv active_pool [OF act]]]
  from proto_invD(2) [OF inv, of a] tests obtain x i
    where x: "target sh x i" "waddr sh x i = a" "mem sh a = cond_descptr x i \<or> is_mw x (mem sh a)"
    by (auto simp: good_word_def plain_def)
  then have "is_mw x (mem sh a)" using mw_not_cond [OF dinv act x(1) mw] by blast
  then have "x = d" using mw_unique [OF dinv act targetD(1) [OF x(1)] mw] by simp
  then show thesis using that x by blast
qed

lemma plain_value:
  assumes "desc_inv sh" and "target sh d i"
  shows "plain (pool sh) (wold sh d i)" "plain (pool sh) (wnew sh d i)"
    "plain (pool sh) (wold sh d i OR kDirtyFlag)" "plain (pool sh) (wnew sh d i OR kDirtyFlag)"
  using target_values [OF assms] by (simp_all add: plain_clean)

lemma good_wordI:
  "plain (pool sh) v \<Longrightarrow> good_word sh a v"
  "target sh d i \<Longrightarrow> waddr sh d i = a \<Longrightarrow> good_word sh a (cond_descptr d i)"
  "target sh d i \<Longrightarrow> waddr sh d i = a \<Longrightarrow> is_mw d v \<Longrightarrow> good_word sh a v"
  unfolding good_word_def by blast+

section \<open>The writes\<close>

text \<open>
  What is left to show for a write, for an arbitrary descriptor \<open>x\<close> with the written address among
  its words. A plain new value meets the first and the last obligation at once.
\<close>

lemma write_okI:
  assumes "good_word sh a v" and "\<And>f. f = st sh \<or> f = pst sh \<Longrightarrow> interp f sh a v = interp f sh a (mem sh a)"
    and "\<And>x j. target sh x j \<Longrightarrow> v = cond_descptr x j \<Longrightarrow> st sh x \<noteq> kStatusSucceeded"
    and "\<And>x. active sh x \<Longrightarrow> is_mw x (mem sh a) \<Longrightarrow> is_mw x v \<or> (decided sh x \<and> pst sh x = st sh x)"
    and "\<And>x j. target sh x j \<Longrightarrow> mem sh a = cond_descptr x j \<Longrightarrow> v = cond_descptr x j \<or> is_mw x v \<or> decided sh x"
    and "\<And>x. active sh x \<Longrightarrow> v = mwcas_descptr 0 x \<Longrightarrow> decided sh x \<or> is_mw x (nvm sh a)"
  shows "write_ok sh a v"
  unfolding write_ok_def
proof (intro conjI allI impI)
  fix x j assume t: "target sh x j \<and> waddr sh x j = a"
  then have tx: "target sh x j" and ax: "active sh x" by (auto dest: targetD)
  show "v = cond_descptr x j \<Longrightarrow> st sh x \<noteq> kStatusSucceeded" by (rule assms(3) [OF tx])
  show "is_mw x (mem sh a) \<Longrightarrow> is_mw x v \<or> (decided sh x \<and> pst sh x = st sh x)" by (rule assms(4) [OF ax])
  show "mem sh a = cond_descptr x j \<Longrightarrow> v = cond_descptr x j \<or> is_mw x v \<or> decided sh x"
    by (rule assms(5) [OF tx])
  show "v = mwcas_descptr 0 x \<Longrightarrow> decided sh x \<or> is_mw x (nvm sh a)" by (rule assms(6) [OF ax])
qed (simp_all add: assms(1,2))

lemma plain_not_mw:
  assumes "desc_inv sh" and "plain (pool sh) v" and "active sh x"
  shows "\<not> is_mw x v" "v \<noteq> mwcas_descptr 0 x"
  using assms(2) is_mw_tests(1) [OF _ pool_cleanD(1) [OF assms(1) active_pool [OF assms(3)]]]
    is_mw_descptr(1) [of x]
  by (auto simp: plain_def)

lemma install_ok:
  assumes inv: "proto_inv sh" and t: "target sh d i" and old: "mem sh (waddr sh d i) = wold sh d i"
    and ns: "st sh d \<noteq> kStatusSucceeded"
  shows "write_ok sh (waddr sh d i) (cond_descptr d i)"
proof (rule write_okI)
  note dinv = proto_invD(1) [OF inv] and pl = plain_value(1) [OF proto_invD(1) [OF inv] t]
  show "good_word sh (waddr sh d i) (cond_descptr d i)" using t by (rule good_wordI(2)) simp
  show "interp f sh (waddr sh d i) (cond_descptr d i) = interp f sh (waddr sh d i) (mem sh (waddr sh d i))" for f
    using interp_cond [OF dinv t] interp_plain [OF pl] old target_values(1) [OF dinv t] by simp
  show "st sh x \<noteq> kStatusSucceeded" if "target sh x j" "cond_descptr d i = cond_descptr x j" for x j
    using cond_descptr_inj(1) [OF dinv t that] ns by simp
  show "decided sh x \<or> is_mw x (nvm sh (waddr sh d i))" if "active sh x" "cond_descptr d i = mwcas_descptr 0 x" for x
    using mw_not_cond [OF dinv that(1) t is_mw_descptr(1)] that(2) by simp
qed (use old plain_not_mw [OF proto_invD(1) [OF inv] plain_value(1) [OF proto_invD(1) [OF inv] t]]
    plain_not_pointer(1) [OF proto_invD(1) [OF inv] plain_value(1) [OF proto_invD(1) [OF inv] t]] in auto)

lemma promote_ok:
  assumes inv: "proto_inv sh" and t: "target sh d i" and cond: "mem sh (waddr sh d i) = cond_descptr d i"
  shows "write_ok sh (waddr sh d i) (mwcas_descptr kDirtyFlag d)"
proof (rule write_okI)
  note dinv = proto_invD(1) [OF inv] and act = targetD(1) [OF t]
  have ns: "st sh d \<noteq> kStatusSucceeded" by (rule slot_invD(1) [OF inv t refl cond])
  then have nps: "pst sh d \<noteq> kStatusSucceeded" using active_pst [OF dinv act] by auto
  have mw: "is_mw d (mwcas_descptr kDirtyFlag d)" by simp
  show "good_word sh (waddr sh d i) (mwcas_descptr kDirtyFlag d)" by (rule good_wordI(3) [OF t refl mw])
  show "interp f sh (waddr sh d i) (mwcas_descptr kDirtyFlag d) =
      interp f sh (waddr sh d i) (mem sh (waddr sh d i))" if "f = st sh \<or> f = pst sh" for f
    using interp_cond [OF dinv t] interp_mw [OF dinv t mw refl] cond that ns nps by auto
  show "st sh x \<noteq> kStatusSucceeded" if "target sh x j" "mwcas_descptr kDirtyFlag d = cond_descptr x j" for x j
    using mw_not_cond [OF dinv act that(1) mw] that(2) by simp
  show "is_mw x (mwcas_descptr kDirtyFlag d) \<or> (decided sh x \<and> pst sh x = st sh x)"
    if "active sh x" "is_mw x (mem sh (waddr sh d i))" for x
    using mw_not_cond [OF dinv that(1) t that(2)] cond by simp
  show "mwcas_descptr kDirtyFlag d = cond_descptr x j \<or> is_mw x (mwcas_descptr kDirtyFlag d) \<or> decided sh x"
    if "target sh x j" "mem sh (waddr sh d i) = cond_descptr x j" for x j
    using cond_descptr_inj(1) [OF dinv t that(1)] cond that(2) mw by simp
  show "decided sh x \<or> is_mw x (nvm sh (waddr sh d i))"
    if "active sh x" "mwcas_descptr kDirtyFlag d = mwcas_descptr 0 x" for x
    using mwcas_descptr_dirty(1,2) pool_cleanD(1) [OF dinv] active_pool act that by metis
qed

lemma demote_ok:
  assumes inv: "proto_inv sh" and t: "target sh d i" and cond: "mem sh (waddr sh d i) = cond_descptr d i"
    and dec: "decided sh d"
  shows "write_ok sh (waddr sh d i) (wold sh d i)"
proof (rule write_okI)
  note dinv = proto_invD(1) [OF inv] and pl = plain_value(1) [OF proto_invD(1) [OF inv] t]
  show "good_word sh (waddr sh d i) (wold sh d i)" by (rule good_wordI(1) [OF pl])
  show "interp f sh (waddr sh d i) (wold sh d i) = interp f sh (waddr sh d i) (mem sh (waddr sh d i))" for f
    using interp_cond [OF dinv t] interp_plain [OF pl] cond target_values(1) [OF dinv t] by simp
  show "st sh x \<noteq> kStatusSucceeded" if "target sh x j" "wold sh d i = cond_descptr x j" for x j
    using plain_not_pointer(1) [OF dinv pl that(1)] that(2) by simp
  show "is_mw x (wold sh d i) \<or> (decided sh x \<and> pst sh x = st sh x)"
    if "active sh x" "is_mw x (mem sh (waddr sh d i))" for x
    using mw_not_cond [OF dinv that(1) t that(2)] cond by simp
  show "wold sh d i = cond_descptr x j \<or> is_mw x (wold sh d i) \<or> decided sh x"
    if "target sh x j" "mem sh (waddr sh d i) = cond_descptr x j" for x j
    using cond_descptr_inj(1) [OF dinv t that(1)] cond that(2) dec by simp
  show "decided sh x \<or> is_mw x (nvm sh (waddr sh d i))" if "active sh x" "wold sh d i = mwcas_descptr 0 x" for x
    using plain_not_mw(2) [OF dinv pl that(1)] that(2) by simp
qed

lemma resolve_ok:
  assumes inv: "proto_inv sh" and t: "target sh d i" and mw: "is_mw d (mem sh (waddr sh d i))"
    and dec: "decided sh d" and p: "pst sh d = st sh d" and b: "b \<longleftrightarrow> st sh d = kStatusSucceeded"
  shows "write_ok sh (waddr sh d i) (final_value b (word_at sh d i))" (is "write_ok sh ?a ?v")
proof (rule write_okI)
  note dinv = proto_invD(1) [OF inv] and act = targetD(1) [OF t]
  have pl: "plain (pool sh) ?v"
    using plain_value(3,4) [OF dinv t] by (simp add: final_value_def)
  show "good_word sh ?a ?v" by (rule good_wordI(1) [OF pl])
  show "interp f sh ?a ?v = interp f sh ?a (mem sh ?a)" if "f = st sh \<or> f = pst sh" for f
    using interp_mw [OF dinv t mw refl] interp_plain [OF pl] b p that target_values(1,2) [OF dinv t]
    by (auto simp: final_value_def)
  show "st sh x \<noteq> kStatusSucceeded" if "target sh x j" "?v = cond_descptr x j" for x j
    using plain_not_pointer(1) [OF dinv pl that(1)] that(2) by simp
  show "is_mw x ?v \<or> (decided sh x \<and> pst sh x = st sh x)" if "active sh x" "is_mw x (mem sh ?a)" for x
    using mw_unique [OF dinv act that(1) mw that(2)] dec p by simp
  show "?v = cond_descptr x j \<or> is_mw x ?v \<or> decided sh x" if "target sh x j" "mem sh ?a = cond_descptr x j" for x j
    using mw_not_cond [OF dinv act that(1) mw] that(2) by simp
  show "decided sh x \<or> is_mw x (nvm sh ?a)" if "active sh x" "?v = mwcas_descptr 0 x" for x
    using plain_not_mw(2) [OF dinv pl that(1)] that(2) by simp
qed

lemma undirty_plain_ok:
  assumes inv: "proto_inv sh" and pl: "plain (pool sh) (mem sh a)"
  shows "write_ok sh a (ClearDirty (mem sh a))"
proof (rule write_okI)
  note dinv = proto_invD(1) [OF inv]
  have pl': "plain (pool sh) (ClearDirty (mem sh a))" using pl by (simp add: plain_def)
  show "good_word sh a (ClearDirty (mem sh a))" by (rule good_wordI(1) [OF pl'])
  show "interp f sh a (ClearDirty (mem sh a)) = interp f sh a (mem sh a)" for f
    using interp_plain [OF pl] interp_plain [OF pl'] by simp
  show "st sh x \<noteq> kStatusSucceeded" if "target sh x j" "ClearDirty (mem sh a) = cond_descptr x j" for x j
    using plain_not_pointer(1) [OF dinv pl' that(1)] that(2) by simp
  show "decided sh x \<or> is_mw x (nvm sh a)" if "active sh x" "ClearDirty (mem sh a) = mwcas_descptr 0 x" for x
    using plain_not_mw(2) [OF dinv pl' that(1)] that(2) by simp
qed (use plain_not_mw(1) [OF proto_invD(1) [OF inv] pl] plain_not_pointer(1) [OF proto_invD(1) [OF inv] pl] in auto)

lemma undirty_mw_ok:
  assumes inv: "proto_inv sh" and act: "active sh d" and mw: "is_mw d (mem sh a)"
    and p: "decided sh d \<or> is_mw d (nvm sh a)"
  shows "write_ok sh a (mwcas_descptr 0 d)"
proof (rule write_okI)
  note dinv = proto_invD(1) [OF inv]
  obtain i where t: "target sh d i" "waddr sh d i = a" by (rule mw_in_mem [OF inv act mw])
  have mw': "is_mw d (mwcas_descptr 0 d)" by simp
  show "good_word sh a (mwcas_descptr 0 d)" by (rule good_wordI(3) [OF t mw'])
  show "interp f sh a (mwcas_descptr 0 d) = interp f sh a (mem sh a)" for f
    using interp_mw [OF dinv t(1) mw' t(2)] interp_mw [OF dinv t(1) mw t(2)] by simp
  show "st sh x \<noteq> kStatusSucceeded" if "target sh x j" "mwcas_descptr 0 d = cond_descptr x j" for x j
    using mw_not_cond [OF dinv act that(1) mw'] that(2) by simp
  show "is_mw x (mwcas_descptr 0 d) \<or> (decided sh x \<and> pst sh x = st sh x)"
    if "active sh x" "is_mw x (mem sh a)" for x
    using mw_unique [OF dinv act that(1) mw that(2)] mw' by simp
  show "mwcas_descptr 0 d = cond_descptr x j \<or> is_mw x (mwcas_descptr 0 d) \<or> decided sh x"
    if "target sh x j" "mem sh a = cond_descptr x j" for x j
    using mw_not_cond [OF dinv act that(1) mw] that(2) by simp
  show "decided sh x \<or> is_mw x (nvm sh a)" if "active sh x" "mwcas_descptr 0 d = mwcas_descptr 0 x" for x
    using mw_unique [OF dinv act that(1) mw'] that(2) p by simp
qed

end
