(* ===== verification/Mwcas_Frames.thy ===== *)
theory Mwcas_Frames
  imports Mwcas_Writes
begin

text \<open>
  What a thread knows at each program point. The first section lists the facts about shared memory
  that every allowed change keeps; the second assembles them into an assertion per program counter
  and shows that the assertions of all other threads are stable; the last one shows that a step of
  a frame makes an allowed change and establishes the assertion of the next program point.
\<close>

section \<open>Stable facts\<close>

definition inst :: "shared \<Rightarrow> u64 \<Rightarrow> u64 \<Rightarrow> bool" where
  "inst sh d a \<longleftrightarrow> decided sh d \<or> is_mw d (mem sh a)"

definition pinst :: "shared \<Rightarrow> u64 \<Rightarrow> u64 \<Rightarrow> bool" where
  "pinst sh d a \<longleftrightarrow> decided sh d \<or> (is_mw d (mem sh a) \<and> is_mw d (nvm sh a))"

definition own_cond :: "shared \<Rightarrow> u64 \<Rightarrow> nat \<Rightarrow> bool" where
  "own_cond sh d i \<longleftrightarrow> decided sh d \<or> mem sh (waddr sh d i) = cond_descptr d i \<or>
     is_mw d (mem sh (waddr sh d i))"

definition durable :: "shared \<Rightarrow> u64 \<Rightarrow> bool" where
  "durable sh d \<longleftrightarrow> decided sh d \<and> pst sh d = st sh d"

definition settled :: "shared \<Rightarrow> u64 \<Rightarrow> bool" where
  "settled sh d \<longleftrightarrow> durable sh d \<and> status (descs sh d) = st sh d"

lemma proto_pool: "proto sh sh' \<Longrightarrow> pool sh' = pool sh"
  by (induction rule: proto.induct) (simp_all add: flush_word_def)

lemma stable_active:
  assumes "proto sh sh'" and "proto_inv sh" and "active sh d"
  shows "active sh' d \<and> count (descs sh' d) = count (descs sh d) \<and> word_at sh' d = word_at sh d"
  using assms
proof (induction rule: proto.induct)
  case (p_decide sh x s)
  have "active (set_status sh x (s OR kStatusDirtyFlag)) = active sh"
    using p_decide(3) by (intro active_set_status(1) [OF p_decide(1)]) auto
  then show ?case using p_decide by simp
next
  case (p_clear sh x)
  then show ?case
    using active_set_status(1) [OF p_clear(1) active_st_cases(3) [OF proto_invD(1) [OF p_clear(2)] p_clear(1)]]
    by simp
next
  case (p_start x sh desc sh')
  then have "d \<noteq> x" by auto
  then show ?case using start_readings [OF p_start(2,1,3,4)] p_start(7) by (auto simp: fun_eq_iff)
qed (simp_all add: flush_word_def)

lemma stable_decided:
  assumes "proto sh sh'" and "proto_inv sh" and "active sh d" and "decided sh d"
  shows "decided sh' d \<and> st sh' d = st sh d"
  using assms
proof (induction rule: proto.induct)
  case (p_decide sh x s)
  then have "d \<noteq> x" by (auto simp: decided_def st_def)
  then show ?case using p_decide by (simp add: decided_def st_set_status)
next
  case (p_clear sh x)
  then show ?case
    using active_st_cases(2) [OF proto_invD(1) [OF p_clear(2)] p_clear(1)]
    by (auto simp: decided_def st_set_status)
next
  case (p_start x sh desc sh')
  then have "d \<noteq> x" by auto
  then show ?case using start_readings(8) [OF p_start(2,1,3,4)] p_start(8) by (simp add: decided_def)
qed (simp_all add: flush_word_def)

lemma proto_words:
  assumes "proto sh sh'" and "proto_inv sh"
  shows "mem sh' a = mem sh a \<or> (write_ok sh a (mem sh' a) \<and> nvm sh' = nvm sh)"
    and "nvm sh' a = nvm sh a \<or> (nvm sh' a = mem sh a \<and> mem sh' = mem sh)"
  using assms by (induction rule: proto.induct) (auto simp: flush_word_def)

lemma stable_inst:
  assumes step: "proto sh sh'" and inv: "proto_inv sh" and act: "active sh d" and fact: "inst sh d a"
  shows "inst sh' d a"
proof (cases "decided sh d")
  case True
  then show ?thesis using stable_decided [OF step inv act] by (simp add: inst_def)
next
  case False
  then have mw: "is_mw d (mem sh a)" using fact by (simp add: inst_def)
  obtain i where t: "target sh d i" "waddr sh d i = a" by (rule mw_in_mem [OF inv act mw])
  show ?thesis using proto_words(1) [OF step inv, of a] mw t False
    by (auto simp: inst_def write_ok_def)
qed

lemma stable_pinst:
  assumes step: "proto sh sh'" and inv: "proto_inv sh" and act: "active sh d" and fact: "pinst sh d a"
  shows "pinst sh' d a"
proof (cases "decided sh d")
  case True
  then show ?thesis using stable_decided [OF step inv act] by (simp add: pinst_def)
next
  case False
  then have mw: "is_mw d (mem sh a)" "is_mw d (nvm sh a)" using fact by (simp_all add: pinst_def)
  have "inst sh' d a" using stable_inst [OF step inv act] mw by (simp add: inst_def)
  moreover have "is_mw d (nvm sh' a)" using proto_words(2) [OF step inv, of a] mw by auto
  ultimately show ?thesis by (auto simp: pinst_def inst_def)
qed

lemma stable_own_cond:
  assumes step: "proto sh sh'" and inv: "proto_inv sh" and t: "target sh d i" and fact: "own_cond sh d i"
  shows "own_cond sh' d i"
proof -
  let ?a = "waddr sh d i"
  have addr: "waddr sh' d i = ?a" using stable_active [OF step inv targetD(1) [OF t]] by simp
  show ?thesis
  proof (cases "inst sh d ?a")
    case True
    then show ?thesis
      using stable_inst [OF step inv targetD(1) [OF t]] addr by (auto simp: own_cond_def inst_def)
  next
    case False
    then have "mem sh ?a = cond_descptr d i" using fact by (auto simp: own_cond_def inst_def)
    moreover have "decided sh d \<Longrightarrow> decided sh' d"
      using stable_decided [OF step inv targetD(1) [OF t]] by simp
    ultimately show ?thesis
      using proto_words(1) [OF step inv, of ?a] t addr by (auto simp: own_cond_def write_ok_def)
  qed
qed

lemma stable_durable:
  assumes step: "proto sh sh'" and inv: "proto_inv sh" and act: "active sh d" and fact: "durable sh d"
  shows "durable sh' d"
proof -
  have dec: "decided sh d" "pst sh d = st sh d" using fact by (simp_all add: durable_def)
  have "wf_active sh' d"
    using desc_inv_active proto_invD(1) [OF proto_preserves_inv [OF step inv]] stable_active [OF step inv act]
    by blast
  then have "pst sh' d = kStatusUndecided \<or> pst sh' d = st sh' d" by (simp add: wf_active_def)
  moreover have "pst sh' d = pst sh d \<or> pst sh' d = st sh d"
    using step inv act dec(1)
  proof (induction rule: proto.induct)
    case (p_start x sh desc sh')
    then have "d \<noteq> x" by auto
    then show ?case using start_readings(9) [OF p_start(2,1,3,4)] by simp
  qed (auto simp: flush_word_def pst_pdescs_update st_def)
  ultimately show ?thesis
    using stable_decided [OF step inv act dec(1)] dec by (auto simp: durable_def decided_def)
qed

lemma stable_settled:
  assumes step: "proto sh sh'" and inv: "proto_inv sh" and act: "active sh d" and fact: "settled sh d"
  shows "settled sh' d \<and> st sh' d = st sh d"
proof -
  have s: "durable sh d" "status (descs sh d) = st sh d" "decided sh d"
    using fact by (auto simp: settled_def durable_def)
  have "status (descs sh' d) = st sh d"
    using step inv act s(2,3)
  proof (induction rule: proto.induct)
    case (p_decide sh x s)
    then have "d \<noteq> x" by (auto simp: decided_def)
    then show ?case using p_decide by simp
  next
    case (p_start x sh desc sh')
    then have "d \<noteq> x" by auto
    then show ?case using start_readings(10) [OF p_start(2,1,3,4)] p_start(8) by simp
  qed (auto simp: flush_word_def)
  then show ?thesis
    using stable_durable [OF step inv act s(1)] stable_decided [OF step inv act s(3)]
    by (simp add: settled_def)
qed

section \<open>Assertions at program points\<close>

text \<open>\<open>ret\<close> was found at address \<open>a\<close>: a word descriptor of some active operation on that address.\<close>

definition cond_ref :: "shared \<Rightarrow> u64 \<Rightarrow> u64 \<Rightarrow> bool" where
  "cond_ref sh a ret \<longleftrightarrow> (\<exists>x j. target sh x j \<and> waddr sh x j = a \<and> ret = cond_descptr x j)"

text \<open>\<open>newv\<close> is what the completion of that word descriptor may put in its place.\<close>

definition completes :: "shared \<Rightarrow> u64 \<Rightarrow> u64 \<Rightarrow> u64 \<Rightarrow> bool" where
  "completes sh a ret newv \<longleftrightarrow> (\<exists>x j. target sh x j \<and> waddr sh x j = a \<and> ret = cond_descptr x j \<and>
     (newv = wold sh x j \<and> decided sh x \<or> newv = mwcas_descptr kDirtyFlag x))"

fun cond_inv :: "shared \<Rightarrow> u64 \<Rightarrow> nat \<Rightarrow> cpc \<Rightarrow> bool" where
  "cond_inv sh d i CTry = True"
| "cond_inv sh d i (CStat ret) = cond_ref sh (waddr sh d i) ret"
| "cond_inv sh d i (CRecheck ret desired) = cond_ref sh (waddr sh d i) ret"
| "cond_inv sh d i (CStat2 ret desired) = cond_ref sh (waddr sh d i) ret"
| "cond_inv sh d i (CSwap ret desired newv) = completes sh (waddr sh d i) ret newv"
| "cond_inv sh d i COwnStat = own_cond sh d i"
| "cond_inv sh d i (COwnSwap newv) = (own_cond sh d i \<and>
     (newv = wold sh d i \<and> decided sh d \<or> newv = mwcas_descptr kDirtyFlag d))"

definition rval_inv :: "shared \<Rightarrow> u64 \<Rightarrow> nat \<Rightarrow> u64 \<Rightarrow> bool" where
  "rval_inv sh d i r \<longleftrightarrow> r = wold sh d i \<and> inst sh d (waddr sh d i) \<or>
     (\<exists>x. active sh x \<and> is_mw x r \<and> inst sh x (waddr sh d i)) \<or>
     plain (pool sh) r \<and> r \<noteq> wold sh d i"

definition upto :: "(shared \<Rightarrow> u64 \<Rightarrow> u64 \<Rightarrow> bool) \<Rightarrow> shared \<Rightarrow> u64 \<Rightarrow> nat \<Rightarrow> bool" where
  "upto P sh d n \<longleftrightarrow> (\<forall>j < n. j < count (descs sh d) \<longrightarrow> P sh d (waddr sh d j))"

text \<open>A pointer, with the dirty bit set, that was found at the address \<open>a\<close>.\<close>

definition ref :: "(shared \<Rightarrow> u64 \<Rightarrow> u64 \<Rightarrow> bool) \<Rightarrow> shared \<Rightarrow> u64 \<Rightarrow> u64 \<Rightarrow> bool" where
  "ref P sh a r \<longleftrightarrow> (\<exists>x. active sh x \<and> r = mwcas_descptr kDirtyFlag x \<and> P sh x a)"

fun pc_inv :: "shared \<Rightarrow> u64 \<Rightarrow> pc \<Rightarrow> bool" where
  "pc_inv sh d LoadStatus = True"
| "pc_inv sh d (StatusFlush s) = True"
| "pc_inv sh d (StatusClear s) = True"
| "pc_inv sh d (Loop i s) = (s = kStatusSucceeded \<and> upto inst sh d i \<or> s = kStatusFailed)"
| "pc_inv sh d (InCond i c) = (i < count (descs sh d) \<and> upto inst sh d i \<and> cond_inv sh d i c)"
| "pc_inv sh d (GotRval i r) = (i < count (descs sh d) \<and> upto inst sh d i \<and> rval_inv sh d i r)"
| "pc_inv sh d (HelpFlush i r) = (i < count (descs sh d) \<and> upto inst sh d i \<and>
     ref inst sh (waddr sh d i) r)"
| "pc_inv sh d (HelpClear i r) = (i < count (descs sh d) \<and> upto inst sh d i \<and>
     ref pinst sh (waddr sh d i) r)"
| "pc_inv sh d (PersistLoad i) = (upto inst sh d (count (descs sh d)) \<and> upto pinst sh d i)"
| "pc_inv sh d (PersistFlush i) = (i < count (descs sh d) \<and>
     upto inst sh d (count (descs sh d)) \<and> upto pinst sh d i)"
| "pc_inv sh d (PersistClear i) = (i < count (descs sh d) \<and>
     upto inst sh d (count (descs sh d)) \<and> upto pinst sh d (Suc i))"
| "pc_inv sh d (Decide s) = (s = kStatusSucceeded \<and> upto pinst sh d (count (descs sh d)) \<or>
     s = kStatusFailed)"
| "pc_inv sh d DecideCheck = decided sh d"
| "pc_inv sh d StatusFlush2 = decided sh d"
| "pc_inv sh d StatusLoad2 = durable sh d"
| "pc_inv sh d (StatusStore2 s) = (durable sh d \<and> clean_status s = st sh d)"
| "pc_inv sh d Outcome = settled sh d"
| "pc_inv sh d (Final i b) = (settled sh d \<and> (b \<longleftrightarrow> st sh d = kStatusSucceeded))"
| "pc_inv sh d (Final2 i b) = (i < count (descs sh d) \<and> settled sh d \<and> (b \<longleftrightarrow> st sh d = kStatusSucceeded))"
| "pc_inv sh d (FinalFlush i b) = (i < count (descs sh d) \<and> settled sh d \<and> (b \<longleftrightarrow> st sh d = kStatusSucceeded))"
| "pc_inv sh d (FinalClear i b) = (i < count (descs sh d) \<and> settled sh d \<and> (b \<longleftrightarrow> st sh d = kStatusSucceeded))"
| "pc_inv sh d (Exit b) = (settled sh d \<and> (b \<longleftrightarrow> st sh d = kStatusSucceeded))"

definition dirty_ref :: "(shared \<Rightarrow> u64 \<Rightarrow> u64 \<Rightarrow> bool) \<Rightarrow> shared \<Rightarrow> u64 \<Rightarrow> u64 \<Rightarrow> bool" where
  "dirty_ref P sh a v \<longleftrightarrow> plain (pool sh) v \<or> ref P sh a v"

fun read_inv :: "shared \<Rightarrow> u64 \<Rightarrow> rpc \<Rightarrow> bool" where
  "read_inv sh a RLoad = True"
| "read_inv sh a (RStat v) = cond_ref sh a v"
| "read_inv sh a (RSwap v newv) = completes sh a v newv"
| "read_inv sh a (RFlush v) = dirty_ref inst sh a v"
| "read_inv sh a (RClear v) = dirty_ref pinst sh a v"

fun frame_inv :: "shared \<Rightarrow> frame \<Rightarrow> bool" where
  "frame_inv sh (MwFrame d depth pc) = (active sh d \<and> pc_inv sh d pc)"
| "frame_inv sh (RdFrame a rpc) = (a \<noteq> 0 \<and> read_inv sh a rpc)"

section \<open>Stability of the assertions\<close>

lemma stable_target:
  assumes "proto sh sh'" and "proto_inv sh" and "target sh d i"
  shows "target sh' d i" "word_at sh' d i = word_at sh d i"
  using stable_active [OF assms(1,2) targetD(1) [OF assms(3)]] targetD(2) [OF assms(3)]
  by (simp_all add: target_def)

lemma stable_cond_ref:
  assumes "proto sh sh'" and "proto_inv sh" and "cond_ref sh a ret"
  shows "cond_ref sh' a ret"
  using assms(3) stable_target [OF assms(1,2)] unfolding cond_ref_def by metis

lemma stable_completes:
  assumes "proto sh sh'" and "proto_inv sh" and "completes sh a ret newv"
  shows "completes sh' a ret newv"
proof -
  obtain x j where x: "target sh x j" "waddr sh x j = a" "ret = cond_descptr x j"
      "newv = wold sh x j \<and> decided sh x \<or> newv = mwcas_descptr kDirtyFlag x"
    using assms(3) by (auto simp: completes_def)
  have "decided sh x \<Longrightarrow> decided sh' x"
    using stable_decided [OF assms(1,2) targetD(1) [OF x(1)]] by simp
  then show ?thesis
    using x stable_target [OF assms(1,2) x(1)] unfolding completes_def by metis
qed

lemma stable_upto:
  assumes "proto sh sh'" and "proto_inv sh" and "active sh d"
  shows "upto inst sh d n \<Longrightarrow> upto inst sh' d n" "upto pinst sh d n \<Longrightarrow> upto pinst sh' d n"
  using stable_active [OF assms] stable_inst [OF assms] stable_pinst [OF assms]
  by (simp_all add: upto_def)

lemma stable_rval:
  assumes "proto sh sh'" and "proto_inv sh" and "active sh d" and "rval_inv sh d i r"
  shows "rval_inv sh' d i r"
proof -
  have "inst sh x (waddr sh d i) \<Longrightarrow> active sh x \<Longrightarrow> active sh' x \<and> inst sh' x (waddr sh' d i)" for x
    using stable_inst [OF assms(1,2)] stable_active [OF assms(1,2)] assms(3) by metis
  then show ?thesis
    using assms(3,4) stable_active [OF assms(1-3)] proto_pool [OF assms(1)] by (auto simp: rval_inv_def)
qed

lemma stable_refs:
  assumes "proto sh sh'" and "proto_inv sh"
  shows "ref inst sh a r \<Longrightarrow> ref inst sh' a r" and "ref pinst sh a r \<Longrightarrow> ref pinst sh' a r"
proof -
  show "ref inst sh' a r" if r: "ref inst sh a r"
  proof -
    obtain x where "active sh x" "r = mwcas_descptr kDirtyFlag x" "inst sh x a"
      using r unfolding ref_def by blast
    then show ?thesis
      using stable_inst [OF assms] stable_active [OF assms] unfolding ref_def by blast
  qed
  show "ref pinst sh' a r" if r: "ref pinst sh a r"
  proof -
    obtain x where "active sh x" "r = mwcas_descptr kDirtyFlag x" "pinst sh x a"
      using r unfolding ref_def by blast
    then show ?thesis
      using stable_pinst [OF assms] stable_active [OF assms] unfolding ref_def by blast
  qed
qed

lemma stable_cond_inv:
  assumes "proto sh sh'" and "proto_inv sh" and "target sh d i" and "cond_inv sh d i c"
  shows "cond_inv sh' d i c"
  using assms(4) stable_target(2) [OF assms(1-3)] stable_decided [OF assms(1,2) targetD(1) [OF assms(3)]]
    stable_cond_ref [OF assms(1,2)] stable_completes [OF assms(1,2)] stable_own_cond [OF assms(1-3)]
  by (cases c) auto

theorem stable_pc_inv:
  assumes "proto sh sh'" and "proto_inv sh" and "active sh d" and "pc_inv sh d pc"
  shows "pc_inv sh' d pc"
proof -
  note act = stable_active [OF assms(1-3)]
  have st': "decided sh' d \<and> st sh' d = st sh d" if "decided sh d"
    using stable_decided [OF assms(1-3) that] .
  have dur: "durable sh' d \<and> st sh' d = st sh d" if "durable sh d"
    using stable_durable [OF assms(1-3) that] st' that by (simp add: durable_def)
  have cond: "cond_inv sh' d i c" if "i < count (descs sh d)" "cond_inv sh d i c" for i c
    using stable_cond_inv [OF assms(1,2) _ that(2)] that(1) assms(3) by (simp add: target_def)
  have set: "settled sh' d \<and> st sh' d = st sh d" if "settled sh d"
    by (rule stable_settled [OF assms(1-3) that])
  note up = stable_upto [OF assms(1-3)] and rv = stable_rval [OF assms(1-3)] and rf = stable_refs [OF assms(1,2)]
  show ?thesis
    using assms(4) act by (cases pc) (auto simp: st' dur cond set up rv rf)
qed

lemma stable_dirty_ref:
  assumes "proto sh sh'" and "proto_inv sh"
  shows "dirty_ref inst sh a v \<Longrightarrow> dirty_ref inst sh' a v" "dirty_ref pinst sh a v \<Longrightarrow> dirty_ref pinst sh' a v"
  using stable_refs [OF assms] proto_pool [OF assms(1)] by (auto simp: dirty_ref_def)

theorem stable_frame_inv:
  assumes "proto sh sh'" and "proto_inv sh" and "frame_inv sh f"
  shows "frame_inv sh' f"
proof (cases f)
  case (MwFrame d depth pc)
  then show ?thesis using assms stable_active [OF assms(1,2)] stable_pc_inv [OF assms(1,2)] by simp
next
  case (RdFrame a rpc)
  then show ?thesis
    using assms(3) stable_cond_ref [OF assms(1,2)] stable_completes [OF assms(1,2)]
      stable_dirty_ref [OF assms(1,2)]
    by (cases rpc) auto
qed

end
