(* ===== verification/Mwcas_Steps.thy ===== *)
theory Mwcas_Steps
  imports Mwcas_Frames
begin

text \<open>
  Every step of a frame makes a change that the protocol allows, establishes the assertion of the
  program point it moves to, and fires no fatal check. The one condition is on the first CAS of
  \<open>CondCAS\<close>: it must not put a word descriptor of an operation that has already succeeded back into
  memory (\<open>late_install\<close>), which can happen when the target word has returned to the expected value
  after the operation was completed.
\<close>

definition late_install :: "shared \<Rightarrow> u64 \<Rightarrow> nat \<Rightarrow> bool" where
  "late_install sh d i \<longleftrightarrow> mem sh (waddr sh d i) = wold sh d i \<and> st sh d = kStatusSucceeded"

definition cond_ok :: "shared \<Rightarrow> u64 \<Rightarrow> nat \<Rightarrow> cond_outcome \<Rightarrow> bool" where
  "cond_ok sh d i out \<longleftrightarrow> (case out of
      CGoto c sh' \<Rightarrow> proto sh sh' \<and> cond_inv sh' d i c
    | CRet r sh' \<Rightarrow> proto sh sh' \<and> rval_inv sh' d i r
    | CAbort m \<Rightarrow> False)"

lemma cond_ok_simps [simp]:
  "cond_ok sh d i (CGoto c sh') \<longleftrightarrow> proto sh sh' \<and> cond_inv sh' d i c"
  "cond_ok sh d i (CRet r sh') \<longleftrightarrow> proto sh sh' \<and> rval_inv sh' d i r"
  "\<not> cond_ok sh d i (CAbort m)"
  by (simp_all add: cond_ok_def)

declare proto.p_skip [simp, intro]

lemma cas_proto:
  assumes "mem sh a = cmp \<Longrightarrow> write_ok sh a v"
  shows "proto sh (snd (CompareExchange64 sh a v cmp))"
  using assms by (auto simp: CompareExchange64_def intro: proto.intros)

lemma cas_eq:
  "CompareExchange64 sh a v cmp =
     (if mem sh a = cmp then (cmp, sh\<lparr>mem := (mem sh)(a := v)\<rparr>) else (mem sh a, sh))"
  by (auto simp: CompareExchange64_def)

lemma mem_write_facts [simp]:
  "inst (sh\<lparr>mem := m\<rparr>) d a \<longleftrightarrow> decided sh d \<or> is_mw d (m a)"
  "own_cond (sh\<lparr>mem := m\<rparr>) d i \<longleftrightarrow> decided sh d \<or> m (waddr sh d i) = cond_descptr d i \<or> is_mw d (m (waddr sh d i))"
  "cond_ref (sh\<lparr>mem := m\<rparr>) = cond_ref sh"
  by (simp_all add: inst_def own_cond_def cond_ref_def fun_eq_iff)

section \<open>The conditional CAS\<close>

lemma completes_write:
  assumes inv: "proto_inv sh" and c: "completes sh a ret newv" and m: "mem sh a = ret"
  shows "write_ok sh a newv"
  using c promote_ok [OF inv] demote_ok [OF inv] m unfolding completes_def by auto

lemma found_word:
  assumes inv: "proto_inv sh" and ne: "mem sh a \<noteq> v"
  obtains (plain) "plain (pool sh) (mem sh a)" "mem sh a \<noteq> v"
    | (cond) "cond_ref sh a (mem sh a)" "IsCondCASDescriptorPtr (mem sh a)"
    | (mw) x where "active sh x" "is_mw x (mem sh a)" "\<not> IsCondCASDescriptorPtr (mem sh a)"
proof -
  note dinv = proto_invD(1) [OF inv]
  from proto_invD(2) [OF inv, of a] consider "plain (pool sh) (mem sh a)"
    | x i where "target sh x i" "waddr sh x i = a" "mem sh a = cond_descptr x i"
    | x i where "target sh x i" "is_mw x (mem sh a)"
    by (auto simp: good_word_def)
  then show thesis
  proof cases
    case 1
    then show thesis using plain ne by blast
  next
    case (2 x i)
    then show thesis
      using cond cond_descptr_tests(1) [OF target_word(1) [OF dinv 2(1)]] unfolding cond_ref_def by metis
  next
    case (3 x i)
    then show thesis
      using mw targetD(1) [OF 3(1)] is_mw_tests(2) [OF 3(2) pool_cleanD(1) [OF dinv targetD(3) [OF 3(1)]]]
      by blast
  qed
qed

lemma CTry_ok:
  assumes inv: "proto_inv sh" and t: "target sh d i" and late: "\<not> late_install sh d i"
  shows "cond_ok sh d i (CondCAS_step df d i CTry sh)"
proof (cases "mem sh (waddr sh d i) = wold sh d i")
  case True
  have "write_ok sh (waddr sh d i) (cond_descptr d i)"
    using install_ok [OF inv t True] late True by (simp add: late_install_def)
  moreover have "\<not> IsCondCASDescriptorPtr (wold sh d i)"
    using target_values(1) [OF proto_invD(1) [OF inv] t] by simp
  ultimately show ?thesis
    using True by (simp add: CondCAS_step_def Let_def cas_eq proto.p_write)
next
  case False
  with inv show ?thesis
  proof (cases rule: found_word)
    case plain
    then show ?thesis using False
      by (auto simp: CondCAS_step_def Let_def cas_eq rval_inv_def plain_def)
  next
    case cond
    then show ?thesis using False by (simp add: CondCAS_step_def Let_def cas_eq)
  next
    case (mw x)
    then show ?thesis using False
      by (auto simp: CondCAS_step_def Let_def cas_eq rval_inv_def inst_def)
  qed
qed

lemma completion_completes:
  assumes dinv: "desc_inv sh" and t: "target sh x j"
  shows "completes sh (waddr sh x j) (cond_descptr x j) (completion sh kDirtyFlag (word_at sh x j))"
proof -
  have own: "ownDesc (word_at sh x j) = x" by (rule target_values(3) [OF dinv t])
  have "wf_status (status (descs sh x))"
    using desc_inv_active [OF dinv targetD(1) [OF t]] by (simp add: wf_active_def)
  then have "status (descs sh x) = kStatusUndecided \<or> decided sh x"
    by (auto simp: wf_status_def decided_def st_def)
  then show ?thesis using t own unfolding completes_def completion_def by auto
qed

lemma cond_ref_deref:
  assumes dinv: "desc_inv sh" and c: "cond_ref sh a ret"
  obtains wd where "deref_word sh (CleanPtr ret) = Some wd" "address wd = a"
    "completes sh a ret (completion sh kDirtyFlag wd)"
proof -
  obtain x j where x: "target sh x j" "waddr sh x j = a" "ret = cond_descptr x j"
    using c by (auto simp: cond_ref_def)
  show thesis
    using that target_deref [OF dinv x(1)] completion_completes [OF dinv x(1)] x(2,3) by blast
qed

lemma completes_deref:
  assumes dinv: "desc_inv sh" and c: "completes sh a ret newv"
  obtains x wd where "deref_word sh (CleanPtr ret) = Some wd" "address wd = a" "ownDesc wd = x"
    "active sh x" "newv = mwcas_descptr kDirtyFlag x \<or> decided sh x"
proof -
  obtain x j where x: "target sh x j" "waddr sh x j = a" "ret = cond_descptr x j"
      "newv = wold sh x j \<and> decided sh x \<or> newv = mwcas_descptr kDirtyFlag x"
    using c by (auto simp: completes_def)
  show thesis
    using that [of "word_at sh x j" x] target_deref [OF dinv x(1)] target_values(3) [OF dinv x(1)] x
      targetD(1) [OF x(1)] by auto
qed

lemma CSwap_ok:
  assumes inv: "proto_inv sh" and t: "target sh d i" and c: "completes sh (waddr sh d i) ret newv"
  shows "cond_ok sh d i (CondCAS_step kDirtyFlag d i (CSwap ret desired newv) sh)"
proof -
  obtain x wd where wd: "deref_word sh (CleanPtr ret) = Some wd" "address wd = waddr sh d i"
      "ownDesc wd = x" "active sh x" "newv = mwcas_descptr kDirtyFlag x \<or> decided sh x"
    by (rule completes_deref [OF proto_invD(1) [OF inv] c])
  have ok: "mem sh (waddr sh d i) = ret \<Longrightarrow> write_ok sh (waddr sh d i) newv"
    by (rule completes_write [OF inv c])
  have r: "rval_inv (sh\<lparr>mem := (mem sh)(waddr sh d i := newv)\<rparr>) d i (mwcas_descptr kDirtyFlag x)"
    unfolding rval_inv_def using wd(4,5) by (intro disjI2 disjI1 exI [of _ x]) auto
  show ?thesis
  proof (cases "mem sh (waddr sh d i) = ret")
    case True
    then show ?thesis
      using wd(1-3) r proto.p_write [OF ok [OF True]]
      by (simp add: CondCAS_step_def Let_def cas_eq)
  next
    case False
    then show ?thesis using wd(1-3) by (simp add: CondCAS_step_def Let_def cas_eq)
  qed
qed

lemma COwnSwap_ok:
  assumes inv: "proto_inv sh" and t: "target sh d i" and c: "cond_inv sh d i (COwnSwap newv)"
  shows "cond_ok sh d i (CondCAS_step df d i (COwnSwap newv) sh)"
proof (cases "mem sh (waddr sh d i) = cond_descptr d i")
  case True
  have "write_ok sh (waddr sh d i) newv"
    using c promote_ok [OF inv t True] demote_ok [OF inv t True] by auto
  then show ?thesis
    using True c by (auto simp: CondCAS_step_def Let_def cas_eq rval_inv_def intro: proto.p_write)
next
  case False
  then show ?thesis
    using c by (auto simp: CondCAS_step_def Let_def cas_eq rval_inv_def own_cond_def inst_def)
qed

theorem CondCAS_ok:
  assumes inv: "proto_inv sh" and t: "target sh d i" and c: "cond_inv sh d i c"
    and late: "c = CTry \<Longrightarrow> \<not> late_install sh d i"
  shows "cond_ok sh d i (CondCAS_step kDirtyFlag d i c sh)"
proof -
  note dinv = proto_invD(1) [OF inv]
  have dec: "status (descs sh d) = kStatusUndecided \<or> decided sh d"
    using desc_inv_active [OF dinv targetD(1) [OF t]]
    by (auto simp: wf_active_def wf_status_def decided_def st_def)
  show ?thesis
  proof (cases c)
    case CTry
    then show ?thesis using CTry_ok [OF inv t] late by simp
  next
    case (CStat ret)
    then have "cond_ref sh (waddr sh d i) ret" using c by simp
    moreover from cond_ref_deref [OF dinv this] obtain wd where
      "deref_word sh (CleanPtr ret) = Some wd" "address wd = waddr sh d i" by blast
    ultimately show ?thesis by (simp add: CStat CondCAS_step_def Let_def)
  next
    case (CStat2 ret desired)
    then have "cond_ref sh (waddr sh d i) ret" using c by simp
    from cond_ref_deref [OF dinv this] obtain wd where
      "deref_word sh (CleanPtr ret) = Some wd"
      "completes sh (waddr sh d i) ret (completion sh kDirtyFlag wd)" by blast
    then show ?thesis by (simp add: CStat2 CondCAS_step_def Let_def)
  next
    case (CSwap ret desired newv)
    then show ?thesis using CSwap_ok [OF inv t] c by simp
  next
    case (COwnSwap newv)
    then show ?thesis using COwnSwap_ok [OF inv t] c by simp
  qed (use c dec in \<open>auto simp: CondCAS_step_def Let_def\<close>)
qed

section \<open>The persistent MwCAS\<close>

definition step_ok :: "shared \<Rightarrow> u64 \<Rightarrow> outcome \<Rightarrow> bool" where
  "step_ok sh d out \<longleftrightarrow> (case out of
      Goto pc sh' \<Rightarrow> proto sh sh' \<and> pc_inv sh' d pc
    | Call x pc sh' \<Rightarrow> proto sh sh' \<and> pc_inv sh' d pc \<and> active sh' x
    | Return b sh' \<Rightarrow> sh' = sh \<and> settled sh d \<and> (b \<longleftrightarrow> st sh d = kStatusSucceeded)
    | Abort m \<Rightarrow> False)"

lemma step_ok_simps [simp]:
  "step_ok sh d (Goto pc sh') \<longleftrightarrow> proto sh sh' \<and> pc_inv sh' d pc"
  "step_ok sh d (Call x pc sh') \<longleftrightarrow> proto sh sh' \<and> pc_inv sh' d pc \<and> active sh' x"
  "step_ok sh d (Return b sh') \<longleftrightarrow> sh' = sh \<and> settled sh d \<and> (b \<longleftrightarrow> st sh d = kStatusSucceeded)"
  "\<not> step_ok sh d (Abort m)"
  by (simp_all add: step_ok_def)

text \<open>An assertion that holds before an allowed change holds after it.\<close>

lemma step_ok_stable:
  assumes "proto_inv sh" and "active sh d" and "proto sh sh'" and "pc_inv sh d pc"
  shows "step_ok sh d (Goto pc sh')"
    and "active sh x \<Longrightarrow> step_ok sh d (Call x pc sh')"
  using stable_pc_inv [OF assms(3,1,2,4)] stable_active [OF assms(3,1)] assms(3) by simp_all

lemma active_status:
  assumes "desc_inv sh" and "active sh d"
  shows "status (descs sh d) = kStatusUndecided \<or> decided sh d"
    "status (descs sh d) = kStatusUndecided \<Longrightarrow> \<not> decided sh d"
  using desc_inv_active [OF assms]
  by (auto simp: wf_active_def wf_status_def decided_def st_def)

lemma flush_status_proto:
  assumes "desc_inv sh" and "active sh d"
  shows "proto sh (flush_status sh d)"
  unfolding flush_status_def
  using desc_inv_active [OF assms] active_pool [OF assms(2)]
  by (intro proto.p_persist) (simp_all add: wf_active_def)

lemma pinst_flush: "inst sh x a \<Longrightarrow> pinst (flush_word sh a) x a"
  by (auto simp: inst_def pinst_def flush_word_def)

lemma upto_Suc: "upto P sh d n \<Longrightarrow> (n < count (descs sh d) \<Longrightarrow> P sh d (waddr sh d n)) \<Longrightarrow> upto P sh d (Suc n)"
  by (auto simp: upto_def less_Suc_eq)

lemma upto_all: "upto P sh d n \<Longrightarrow> count (descs sh d) \<le> n \<Longrightarrow> upto P sh d m"
  by (auto simp: upto_def)

lemma undirty_ref_proto:
  assumes inv: "proto_inv sh" and act: "active sh x" and p: "pinst sh x a"
  shows "proto sh (snd (CompareExchange64 sh a (mwcas_descptr 0 x) (mwcas_descptr kDirtyFlag x)))"
proof (rule cas_proto)
  assume "mem sh a = mwcas_descptr kDirtyFlag x"
  then show "write_ok sh a (mwcas_descptr 0 x)"
    using p by (intro undirty_mw_ok [OF inv act]) (auto simp: pinst_def)
qed

lemma frame_dinv: "proto_inv sh \<Longrightarrow> active sh d \<Longrightarrow> desc_inv sh"
  by (rule proto_invD(1))

lemma frame_clean: "proto_inv sh \<Longrightarrow> active sh d \<Longrightarrow> IsCleanPtr d"
  using pool_cleanD(1) [OF proto_invD(1)] active_pool by blast

lemma frame_target: "proto_inv sh \<Longrightarrow> active sh d \<Longrightarrow> i < count (descs sh d) \<Longrightarrow> target sh d i"
  by (simp add: target_def)

lemma frame_nonnull: "proto_inv sh \<Longrightarrow> active sh d \<Longrightarrow> i < count (descs sh d) \<Longrightarrow> waddr sh d i \<noteq> 0"
  using target_values(4) [OF proto_invD(1) frame_target] by blast

lemma StatusClear_ok:
  assumes inv: "proto_inv sh" and act: "active sh d"
    and pc: "pc_inv sh d (StatusClear s)"
  shows "step_ok sh d (PersistentMwCAS_step d k (StatusClear s) sh)"
proof -
  have "proto sh (snd (CompareExchange32 sh d (clean_status s) s))"
    using proto.p_clear [OF act] by (auto simp: CompareExchange32_def st_def)
  then show ?thesis by (simp add: upto_def)
qed

lemma InCond_ok:
  assumes inv: "proto_inv sh" and act: "active sh d"
    and pc: "pc_inv sh d (InCond i c)" and late: "c = CTry \<Longrightarrow> \<not> late_install sh d i"
  shows "step_ok sh d (PersistentMwCAS_step d k (InCond i c) sh)"
proof -
  have i: "i < count (descs sh d)" "upto inst sh d i" "cond_inv sh d i c" using pc by simp_all
  have ok: "cond_ok sh d i (CondCAS_step kDirtyFlag d i c sh)"
    by (rule CondCAS_ok [OF inv frame_target [OF inv act i(1)] i(3) late])
  have keep: "i < count (descs sh' d) \<and> upto inst sh' d i" if "proto sh sh'" for sh'
    using stable_active [OF that inv act] stable_upto(1) [OF that inv act i(2)] i(1) by simp
  show ?thesis using ok keep by (cases "CondCAS_step kDirtyFlag d i c sh") auto
qed

lemma GotRval_ok:
  assumes inv: "proto_inv sh" and act: "active sh d"
    and pc: "pc_inv sh d (GotRval i r)"
  shows "step_ok sh d (PersistentMwCAS_step d k (GotRval i r) sh)"
proof -
  have i: "i < count (descs sh d)" "upto inst sh d i" "rval_inv sh d i r" using pc by simp_all
  have old: "IsCleanPtr (wold sh d i)" "wold sh d i \<notin> set (pool sh)"
    using target_values(1,5) [OF frame_dinv [OF inv act] frame_target [OF inv act i(1)]] by simp_all
  have cl: "IsCleanPtr x" if "active sh x" for x
    by (rule pool_cleanD(1) [OF frame_dinv [OF inv act] active_pool [OF that]])
  have mw: "IsMwCASDescriptorPtr r" "CleanPtr r = x" if "active sh x" "is_mw x r" for x
    using is_mw_tests [OF that(2) cl [OF that(1)]] by simp_all
  from i(3) consider (own) "r = wold sh d i" "inst sh d (waddr sh d i)"
    | (ptr) x where "active sh x" "is_mw x r" "inst sh x (waddr sh d i)"
    | (other) "plain (pool sh) r" "r \<noteq> wold sh d i"
    by (auto simp: rval_inv_def)
  then show ?thesis
  proof cases
    case own
    then show ?thesis using upto_Suc [of inst sh d i] i(2) by simp
  next
    case (ptr x)
    note m = mw [OF ptr(1,2)]
    have "r \<noteq> wold sh d i" using m(1) old(1) by auto
    moreover have "step_ok sh d (Goto (HelpFlush i r) sh)" if "IsDirtyPtr r"
      using that ptr i mwcas_descptr_dirty(2) [OF cl [OF ptr(1)]]
      by (auto simp: ref_def is_mw_def)
    moreover have "upto inst sh d (Suc i)" if "x = d"
      using upto_Suc [of inst sh d i] i(2) ptr(3) that by simp
    ultimately show ?thesis using m ptr(1) i(1,2) by simp
  next
    case other
    then have "CleanPtr r \<noteq> d" "\<not> IsMwCASDescriptorPtr r"
      using active_pool [OF act] by (auto simp: plain_def)
    then show ?thesis using other by simp
  qed
qed

lemma HelpFlush_ok:
  assumes inv: "proto_inv sh" and act: "active sh d"
    and pc: "pc_inv sh d (HelpFlush i r)"
  shows "step_ok sh d (PersistentMwCAS_step d k (HelpFlush i r) sh)"
proof -
  let ?sh' = "flush_word sh (waddr sh d i)"
  have i: "i < count (descs sh d)" "upto inst sh d i" using pc by simp_all
  obtain x where x: "active sh x" "r = mwcas_descptr kDirtyFlag x" "inst sh x (waddr sh d i)"
    using pc by (auto simp: ref_def)
  have p: "proto sh ?sh'" by (rule proto.p_flush)
  have "ref pinst ?sh' (waddr sh d i) r"
    using pinst_flush [OF x(3)] stable_active [OF p inv x(1)] x(2) unfolding ref_def by blast
  then show ?thesis
    using p i frame_nonnull [OF inv act i(1)] stable_active [OF p inv act] stable_upto(1) [OF p inv act i(2)]
    by (simp add: flush_then_def)
qed

lemma HelpClear_ok:
  assumes inv: "proto_inv sh" and act: "active sh d"
    and pc: "pc_inv sh d (HelpClear i r)"
  shows "step_ok sh d (PersistentMwCAS_step d k (HelpClear i r) sh)"
proof -
  obtain x where x: "active sh x" "r = mwcas_descptr kDirtyFlag x" "pinst sh x (waddr sh d i)"
    using pc by (auto simp: ref_def)
  have cl: "IsCleanPtr x" by (rule pool_cleanD(1) [OF frame_dinv [OF inv act] active_pool [OF x(1)]])
  have "CleanPtr r = x" "ClearDirty r = mwcas_descptr 0 x"
    using is_mw_tests(3) [OF is_mw_descptr(2) cl] mwcas_descptr_dirty(3) [OF cl] x(2) by simp_all
  then show ?thesis
    using step_ok_stable(2) [OF inv act undirty_ref_proto [OF inv x(1,3)], of "InCond i CTry" x] x pc
    by simp
qed

lemma PersistLoad_ok:
  assumes inv: "proto_inv sh" and act: "active sh d"
    and pc: "pc_inv sh d (PersistLoad i)"
  shows "step_ok sh d (PersistentMwCAS_step d k (PersistLoad i) sh)"
proof -
  have i: "upto inst sh d (count (descs sh d))" "upto pinst sh d i" using pc by simp_all
  have "pinst sh d (waddr sh d i)"
    if lt: "i < count (descs sh d)" and ne: "mem sh (waddr sh d i) \<noteq> mwcas_descptr kDirtyFlag d"
  proof (cases "decided sh d")
    case False
    then have "mem sh (waddr sh d i) = mwcas_descptr 0 d"
      using i(1) lt ne by (auto simp: upto_def inst_def is_mw_def)
    moreover have "st sh d = kStatusUndecided" using False active_undecided [OF act] by simp
    ultimately show ?thesis
      using slot_invD(4) [OF inv frame_target [OF inv act lt] refl] by (simp add: pinst_def)
  qed (simp add: pinst_def)
  then show ?thesis using i upto_Suc [OF i(2)] upto_all [OF i(2)] by auto
qed

lemma PersistFlush_ok:
  assumes inv: "proto_inv sh" and act: "active sh d"
    and pc: "pc_inv sh d (PersistFlush i)"
  shows "step_ok sh d (PersistentMwCAS_step d k (PersistFlush i) sh)"
proof -
  let ?sh' = "flush_word sh (waddr sh d i)"
  have i: "i < count (descs sh d)" "upto inst sh d (count (descs sh d))" "upto pinst sh d i"
    using pc by simp_all
  have p: "proto sh ?sh'" by (rule proto.p_flush)
  note a = stable_active [OF p inv act]
  have "inst sh d (waddr sh d i)" using i by (simp add: upto_def)
  then have "upto pinst ?sh' d (Suc i)"
    using upto_Suc [OF stable_upto(2) [OF p inv act i(3)]] pinst_flush a by simp
  then show ?thesis
    using p i frame_nonnull [OF inv act i(1)] a stable_upto(1) [OF p inv act i(2)] by (simp add: flush_then_def)
qed

lemma PersistClear_ok:
  assumes inv: "proto_inv sh" and act: "active sh d"
    and pc: "pc_inv sh d (PersistClear i)"
  shows "step_ok sh d (PersistentMwCAS_step d k (PersistClear i) sh)"
proof -
  have "pinst sh d (waddr sh d i)" using pc by (auto simp: upto_def)
  note p = undirty_ref_proto [OF inv act this]
  show ?thesis
    using step_ok_stable(1) [OF inv act p, of "PersistLoad (Suc i)"] pc
      mwcas_descptr_dirty(3) [OF frame_clean [OF inv act]] by simp
qed

lemma Decide_ok:
  assumes inv: "proto_inv sh" and act: "active sh d"
    and pc: "pc_inv sh d (Decide s)"
  shows "step_ok sh d (PersistentMwCAS_step d k (Decide s) sh)"
proof (cases "status (descs sh d) = kStatusUndecided")
  case True
  have nd: "\<not> decided sh d" by (rule active_status(2) [OF frame_dinv [OF inv act] act True])
  have "s = kStatusSucceeded \<and> all_installed sh d \<or> s = kStatusFailed"
    using pc nd by (auto simp: upto_def pinst_def all_installed_def)
  then have "proto sh (set_status sh d (s OR kStatusDirtyFlag))"
    by (rule proto.p_decide [OF act True])
  moreover have "decided (set_status sh d (s OR kStatusDirtyFlag)) d"
    using pc by (auto simp: decided_def st_set_status)
  ultimately show ?thesis using True by (simp add: CompareExchange32_def)
next
  case False
  then show ?thesis using active_status(1) [OF frame_dinv [OF inv act] act] by (simp add: CompareExchange32_def)
qed

lemma StatusStore2_ok:
  assumes inv: "proto_inv sh" and act: "active sh d"
    and pc: "pc_inv sh d (StatusStore2 s)"
  shows "step_ok sh d (PersistentMwCAS_step d k (StatusStore2 s) sh)"
proof -
  have s: "durable sh d" "clean_status s = st sh d" using pc by simp_all
  let ?sh' = "set_status sh d (st sh d)"
  have p: "proto sh ?sh'" by (rule proto.p_clear [OF act])
  have "settled ?sh' d"
    using stable_durable [OF p inv act s(1)] stable_decided [OF p inv act] s(1)
    by (simp add: settled_def durable_def)
  then show ?thesis using p s(2) by simp
qed

lemma final_plain:
  assumes inv: "proto_inv sh" and act: "active sh d"
    and i: "i < count (descs sh d)"
  shows "plain (pool sh) (final_value b (word_at sh d i))"
  using plain_value(3,4) [OF frame_dinv [OF inv act] frame_target [OF inv act i]] by (simp add: final_value_def)

lemma final_write:
  assumes inv: "proto_inv sh" and act: "active sh d"
    and i: "i < count (descs sh d)" and set: "settled sh d" and b: "b \<longleftrightarrow> st sh d = kStatusSucceeded"
    and mw: "is_mw d v"
  shows "proto sh (snd (CompareExchange64 sh (waddr sh d i) (final_value b (word_at sh d i)) v))"
proof (rule cas_proto)
  assume m: "mem sh (waddr sh d i) = v"
  have "decided sh d" "pst sh d = st sh d" using set by (auto simp: settled_def durable_def)
  then show "write_ok sh (waddr sh d i) (final_value b (word_at sh d i))"
    using resolve_ok [OF inv frame_target [OF inv act i] _ _ _ b] mw m by simp
qed

lemma Final_ok:
  assumes inv: "proto_inv sh" and act: "active sh d"
    and pc: "pc_inv sh d (Final i b)"
  shows "step_ok sh d (PersistentMwCAS_step d k (Final i b) sh)"
proof (cases "i < count (descs sh d)")
  case True
  let ?r = "CompareExchange64 sh (waddr sh d i) (final_value b (word_at sh d i)) (mwcas_descptr kDirtyFlag d)"
  have p: "proto sh (snd ?r)"
    using final_write [OF inv act True] pc by simp
  have "step_ok sh d (Goto (Final2 i b) (snd ?r))" "step_ok sh d (Goto (FinalFlush i b) (snd ?r))"
    using pc True by (intro step_ok_stable(1) [OF inv act p]; simp)+
  then show ?thesis using True by (simp del: step_ok_simps add: Let_def case_prod_beta)
qed (use pc in simp)

lemma Final2_ok:
  assumes inv: "proto_inv sh" and act: "active sh d"
    and pc: "pc_inv sh d (Final2 i b)"
  shows "step_ok sh d (PersistentMwCAS_step d k (Final2 i b) sh)"
proof -
  have "proto sh (snd (CompareExchange64 sh (waddr sh d i) (final_value b (word_at sh d i))
      (ClearDirty (mwcas_descptr kDirtyFlag d))))"
    using final_write [OF inv act] pc mwcas_descptr_dirty(3) [OF frame_clean [OF inv act]] by simp
  then show ?thesis
    using step_ok_stable(1) [OF inv act, where pc = "FinalFlush i b"] pc
    by (simp del: step_ok_simps add: Let_def)
qed

lemma FinalFlush_ok:
  assumes inv: "proto_inv sh" and act: "active sh d"
    and pc: "pc_inv sh d (FinalFlush i b)"
  shows "step_ok sh d (PersistentMwCAS_step d k (FinalFlush i b) sh)"
  using step_ok_stable(1) [OF inv act proto.p_flush, of "FinalClear i b"] pc frame_nonnull [OF inv act, of i]
  by (simp add: flush_then_def)

lemma FinalClear_ok:
  assumes inv: "proto_inv sh" and act: "active sh d"
    and pc: "pc_inv sh d (FinalClear i b)"
  shows "step_ok sh d (PersistentMwCAS_step d k (FinalClear i b) sh)"
proof -
  let ?v = "final_value b (word_at sh d i)"
  have "proto sh (snd (CompareExchange64 sh (waddr sh d i) (ClearDirty ?v) ?v))"
  proof (rule cas_proto)
    assume "mem sh (waddr sh d i) = ?v"
    then show "write_ok sh (waddr sh d i) (ClearDirty ?v)"
      using undirty_plain_ok [OF inv, of "waddr sh d i"] final_plain [OF inv act] pc by simp
  qed
  then show ?thesis
    using step_ok_stable(1) [OF inv act, where pc = "Final (Suc i) b"] pc
    by (simp del: step_ok_simps add: Let_def)
qed

lemma Exit_ok:
  assumes inv: "proto_inv sh" and act: "active sh d"
    and pc: "pc_inv sh d (Exit b)"
  shows "step_ok sh d (PersistentMwCAS_step d k (Exit b) sh)"
  using pc by (auto simp: Cleanup_def Let_def settled_def durable_def decided_def)

lemmas pc_steps_ok = StatusClear_ok GotRval_ok HelpFlush_ok HelpClear_ok PersistLoad_ok PersistFlush_ok
  PersistClear_ok Decide_ok StatusStore2_ok Final_ok Final2_ok FinalFlush_ok FinalClear_ok Exit_ok

theorem PersistentMwCAS_ok:
  assumes inv: "proto_inv sh" and act: "active sh d"
    and pc: "pc_inv sh d pc" and late: "\<And>i. pc = InCond i CTry \<Longrightarrow> \<not> late_install sh d i"
  shows "step_ok sh d (PersistentMwCAS_step d k pc sh)"
proof (cases pc)
  case (InCond i c)
  then show ?thesis using InCond_ok [OF inv act] pc late by blast
next
  case (StatusFlush s)
  then show ?thesis using flush_status_proto [OF frame_dinv [OF inv act] act] by simp
next
  case StatusFlush2
  note p = flush_status_proto [OF frame_dinv [OF inv act] act]
  have "pst (flush_status sh d) d = st sh d" by (simp add: flush_status_def pst_pdescs_update st_def)
  then have "durable (flush_status sh d) d"
    using stable_decided [OF p inv act] pc StatusFlush2 by (simp add: durable_def)
  then show ?thesis using p StatusFlush2 by simp
next
  case (Loop i s)
  then show ?thesis using pc upto_all [of inst sh d i] by (auto simp: upto_def)
next
  case DecideCheck
  then show ?thesis using pc by (auto simp: decided_def st_def)
next
  case StatusLoad2
  then show ?thesis using pc by (simp add: st_def)
next
  case Outcome
  then show ?thesis using pc by (simp add: settled_def)
qed (insert pc, simp add: upto_def Let_def, (simp only:, erule pc_steps_ok [OF inv act])+)

end
