(* ===== verification/Mwcas_Safety.thy ===== *)
theory Mwcas_Safety
  imports Mwcas_Steps
begin

text \<open>
  The whole machine: the read operation, the start of an operation, the invariant over all threads
  and its preservation by every event of an execution without a late install.
\<close>

section \<open>Reading\<close>

definition read_ok :: "shared \<Rightarrow> u64 \<Rightarrow> read_outcome \<Rightarrow> bool" where
  "read_ok sh a out \<longleftrightarrow> (case out of
      RGoto rpc sh' \<Rightarrow> proto sh sh' \<and> read_inv sh' a rpc
    | RCall x rpc sh' \<Rightarrow> proto sh sh' \<and> read_inv sh' a rpc \<and> active sh' x
    | RRet v sh' \<Rightarrow> proto sh sh' \<and> app_value (pool sh) v
    | RAbort m \<Rightarrow> False)"

lemma read_ok_simps [simp]:
  "read_ok sh a (RGoto rpc sh') \<longleftrightarrow> proto sh sh' \<and> read_inv sh' a rpc"
  "read_ok sh a (RCall x rpc sh') \<longleftrightarrow> proto sh sh' \<and> read_inv sh' a rpc \<and> active sh' x"
  "read_ok sh a (RRet v sh') \<longleftrightarrow> proto sh sh' \<and> app_value (pool sh) v"
  "\<not> read_ok sh a (RAbort m)"
  by (simp_all add: read_ok_def)

lemma read_finish_plain:
  assumes "plain (pool sh) v" and "\<not> IsDirtyPtr v" and "proto sh sh'"
  shows "read_finish v sh' = RRet v sh'" "app_value (pool sh) v"
proof -
  have "IsCleanPtr v"
    using assms(1,2) by (simp add: plain_def flag_defs)
  then show "read_finish v sh' = RRet v sh'" "app_value (pool sh) v"
    using assms(1) by (simp_all add: read_finish_def plain_def app_value_def)
qed

lemma read_finish_mw:
  assumes inv: "proto_inv sh" and act: "active sh x" and p: "proto sh sh'"
  shows "read_ok sh a (read_finish (mwcas_descptr 0 x) sh')"
proof -
  have cl: "IsCleanPtr x" "x \<noteq> 0"
    using pool_cleanD [OF proto_invD(1) [OF inv] active_pool [OF act]] by simp_all
  then show ?thesis
    using is_mw_tests [OF is_mw_descptr(1) cl(1)] p stable_active [OF p inv act]
    by (simp add: read_finish_def)
qed

lemma RLoad_ok:
  assumes inv: "proto_inv sh"
  shows "read_ok sh a (GetValuePersistent_step a RLoad sh)"
proof -
  note dinv = proto_invD(1) [OF inv]
  from proto_invD(2) [OF inv, of a] consider (plain) "plain (pool sh) (mem sh a)"
    | (cond) x i where "target sh x i" "waddr sh x i = a" "mem sh a = cond_descptr x i"
    | (mw) x i where "target sh x i" "is_mw x (mem sh a)"
    by (auto simp: good_word_def)
  then show ?thesis
  proof cases
    case plain
    then have "\<not> IsCondCASDescriptorPtr (mem sh a)" by (simp add: plain_def)
    then show ?thesis
      using read_finish_plain [OF plain _ proto.p_skip] plain by (simp add: Let_def dirty_ref_def)
  next
    case (cond x i)
    then have "cond_ref sh a (mem sh a)" unfolding cond_ref_def by blast
    then show ?thesis
      using cond_descptr_tests [OF target_word(1) [OF dinv cond(1)]] cond by (simp add: Let_def)
  next
    case (mw x i)
    have act: "active sh x" by (rule targetD(1) [OF mw(1)])
    have cl: "IsCleanPtr x" by (rule pool_cleanD(1) [OF dinv active_pool [OF act]])
    have nc: "\<not> IsCondCASDescriptorPtr (mem sh a)" using is_mw_tests [OF mw(2) cl] by simp
    show ?thesis
    proof (cases "IsDirtyPtr (mem sh a)")
      case True
      then have "mem sh a = mwcas_descptr kDirtyFlag x"
        using mw(2) mwcas_descptr_dirty(2) [OF cl] by (auto simp: is_mw_def)
      then have "ref inst sh a (mem sh a)" unfolding ref_def using act by (auto simp: inst_def)
      then show ?thesis using True nc by (simp add: Let_def dirty_ref_def)
    next
      case False
      then have "mem sh a = mwcas_descptr 0 x"
        using mw(2) mwcas_descptr_dirty(1) [OF cl] by (auto simp: is_mw_def)
      then show ?thesis using False nc read_finish_mw [OF inv act proto.p_skip] by (simp add: Let_def)
    qed
  qed
qed

lemma RClear_ok:
  assumes inv: "proto_inv sh" and r: "dirty_ref pinst sh a v"
  shows "read_ok sh a (GetValuePersistent_step a (RClear v) sh)"
  using r unfolding dirty_ref_def
proof
  assume pl: "plain (pool sh) v"
  have "proto sh (snd (CompareExchange64 sh a (ClearDirty v) v))"
    using undirty_plain_ok [OF inv, of a] pl by (intro cas_proto) auto
  moreover have "plain (pool sh) (ClearDirty v)" using pl by (simp add: plain_def)
  ultimately show ?thesis
    using read_finish_plain [of sh "ClearDirty v"] by simp
next
  assume "ref pinst sh a v"
  then obtain x where x: "active sh x" "v = mwcas_descptr kDirtyFlag x" "pinst sh x a"
    by (auto simp: ref_def)
  have "ClearDirty v = mwcas_descptr 0 x"
    using mwcas_descptr_dirty(3) [OF frame_clean [OF inv x(1)]] x(2) by simp
  then show ?thesis
    using read_finish_mw [OF inv x(1) undirty_ref_proto [OF inv x(1,3)]] x(2) by simp
qed

theorem GetValue_ok:
  assumes inv: "proto_inv sh" and a: "a \<noteq> 0" and r: "read_inv sh a rpc"
  shows "read_ok sh a (GetValuePersistent_step a rpc sh)"
proof (cases rpc)
  case RLoad
  then show ?thesis using RLoad_ok [OF inv] by simp
next
  case (RStat v)
  then have "cond_ref sh a v" using r by simp
  from cond_ref_deref [OF proto_invD(1) [OF inv] this] obtain wd where
    "deref_word sh (CleanPtr v) = Some wd" "completes sh a v (completion sh kDirtyFlag wd)" by blast
  then show ?thesis using RStat by simp
next
  case (RSwap v newv)
  then have c: "completes sh a v newv" using r by simp
  from completes_deref [OF proto_invD(1) [OF inv] this] obtain wd where
    wd: "deref_word sh (CleanPtr v) = Some wd" "address wd = a" by blast
  have "proto sh (snd (CompareExchange64 sh a newv v))"
    by (rule cas_proto [OF completes_write [OF inv c]])
  then show ?thesis using RSwap wd by simp
next
  case (RFlush v)
  have p: "proto sh (flush_word sh a)" by (rule proto.p_flush)
  have "ref pinst (flush_word sh a) a v" if r': "ref inst sh a v"
  proof -
    obtain x where "active sh x" "v = mwcas_descptr kDirtyFlag x" "inst sh x a"
      using r' unfolding ref_def by blast
    then show ?thesis
      unfolding ref_def using pinst_flush stable_active [OF p inv] by (intro exI [of _ x]) simp
  qed
  then have "dirty_ref pinst (flush_word sh a) a v"
    using r RFlush proto_pool [OF p] by (auto simp: dirty_ref_def)
  then show ?thesis using p RFlush a by simp
next
  case (RClear v)
  then show ?thesis using RClear_ok [OF inv] r by simp
qed

section \<open>Starting an operation\<close>

definition entry_ok :: "u64 list \<Rightarrow> u64 \<Rightarrow> word_desc \<Rightarrow> bool" where
  "entry_ok pl d w \<longleftrightarrow> ownDesc w = d \<and> address w \<noteq> 0 \<and> app_value pl (old_value w) \<and>
     app_value pl (new_value w)"

lemma AddEntries_ok:
  assumes "wf_entries desc" and "\<forall>w \<in> set (entries desc). entry_ok pl d w"
    and "count desc + length es \<le> kMaxCount" and "distinct (map fst es)"
    and "\<forall>e \<in> set es. fst e \<notin> address ` set (entries desc)"
    and "list_all (\<lambda>(a, v, v'). a \<noteq> 0 \<and> app_value pl v \<and> app_value pl v') es"
  shows "\<exists>desc'. AddEntries d desc es = Inr desc' \<and> wf_entries desc' \<and>
     (\<forall>w \<in> set (entries desc'). entry_ok pl d w) \<and> count desc' = count desc + length es \<and>
     status desc' = status desc"
  using assms
proof (induction es arbitrary: desc)
  case Nil
  then show ?case by simp
next
  case (Cons e es)
  obtain a v v' where e: "e = (a, v, v')" by (cases e)
  have fresh: "a \<notin> address ` set (entries desc)" and room: "count desc < kMaxCount"
    using Cons.prems(3,5) e by auto
  obtain desc1 where d1: "AddEntry d desc a v v' kRecycleNever = Inr (rank_of desc a, desc1)"
      "entries desc1 = insort_key address \<lparr>address = a, old_value = v, new_value = v',
          ownDesc = d, recycle_policy = kRecycleNever\<rparr> (entries desc)"
      "count desc1 = Suc (count desc)" "length (words desc1) = kMaxCount" "status desc1 = status desc"
    by (rule AddEntry_fresh [OF Cons.prems(1) room fresh])
  have wf: "wf_entries desc1"
    using Cons.prems(1) room fresh d1 sorted_insort_key_strict [of address "entries desc"]
    by (simp add: wf_entries_def)
  have "\<exists>desc'. AddEntries d desc1 es = Inr desc' \<and> wf_entries desc' \<and>
     (\<forall>w \<in> set (entries desc'). entry_ok pl d w) \<and> count desc' = count desc1 + length es \<and>
     status desc' = status desc1"
    using Cons.prems e d1 wf by (intro Cons.IH) (auto simp: set_insort_key entry_ok_def)
  then show ?case using e d1 by auto
qed

lemma start_proto:
  assumes inv: "proto_inv sh" and may: "may_start sh d es"
  obtains sh' where "MwCAS_start sh d es = Inr sh'" "proto sh sh'" "active sh' d"
proof -
  note dinv = proto_invD(1) [OF inv]
  have d: "d \<in> set (pool sh)" and idle: "\<not> active sh d"
    using may by (auto simp: may_start_def active_def st_def)
  then have "wf_idle sh d" using dinv by (auto simp: desc_inv_def)
  then have "wf_entries (descs sh d)" "entries (descs sh d) = []" "count (descs sh d) = 0"
    "status (descs sh d) = kStatusFinished"
    by (auto simp: wf_idle_def wf_entries_def entries_def)
  then obtain desc where desc: "AddEntries d (descs sh d) es = Inr desc" "wf_entries desc"
      "\<forall>w \<in> set (entries desc). entry_ok (pool sh) d w" "status desc = kStatusFinished"
    using AddEntries_ok [of "descs sh d" "pool sh" d es] may by (auto simp: may_start_def)
  let ?desc = "desc\<lparr>status := kStatusUndecided\<rparr>"
  let ?sh = "sh\<lparr>descs := (descs sh)(d := ?desc), pdescs := (pdescs sh)(d := ?desc)\<rparr>"
  have "wf_word ?sh d i" if "i < count desc" for i
  proof -
    have "words desc ! i \<in> set (entries desc)"
      using that desc(2) by (auto simp: entries_def wf_entries_def in_set_conv_nth intro!: exI [of _ i])
    then show ?thesis using desc(3) by (simp add: wf_word_def word_at_def entry_ok_def)
  qed
  then have wf: "wf_active ?sh d"
    using desc(2) by (simp add: wf_active_def wf_status_def pst_def st_def wf_entries_def entries_def)
  have "proto sh ?sh" by (rule proto.p_start [OF d idle _ refl wf]) simp
  moreover have "MwCAS_start sh d es = Inr ?sh" using desc by (simp add: MwCAS_start_def Let_def)
  moreover have "active ?sh d" using d by (simp add: active_def st_def)
  ultimately show thesis using that by blast
qed

section \<open>The invariant of the machine\<close>

definition result_inv :: "shared \<Rightarrow> thread_result \<Rightarrow> bool" where
  "result_inv sh r \<longleftrightarrow> (case r of
      MwResult d b \<Rightarrow> active sh d \<and> settled sh d \<and> (b \<longleftrightarrow> st sh d = kStatusSucceeded)
    | RdResult a v \<Rightarrow> app_value (pool sh) v)"

definition sys_inv :: "sys \<Rightarrow> bool" where
  "sys_inv s \<longleftrightarrow> proto_inv (glob s) \<and> aborted s = None \<and>
     (\<forall>t. \<forall>f \<in> set (stacks s t). frame_inv (glob s) f) \<and>
     (\<forall>(t, r) \<in> set (results s). result_inv (glob s) r)"

text \<open>An event that does not re-install a word descriptor of a successful operation.\<close>

definition timely :: "event \<Rightarrow> sys \<Rightarrow> bool" where
  "timely e s \<longleftrightarrow> (case e of
      Run t \<Rightarrow> (case stacks s t of
          MwFrame d k (InCond i CTry) # fs \<Rightarrow> \<not> late_install (glob s) d i
        | _ \<Rightarrow> True)
    | _ \<Rightarrow> True)"

definition sys_step :: "sys \<Rightarrow> sys \<Rightarrow> bool" where
  "sys_step s s' \<longleftrightarrow> (\<exists>e. timely e s \<and> exec e s = Some s')"

definition init_sys :: "sys \<Rightarrow> bool" where
  "init_sys s \<longleftrightarrow> pool_ok (pool (glob s)) \<and> (\<forall>d \<in> set (pool (glob s)). wf_idle (glob s) d) \<and>
     (\<forall>a. plain (pool (glob s)) (mem (glob s) a)) \<and> nvm (glob s) = mem (glob s) \<and>
     (\<forall>t. stacks s t = []) \<and> results s = [] \<and> aborted s = None"

lemma init_sys_inv:
  assumes "init_sys s"
  shows "sys_inv s"
proof -
  have idle: "\<not> active (glob s) d" for d
    using assms by (auto simp: init_sys_def active_def wf_idle_def st_def)
  then have "\<not> target (glob s) d i" for d i by (simp add: target_def)
  then have "proto_inv (glob s)"
    using assms idle by (intro proto_invI) (auto simp: init_sys_def desc_inv_def good_word_def)
  then show ?thesis using assms by (simp add: sys_inv_def init_sys_def)
qed

text \<open>Frames and results of everyone else survive an allowed change.\<close>

lemma sys_invI:
  assumes inv: "sys_inv s" and p: "proto (glob s) sh'" and g: "glob s' = sh'" and ab: "aborted s' = None"
    and fr: "\<And>f u. f \<in> set (stacks s' u) \<Longrightarrow> f \<in> set (stacks s u) \<or> frame_inv sh' f"
    and rs: "\<And>u r. (u, r) \<in> set (results s') \<Longrightarrow> (u, r) \<in> set (results s) \<or> result_inv sh' r"
  shows "sys_inv s'"
proof -
  have pinv: "proto_inv (glob s)" using inv by (simp add: sys_inv_def)
  have "frame_inv sh' f" if "f \<in> set (stacks s' u)" for f u
    using fr [OF that] inv stable_frame_inv [OF p pinv] by (auto simp: sys_inv_def)
  moreover have "result_inv sh' r" if "(u, r) \<in> set (results s')" for u r
    using rs [OF that]
  proof
    assume "(u, r) \<in> set (results s)"
    then have "result_inv (glob s) r" using inv by (auto simp: sys_inv_def)
    then show ?thesis
      using stable_active [OF p pinv] stable_settled [OF p pinv] proto_pool [OF p]
      by (auto simp: result_inv_def split: thread_result.splits)
  qed
  ultimately show ?thesis
    using proto_preserves_inv [OF p pinv] g ab by (auto simp: sys_inv_def)
qed

lemma mw_frame_step:
  assumes inv: "sys_inv s" and st: "stacks s t = MwFrame d k pc # fs"
    and late: "\<And>i. pc = InCond i CTry \<Longrightarrow> \<not> late_install (glob s) d i"
  shows "sys_inv (frame_step s t (MwFrame d k pc) fs)
     \<and> proto (glob s) (glob (frame_step s t (MwFrame d k pc) fs))"
proof -
  have pinv: "proto_inv (glob s)" and ab: "aborted s = None" using inv by (simp_all add: sys_inv_def)
  have f: "active (glob s) d" "pc_inv (glob s) d pc"
    using inv st by (auto simp: sys_inv_def dest!: spec [of _ t])
  note ok = PersistentMwCAS_ok [OF pinv f(1,2) late, of k]
  show ?thesis
  proof (cases "PersistentMwCAS_step d k pc (glob s)")
    case (Goto pc' sh')
    have "active sh' d" using ok Goto stable_active [OF _ pinv f(1)] by simp
    then show ?thesis
      using ok Goto ab st by (auto simp: frame_step_def intro!: sys_invI [OF inv] split: if_splits)
  next
    case (Call x pc' sh')
    have "active sh' d" using ok Call stable_active [OF _ pinv f(1)] by simp
    then show ?thesis
      using ok Call ab st
      by (auto simp: frame_step_def intro!: sys_invI [OF inv] split: if_splits)
  next
    case (Return b sh')
    then show ?thesis
      using ok ab st f(1)
      by (auto simp: frame_step_def result_inv_def intro!: sys_invI [OF inv] split: if_splits)
  next
    case (Abort m)
    then show ?thesis using ok by simp
  qed
qed

lemma rd_frame_step:
  assumes inv: "sys_inv s" and st: "stacks s t = RdFrame a rpc # fs"
  shows "sys_inv (frame_step s t (RdFrame a rpc) fs)
     \<and> proto (glob s) (glob (frame_step s t (RdFrame a rpc) fs))"
proof -
  have pinv: "proto_inv (glob s)" and ab: "aborted s = None" using inv by (simp_all add: sys_inv_def)
  have "frame_inv (glob s) (RdFrame a rpc)"
    using inv st by (auto simp: sys_inv_def dest!: spec [of _ t])
  then have f: "a \<noteq> 0" "read_inv (glob s) a rpc" by simp_all
  note ok = GetValue_ok [OF pinv f]
  show ?thesis
  proof (cases "GetValuePersistent_step a rpc (glob s)")
    case (RGoto rpc' sh')
    then show ?thesis
      using ok ab st f(1) by (auto simp: frame_step_def intro!: sys_invI [OF inv] split: if_splits)
  next
    case (RCall x rpc' sh')
    then show ?thesis
      using ok ab st f(1) by (auto simp: frame_step_def intro!: sys_invI [OF inv] split: if_splits)
  next
    case (RRet v sh')
    then have "proto (glob s) sh'" "app_value (pool sh') v" using ok proto_pool by auto
    then show ?thesis
      using RRet ab st
      by (auto simp: frame_step_def result_inv_def intro!: sys_invI [OF inv] split: if_splits)
  next
    case (RAbort m)
    then show ?thesis using ok by simp
  qed
qed

text \<open>Every timely event is a move of the protocol and keeps the invariant.\<close>

lemma exec_ok:
  assumes inv: "sys_inv s" and tm: "timely e s" and ex: "exec e s = Some s'"
  shows "sys_inv s' \<and> proto (glob s) (glob s')"
proof -
  have pinv: "proto_inv (glob s)" and ab: "aborted s = None" using inv by (simp_all add: sys_inv_def)
  show ?thesis
  proof (cases e)
    case (Run t)
    then obtain f fs where st: "stacks s t = f # fs" and s': "s' = frame_step s t f fs"
      using ex ab by (auto simp: exec_def split: list.splits)
    show ?thesis
    proof (cases f)
      case (MwFrame d k pc)
      have "\<not> late_install (glob s) d i" if "pc = InCond i CTry" for i
        using tm Run st MwFrame that by (simp add: timely_def)
      then show ?thesis using mw_frame_step [OF inv] st s' MwFrame by blast
    next
      case (RdFrame a rpc)
      then show ?thesis using rd_frame_step [OF inv] st s' by blast
    qed
  next
    case (StartMwCAS t d es)
    then have may: "may_start (glob s) d es" using ex ab by (auto simp: exec_def split: if_splits)
    obtain sh' where sh': "MwCAS_start (glob s) d es = Inr sh'" "proto (glob s) sh'" "active sh' d"
      by (rule start_proto [OF pinv may])
    then have "s' = s\<lparr>glob := sh', stacks := (stacks s)(t := [MwFrame d 0 LoadStatus])\<rparr>"
      using ex ab StartMwCAS by (auto simp: exec_def split: if_splits)
    then show ?thesis using sh' ab by (auto intro!: sys_invI [OF inv] split: if_splits)
  next
    case (StartRead t a)
    then have "a \<noteq> 0" "s' = s\<lparr>stacks := (stacks s)(t := [RdFrame a RLoad])\<rparr>"
      using ex ab by (auto simp: exec_def split: if_splits)
    then show ?thesis
      using ab proto.p_skip by (auto intro!: sys_invI [OF inv] split: if_splits)
  next
    case (EvictWord a)
    then have "s' = s\<lparr>glob := flush_word (glob s) a\<rparr>" using ex ab by (auto simp: exec_def)
    then show ?thesis using ab by (auto intro!: sys_invI [OF inv proto.p_flush [of _ a]] proto.p_flush)
  next
    case (EvictDesc d)
    then have "d \<in> set (pool (glob s))" "s' = s\<lparr>glob := flush_desc (glob s) d\<rparr>"
      using ex ab by (auto simp: exec_def split: if_splits)
    moreover have p: "proto (glob s) (flush_desc (glob s) d)"
      unfolding flush_desc_def by (rule proto.p_persist) (use \<open>d \<in> set (pool (glob s))\<close> in auto)
    ultimately show ?thesis using ab by (auto intro!: sys_invI [OF inv p])
  qed
qed

interpretation mw: invariant_system init_sys sys_step sys_inv
proof
  show "init_sys s \<Longrightarrow> sys_inv s" for s by (rule init_sys_inv)
  show "sys_inv s \<Longrightarrow> sys_step s s' \<Longrightarrow> sys_inv s'" for s s'
    using exec_ok unfolding sys_step_def by blast
qed

lemma sys_step_proto: "sys_inv s \<Longrightarrow> sys_step s s' \<Longrightarrow> proto (glob s) (glob s')"
  using exec_ok unfolding sys_step_def by blast

end
