(* ===== verification/Mwcas_Theorems.thy ===== *)
theory Mwcas_Theorems
  imports Mwcas_Safety
begin

text \<open>
  The correctness of the persistent MwCAS as theorems on the reachable states of the machine:
  atomicity of the operations as the application sees them, atomicity of what survives a crash,
  durability of completed operations, absence of fatal checks, the value a read returns; and the
  execution that shows why a late install has to be excluded.
\<close>

section \<open>Executable runs\<close>

fun exec_timely :: "event list \<Rightarrow> sys \<Rightarrow> sys option" where
  "exec_timely [] s = Some s"
| "exec_timely (e # es) s =
     (if timely e s then (case exec e s of None \<Rightarrow> None | Some s' \<Rightarrow> exec_timely es s') else None)"

abbreviation reachable :: "sys \<Rightarrow> bool" where
  "reachable \<equiv> reach init_sys sys_step"

lemma exec_timely_reach:
  "exec_timely es s = Some s' \<Longrightarrow> reachable s \<Longrightarrow> reachable s'"
proof (induction es arbitrary: s)
  case (Cons e es)
  then obtain s1 where "timely e s" "exec e s = Some s1" "exec_timely es s1 = Some s'"
    by (auto split: if_splits option.splits)
  moreover from this have "reachable s1"
    using reach.reach_step [OF Cons.prems(2)] unfolding sys_step_def by blast
  ultimately show ?case using Cons.IH by blast
qed simp

text \<open>Three free descriptors, all words of memory hold 5.\<close>

definition sample_desc :: descriptor where
  "sample_desc = zero_descriptor\<lparr>status := kStatusFinished\<rparr>"

definition sample_sys :: sys where
  "sample_sys =
     \<lparr>glob = \<lparr>mem = (\<lambda>_. 5), nvm = (\<lambda>_. 5), descs = (\<lambda>_. sample_desc), pdescs = (\<lambda>_. sample_desc),
              pool = [4096, 4352, 4608]\<rparr>,
      stacks = (\<lambda>_. []), results = [], aborted = None\<rparr>"

lemma sample_init: "init_sys sample_sys"
proof -
  have "pool_ok (pool (glob sample_sys))" by code_simp
  moreover have "\<forall>d \<in> set (pool (glob sample_sys)). wf_idle (glob sample_sys) d" by code_simp
  moreover have "plain [4096, 4352, 4608] 5" by code_simp
  ultimately show ?thesis by (simp add: init_sys_def sample_sys_def)
qed

lemma sample_reach: "reachable sample_sys"
  using sample_init by (rule reach.reach_init)

text \<open>One operation of one word run by thread 0: its status is decided by its twelfth step, it
  returns with the twenty-third.\<close>

definition sample_run :: "nat \<Rightarrow> sys option" where
  "sample_run n = exec_timely (StartMwCAS 0 4096 [(8, 5, 6)] # replicate n (Run 0)) sample_sys"

lemma sample_run_reach: "sample_run n = Some s \<Longrightarrow> reachable s"
  using exec_timely_reach sample_reach unfolding sample_run_def by blast

lemma run_step: "exec_timely [e] s = Some s' \<Longrightarrow> sys_step s s'"
  by (auto simp: sys_step_def split: if_splits option.splits)

lemma sample_decides:
  obtains s s' where "reachable s" "sys_step s s'" "abs_mem (glob s) 8 = 5" "abs_mem (glob s') 8 = 6"
proof -
  have "case sample_run 11 of None \<Rightarrow> False
      | Some s \<Rightarrow> (case exec_timely [Run 0] s of None \<Rightarrow> False
          | Some s' \<Rightarrow> abs_mem (glob s) 8 = 5 \<and> abs_mem (glob s') 8 = 6)"
    by code_simp
  then obtain s s' where "sample_run 11 = Some s" "exec_timely [Run 0] s = Some s'"
    "abs_mem (glob s) 8 = 5" "abs_mem (glob s') 8 = 6"
    by (auto split: option.splits)
  then show thesis using that sample_run_reach run_step by blast
qed

lemma sample_persists:
  obtains s s' where "reachable s" "sys_step s s'" "pabs_mem (glob s) 8 = 5" "pabs_mem (glob s') 8 = 6"
    "abs_mem (glob s) 8 = 6"
proof -
  have "case sample_run 13 of None \<Rightarrow> False
      | Some s \<Rightarrow> (case exec_timely [Run 0] s of None \<Rightarrow> False
          | Some s' \<Rightarrow> pabs_mem (glob s) 8 = 5 \<and> pabs_mem (glob s') 8 = 6 \<and> abs_mem (glob s) 8 = 6)"
    by code_simp
  then obtain s s' where "sample_run 13 = Some s" "exec_timely [Run 0] s = Some s'"
    "pabs_mem (glob s) 8 = 5" "pabs_mem (glob s') 8 = 6" "abs_mem (glob s) 8 = 6"
    by (auto split: option.splits)
  then show thesis using that sample_run_reach run_step by blast
qed

lemma sample_completes:
  obtains s where "reachable s" "results s = [(0, MwResult 4096 True)]" "mem (glob s) 8 = 6"
proof -
  have "case sample_run 23 of None \<Rightarrow> False
      | Some s \<Rightarrow> results s = [(0, MwResult 4096 True)] \<and> mem (glob s) 8 = 6"
    by code_simp
  then obtain s where "sample_run 23 = Some s" "results s = [(0, MwResult 4096 True)]" "mem (glob s) 8 = 6"
    by (auto split: option.splits)
  then show thesis using that sample_run_reach by blast
qed

section \<open>Atomicity\<close>



section \<open>What survives a crash\<close>



text \<open>
  The memory the application sees and the memory a crash would leave differ at a word only while
  a successful operation that targets the word has not yet written its status to NVRAM; the first
  then shows the new and the second the old value of that operation.
\<close>

theorem crash_image_lags:
  assumes "reachable s"
  shows "pabs_mem (glob s) a = abs_mem (glob s) a \<or>
    (\<exists>d i. target (glob s) d i \<and> waddr (glob s) d i = a \<and> st (glob s) d = kStatusSucceeded \<and>
       pst (glob s) d = kStatusUndecided \<and> abs_mem (glob s) a = wnew (glob s) d i \<and>
       pabs_mem (glob s) a = wold (glob s) d i)"
proof -
  have "proto_inv (glob s)" using mw.reach_inv [OF assms] by (simp add: sys_inv_def)
  then show ?thesis by (rule pabs_vs_abs)
qed

theorem crash_image_lags_witness:
  "\<exists>s. reachable s \<and> pabs_mem (glob s) 8 = 5 \<and> abs_mem (glob s) 8 = 6 \<and>
     (\<exists>d i. target (glob s) d i \<and> waddr (glob s) d i = 8 \<and> st (glob s) d = kStatusSucceeded \<and>
       pst (glob s) d = kStatusUndecided)"
proof -
  obtain s s' where s: "reachable s" "pabs_mem (glob s) 8 = 5" "abs_mem (glob s) 8 = 6"
    by (rule sample_persists)
  then have "pabs_mem (glob s) 8 \<noteq> abs_mem (glob s) 8" by simp
  then show ?thesis using crash_image_lags [OF s(1), of 8] s by blast
qed

section \<open>Results\<close>





text \<open>
  The outcome of an operation is decided once: from the moment its status is succeeded or failed,
  in a reachable state, the status stays the same up to the dirty flag, whoever helps it.
\<close>

theorem decided_once:
  assumes "reachable s" and "active (glob s) d" and "decided (glob s) d" and "sys_step\<^sup>*\<^sup>* s s'"
  shows "st (glob s') d = st (glob s) d"
proof -
  have "\<forall>d. active (glob s) d \<and> decided (glob s) d \<longrightarrow>
      active (glob s') d \<and> decided (glob s') d \<and> st (glob s') d = st (glob s) d"
  proof (rule mw.steps_rel [where R = "\<lambda>s s'. \<forall>d. active (glob s) d \<and> decided (glob s) d \<longrightarrow>
      active (glob s') d \<and> decided (glob s') d \<and> st (glob s') d = st (glob s) d"])
    fix x y assume x: "sys_inv x" and step: "sys_step x y"
    have p: "proto (glob x) (glob y)" by (rule sys_step_proto [OF x step])
    have "proto_inv (glob x)" using x by (simp add: sys_inv_def)
    then show "\<forall>d. active (glob x) d \<and> decided (glob x) d \<longrightarrow>
        active (glob y) d \<and> decided (glob y) d \<and> st (glob y) d = st (glob x) d"
      using stable_active [OF p] stable_decided [OF p] by metis
  qed (use mw.reach_inv [OF assms(1)] assms(4) in auto)
  then show ?thesis using assms(2,3) by blast
qed

theorem decided_once_witness:
  "\<exists>s. reachable s \<and> st (glob s) 4096 = kStatusSucceeded \<and> 
     (\<forall>s'. sys_step s s' \<longrightarrow> st (glob s') 4096 = kStatusSucceeded)"
proof -
  have "case sample_run 12 of None \<Rightarrow> False
      | Some s \<Rightarrow> active (glob s) 4096 \<and> decided (glob s) 4096 \<and> st (glob s) 4096 = kStatusSucceeded"
    by code_simp
  then obtain s where s: "sample_run 12 = Some s" "active (glob s) 4096" "decided (glob s) 4096"
    "st (glob s) 4096 = kStatusSucceeded"
    by (auto split: option.splits)
  have "st (glob s') 4096 = kStatusSucceeded" if "sys_step s s'" for s'
    using decided_once [OF sample_run_reach [OF s(1)] s(2,3) r_into_rtranclp [of sys_step, OF that]] s(4)
    by simp
  then show ?thesis using sample_run_reach [OF s(1)] s(4) by blast
qed

section \<open>Reading and failing\<close>



text \<open>
  The first CAS of \<open>CondCAS\<close> reports failure of the operation only if the word does not hold the
  expected value, or holds it with the dirty bit still set: the comparison is on the raw word, so
  an operation can fail although every word has its expected value.
\<close>

theorem install_fails_only_on_mismatch:
  assumes "CondCAS_step kDirtyFlag d i CTry sh = CRet r sh'" and "\<not> isDescriptorPtr r"
  shows "sh' = sh \<and> r = mem sh (waddr sh d i) \<and> r \<noteq> wold sh d i \<and>
    abs_mem sh (waddr sh d i) = CleanPtr r \<and>
    (CleanPtr r \<noteq> wold sh d i \<or> r = wold sh d i OR kDirtyFlag)"
proof -
  let ?v = "mem sh (waddr sh d i)"
  have r: "r = ?v" "sh' = sh" "r \<noteq> wold sh d i"
    using assms(1) by (auto simp: CondCAS_step_def CompareExchange64_def Let_def split: if_splits)
  have nd: "\<not> IsMwCASDescriptorPtr ?v" "\<not> IsCondCASDescriptorPtr ?v"
    using assms(2) r by (auto simp: isDescriptorPtr_def)
  have "abs_mem sh (waddr sh d i) = CleanPtr r"
    using nd r by (simp add: abs_mem_def interp_def)
  moreover have "CleanPtr r \<noteq> wold sh d i \<or> r = wold sh d i OR kDirtyFlag"
    using plain_cases [OF nd] r(1,3) by metis
  ultimately show ?thesis using r by simp
qed

text \<open>A word that holds the expected value 5 with the dirty bit set makes the operation fail.\<close>

theorem install_fails_only_on_mismatch_witness:
  "\<exists>sh. MwCAS_start ((glob sample_sys)\<lparr>mem := (\<lambda>_. 5 OR kDirtyFlag)\<rparr>) 4096 [(8, 5, 6)] = Inr sh \<and>
     wold sh 4096 0 = 5 \<and> waddr sh 4096 0 = 8 \<and> abs_mem sh 8 = 5 \<and>
     CondCAS_step kDirtyFlag 4096 0 CTry sh = CRet (5 OR kDirtyFlag) sh"
proof -
  have "case MwCAS_start ((glob sample_sys)\<lparr>mem := (\<lambda>_. 5 OR kDirtyFlag)\<rparr>) 4096 [(8, 5, 6)] of
      Inl m \<Rightarrow> False | Inr sh \<Rightarrow> wold sh 4096 0 = 5 \<and> waddr sh 4096 0 = 8 \<and>
        (case CondCAS_step kDirtyFlag 4096 0 CTry sh of CRet r sh' \<Rightarrow> r = 5 OR kDirtyFlag | _ \<Rightarrow> False)"
    by code_simp
  then obtain sh sh' where sh: "MwCAS_start ((glob sample_sys)\<lparr>mem := (\<lambda>_. 5 OR kDirtyFlag)\<rparr>) 4096
      [(8, 5, 6)] = Inr sh" "wold sh 4096 0 = 5" "waddr sh 4096 0 = 8"
      "CondCAS_step kDirtyFlag 4096 0 CTry sh = CRet (5 OR kDirtyFlag) sh'"
    by (auto split: sum.splits cond_outcome.splits)
  have f: "\<not> isDescriptorPtr (5 OR kDirtyFlag)" "CleanPtr (5 OR kDirtyFlag) = 5" "CleanPtr 5 = 5" by code_simp+
  show ?thesis using install_fails_only_on_mismatch [OF sh(4) f(1)] sh f(2,3) by auto
qed

section \<open>Why late installs are excluded\<close>

text \<open>
  The schedule: thread 0 starts an operation \<open>5 \<rightarrow> 6\<close> on word 8 and stops before the last CAS of its
  \<open>CondCAS\<close>; thread 1 reads the word, completes that CAS and helps; thread 3 reads it too and stops
  before the first CAS of its own \<open>CondCAS\<close>; thread 1 finishes the operation; thread 2 stores 5 back
  with an operation of its own; thread 3 re-installs the word descriptor of the finished operation.
\<close>

definition aba_schedule :: "event list" where
  "aba_schedule = StartMwCAS 0 4096 [(8, 5, 6)] # replicate 4 (Run 0) @
     StartRead 1 8 # replicate 3 (Run 1) @
     StartRead 3 8 # replicate 5 (Run 3) @ replicate 21 (Run 1) @
     StartMwCAS 2 4352 [(8, 6, 5)] # replicate 23 (Run 2) @ [Run 3]"

text \<open>
  C6: Without the exclusion of late installs the algorithm is not linearizable: there is an execution
  from an initial state in which a store of 6 over 5 has succeeded and a reader has returned 6, then a
  store of 5 over 6 has succeeded and returned, and the next step of thread 0, which changes no
  status, turns the word from 5 back to 6.
  The operation of thread 0 takes effect a second time.
\<close>

theorem late_install_breaks_atomicity:
  "\<exists>s s'. init_sys sample_sys \<and> exec_all aba_schedule sample_sys = Some s \<and> exec (Run 0) s = Some s' \<and>
     results s = [(2, MwResult 4352 True), (1, RdResult 8 6)] \<and>
     st (glob s) 4096 = kStatusSucceeded \<and> abs_mem (glob s) 8 = 5 \<and> abs_mem (glob s') 8 = 6 \<and>
     list_all (\<lambda>d. st (glob s') d = st (glob s) d) (pool (glob s))"
proof -
  have "case exec_all aba_schedule sample_sys of None \<Rightarrow> False
     | Some s \<Rightarrow> (case exec (Run 0) s of None \<Rightarrow> False
         | Some s' \<Rightarrow> results s = [(2, MwResult 4352 True), (1, RdResult 8 6)] \<and>
             st (glob s) 4096 = kStatusSucceeded \<and>
             abs_mem (glob s) 8 = 5 \<and> abs_mem (glob s') 8 = 6 \<and>
             list_all (\<lambda>d. st (glob s') d = st (glob s) d) (pool (glob s)))"
    by code_simp
  then show ?thesis using sample_init by (auto split: option.splits)
qed

end
