(* ===== verification/Recovery.thy ===== *)
theory Recovery
  imports Mwcas_Theorems
begin

text \<open>
  Recovery after a crash: the loop over an existing descriptor area in the constructor of
  \<open>DescriptorPool\<close> (\<open>src/src/mwcas/mwcas.cc\<close>). It runs alone, on the memory and the descriptors
  that NVRAM holds; every store is followed by a flush, so one image suffices. The counters and
  log messages of the loop are left out. The theorem: recovery turns the words that NVRAM holds
  into the memory of the completed operations, whatever the moment of the crash.
\<close>

section \<open>The loop\<close>

text \<open>The dirty bit of the word is cleared first, for every word of the descriptor.\<close>

definition clear_dirty_word :: "(u64 \<Rightarrow> u64) \<Rightarrow> u64 \<Rightarrow> u64 \<Rightarrow> u64" where
  "clear_dirty_word m a = (if IsDirtyPtr (m a) then m(a := ClearDirty (m a)) else m)"

text \<open>One word of an undecided or failed operation: roll back. \<open>p\<close> is the address of the word descriptor.\<close>

definition roll_back_word :: "u64 \<Rightarrow> u64 \<Rightarrow> word_desc \<Rightarrow> (u64 \<Rightarrow> u64) \<Rightarrow> u64 \<Rightarrow> u64" where
  "roll_back_word desc p word m =
     (let m1 = clear_dirty_word m (address word); val = CleanPtr (m1 (address word)) in
      if val = desc \<or> val = p then m1(address word := old_value word) else m1)"

text \<open>One word of a successful operation: roll forward.\<close>

definition roll_forward_word :: "u64 \<Rightarrow> u64 \<Rightarrow> word_desc \<Rightarrow> (u64 \<Rightarrow> u64) \<Rightarrow> (u64 \<Rightarrow> u64) checked" where
  "roll_forward_word desc p word m =
     (let m1 = clear_dirty_word m (address word); val = CleanPtr (m1 (address word)) in
      if val = p then Inl ''invalid field value''
      else if val = desc then Inr (m1(address word := new_value word)) else Inr m1)"

fun recover_words :: "bool \<Rightarrow> u64 \<Rightarrow> descriptor \<Rightarrow> nat list \<Rightarrow> (u64 \<Rightarrow> u64) \<Rightarrow> (u64 \<Rightarrow> u64) checked" where
  "recover_words redo d desc [] m = Inr m"
| "recover_words redo d desc (w # ws) m =
     bind_checked (if redo then roll_forward_word d (word_ptr d w) (words desc ! w) m
                   else Inr (roll_back_word d (word_ptr d w) (words desc ! w) m))
       (recover_words redo d desc ws)"

text \<open>The check at the end of an iteration.\<close>

definition recover_check :: "u64 \<Rightarrow> descriptor \<Rightarrow> (u64 \<Rightarrow> u64) \<Rightarrow> bool" where
  "recover_check d desc m \<longleftrightarrow> list_all (\<lambda>w.
     let val = m (address (words desc ! w)) in
     ClearDirty val \<noteq> d OR kMwCASFlag \<and> ClearDirty val \<noteq> d OR kCondCASFlag) [0..<count desc]"

definition recover_desc :: "u64 \<Rightarrow> descriptor \<Rightarrow> (u64 \<Rightarrow> u64) \<Rightarrow> (u64 \<Rightarrow> u64) checked" where
  "recover_desc d desc m =
     (if \<not> assert_valid_status desc then Inl ''invalid status'' else
      let s = clean_status (status desc) in
      if s = kStatusFinished then Inr m
      else
        bind_checked
          (if s = kStatusUndecided \<or> s = kStatusFailed
           then recover_words False d desc [0..<count desc] m
           else if s = kStatusSucceeded then recover_words True d desc [0..<count desc] m
           else Inl ''invalid status'')
          (\<lambda>m'. if recover_check d desc m' then Inr m' else Inl ''invalid word value''))"

fun recover_loop :: "(u64 \<Rightarrow> descriptor) \<Rightarrow> nat \<Rightarrow> u64 list \<Rightarrow> (u64 \<Rightarrow> u64) \<Rightarrow> (u64 \<Rightarrow> u64) checked" where
  "recover_loop ds i [] m = Inr m"
| "recover_loop ds i (d # pl) m =
     (if status (ds d) = kStatusInvalid
      then (if i = 0 then Inr m else Inl ''corrupted descriptor pool/data area'')
      else bind_checked (recover_desc d (ds d) m) (recover_loop ds (Suc i) pl))"

definition recover :: "(u64 \<Rightarrow> descriptor) \<Rightarrow> u64 list \<Rightarrow> (u64 \<Rightarrow> u64) \<Rightarrow> (u64 \<Rightarrow> u64) checked" where
  "recover ds pl m =
     (if pl \<noteq> [] \<and> status (ds (hd pl)) \<noteq> kStatusInvalid then recover_loop ds 0 pl m else Inr m)"

section \<open>Words still to be recovered\<close>

definition stale :: "shared \<Rightarrow> u64 \<Rightarrow> nat \<Rightarrow> u64 \<Rightarrow> u64 \<Rightarrow> bool" where
  "stale sh x i a v \<longleftrightarrow> target sh x i \<and> waddr sh x i = a \<and>
     (v = cond_descptr x i \<and> pst sh x \<noteq> kStatusSucceeded \<or> is_mw x v) \<and>
     pabs_mem sh a = (if pst sh x = kStatusSucceeded then wnew sh x i else wold sh x i)"

definition restored :: "shared \<Rightarrow> u64 \<Rightarrow> u64 \<Rightarrow> bool" where
  "restored sh a v \<longleftrightarrow> plain (pool sh) v \<and> CleanPtr v = pabs_mem sh a"

text \<open>
  The state of the loop when the descriptors \<open>ds\<close> are still to come and the words of \<open>d\<close> from
  index \<open>k\<close> on.
\<close>

definition progress :: "shared \<Rightarrow> u64 set \<Rightarrow> u64 \<Rightarrow> nat \<Rightarrow> (u64 \<Rightarrow> u64) \<Rightarrow> bool" where
  "progress sh ds d k m \<longleftrightarrow> (\<forall>a. restored sh a (m a) \<or>
     (\<exists>x i. stale sh x i a (m a) \<and> (x \<in> ds \<or> x = d \<and> k \<le> i)))"

lemma start_progress:
  assumes inv: "proto_inv sh"
  shows "progress sh (set (pool sh)) d k (nvm sh)"
  unfolding progress_def
proof
  fix a
  note dinv = proto_invD(1) [OF inv]
  from proto_invD(3) [OF inv, of a] consider (plain) "plain (pool sh) (nvm sh a)"
    | (cond) x i where "target sh x i" "waddr sh x i = a" "nvm sh a = cond_descptr x i"
    | (mw) x i where "target sh x i" "waddr sh x i = a" "is_mw x (nvm sh a)"
    by (auto simp: good_word_def)
  then show "restored sh a (nvm sh a) \<or>
      (\<exists>x i. stale sh x i a (nvm sh a) \<and> (x \<in> set (pool sh) \<or> x = d \<and> k \<le> i))"
  proof cases
    case plain
    then show ?thesis by (simp add: restored_def pabs_mem_def interp_plain)
  next
    case (cond x i)
    have "pst sh x \<noteq> kStatusSucceeded"
      using slot_invD(2) [OF inv cond(1)] cond(2,3) by simp
    then have "stale sh x i a (nvm sh a)"
      using cond interp_cond [OF dinv cond(1)] by (simp add: stale_def pabs_mem_def)
    then show ?thesis using targetD(3) [OF cond(1)] by blast
  next
    case (mw x i)
    then have "stale sh x i a (nvm sh a)"
      using interp_mw [OF dinv mw(1,3,2)] by (simp add: stale_def pabs_mem_def)
    then show ?thesis using targetD(3) [OF mw(1)] by blast
  qed
qed

lemma clear_dirty_word_eq: "clear_dirty_word m a = m(a := ClearDirty (m a))"
  by (auto simp: clear_dirty_word_def fun_eq_iff)

lemma restored_ClearDirty: "restored sh a v \<Longrightarrow> restored sh a (ClearDirty v)"
  unfolding restored_def plain_def by auto

lemma stale_ClearDirty:
  assumes dinv: "desc_inv sh" and s: "stale sh x i a v"
  shows "stale sh x i a (ClearDirty v)"
proof -
  have t: "target sh x i" using s by (simp add: stale_def)
  have "ClearDirty (cond_descptr x i) = cond_descptr x i"
    using cond_descptr_tests(3) [OF target_word(1) [OF dinv t]] by simp
  moreover have "is_mw x v \<Longrightarrow> is_mw x (ClearDirty v)"
    using is_mw_ClearDirty [of x v] pool_cleanD(1) [OF dinv targetD(3) [OF t]] by simp
  ultimately show ?thesis using s by (auto simp: stale_def)
qed

text \<open>What the comparison of the cleaned word tells.\<close>

lemma restored_not_pointer:
  assumes dinv: "desc_inv sh" and t: "target sh d k" and r: "restored sh a v"
  shows "CleanPtr v \<noteq> d" "CleanPtr v \<noteq> word_ptr d k"
  using r targetD(3) [OF t] target_word(2) [OF dinv t] by (auto simp: restored_def plain_def)

lemma stale_CleanPtr:
  assumes dinv: "desc_inv sh" and s: "stale sh x i a v"
  shows "CleanPtr v = word_ptr x i \<and> pst sh x \<noteq> kStatusSucceeded \<or> CleanPtr v = x"
proof -
  have t: "target sh x i" using s by (simp add: stale_def)
  show ?thesis
    using s cond_descptr_tests(4) [OF target_word(1) [OF dinv t]]
      is_mw_tests(3) [OF _ pool_cleanD(1) [OF dinv targetD(3) [OF t]]]
    by (auto simp: stale_def)
qed

lemma stale_other:
  assumes dinv: "desc_inv sh" and t: "target sh d k" and s: "stale sh x i a v" and ne: "x \<noteq> d"
  shows "CleanPtr v \<noteq> d" "CleanPtr v \<noteq> word_ptr d k"
proof -
  have tx: "target sh x i" using s by (simp add: stale_def)
  have "word_ptr x i \<noteq> d" "word_ptr d k \<noteq> x"
    using target_word(3) [OF dinv tx] target_word(3) [OF dinv t] targetD(3) [OF tx] targetD(3) [OF t]
    by auto
  moreover have "word_ptr x i \<noteq> word_ptr d k"
    using target_word(2) [OF dinv tx] target_word(2) [OF dinv t] ne by auto
  ultimately show "CleanPtr v \<noteq> d" "CleanPtr v \<noteq> word_ptr d k"
    using stale_CleanPtr [OF dinv s] ne by auto
qed

lemma target_not_word: "desc_inv sh \<Longrightarrow> target sh d k \<Longrightarrow> word_ptr d k \<noteq> d"
  using target_word(3) targetD(3) by fastforce

section \<open>One word, one descriptor, the whole pool\<close>

abbreviation recover_word ::
    "shared \<Rightarrow> u64 \<Rightarrow> nat \<Rightarrow> (u64 \<Rightarrow> u64) \<Rightarrow> (u64 \<Rightarrow> u64) checked" where
  "recover_word sh d k m \<equiv>
     (if pst sh d = kStatusSucceeded then roll_forward_word d (word_ptr d k) (word_at sh d k) m
      else Inr (roll_back_word d (word_ptr d k) (word_at sh d k) m))"

lemma recover_word_cases:
  assumes inv: "proto_inv sh" and t: "target sh d k" and p: "progress sh ds d k m" and d: "d \<notin> ds"
  shows "\<exists>v. recover_word sh d k m = Inr (m(waddr sh d k := v)) \<and>
    (restored sh (waddr sh d k) v \<or> (\<exists>x i. stale sh x i (waddr sh d k) v \<and> x \<in> ds))"
proof -
  let ?a = "waddr sh d k" and ?v = "ClearDirty (m (waddr sh d k))"
  note dinv = proto_invD(1) [OF inv]
  have eval: "recover_word sh d k m =
      (if pst sh d = kStatusSucceeded
       then if CleanPtr ?v = word_ptr d k then Inl ''invalid field value''
            else Inr (m(?a := if CleanPtr ?v = d then wnew sh d k else ?v))
       else Inr (m(?a := if CleanPtr ?v = d \<or> CleanPtr ?v = word_ptr d k then wold sh d k else ?v)))"
    by (auto simp: roll_forward_word_def roll_back_word_def clear_dirty_word_eq Let_def)
  from p consider (ok) "restored sh ?a (m ?a)"
    | (todo) x i where "stale sh x i ?a (m ?a)" "x \<in> ds \<or> x = d \<and> k \<le> i"
    unfolding progress_def by blast
  then show ?thesis
  proof cases
    case ok
    then have "restored sh ?a ?v" by (rule restored_ClearDirty)
    then show ?thesis
      using restored_not_pointer [OF dinv t, of ?a ?v] unfolding eval by auto
  next
    case (todo x i)
    have s: "stale sh x i ?a ?v" by (rule stale_ClearDirty [OF dinv todo(1)])
    show ?thesis
    proof (cases "x = d")
      case False
      then show ?thesis
        using stale_other [OF dinv t s] s todo(2) unfolding eval by auto
    next
      case True
      then have st: "stale sh d k ?a ?v"
        using s target_addr_inj [OF dinv _ t] by (auto simp: stale_def)
      have "restored sh ?a (if pst sh d = kStatusSucceeded then wnew sh d k else wold sh d k)"
        using target_values [OF dinv t] st
        by (auto simp: restored_def stale_def intro!: plain_clean)
      then show ?thesis
        using stale_CleanPtr [OF dinv st] target_not_word [OF dinv t] unfolding eval
        by (cases "pst sh d = kStatusSucceeded") auto
    qed
  qed
qed

lemma recover_word_progress:
  assumes inv: "proto_inv sh" and t: "target sh d k" and p: "progress sh ds d k m" and d: "d \<notin> ds"
  obtains m' where "recover_word sh d k m = Inr m'" "progress sh ds d (Suc k) m'"
proof -
  note dinv = proto_invD(1) [OF inv]
  obtain v where v: "recover_word sh d k m = Inr (m(waddr sh d k := v))"
    "restored sh (waddr sh d k) v \<or> (\<exists>x i. stale sh x i (waddr sh d k) v \<and> x \<in> ds)"
    using recover_word_cases [OF inv t p d] by blast
  have "restored sh a (m a) \<or> (\<exists>x i. stale sh x i a (m a) \<and> (x \<in> ds \<or> x = d \<and> Suc k \<le> i))"
    if "a \<noteq> waddr sh d k" for a
  proof -
    have "i \<noteq> k" if "stale sh d i a (m a)" for i
      using that \<open>a \<noteq> waddr sh d k\<close> by (auto simp: stale_def)
    then show ?thesis using p unfolding progress_def by (metis le_antisym not_less_eq_eq)
  qed
  then have "progress sh ds d (Suc k) (m(waddr sh d k := v))"
    using v(2) unfolding progress_def by auto
  then show thesis using that v(1) by blast
qed

lemma recover_words_progress:
  assumes inv: "proto_inv sh" and act: "active sh d" and d: "d \<notin> ds" and desc: "words desc = words (descs sh d)"
    and k: "k \<le> count (descs sh d)" and p: "progress sh ds d k m"
  shows "\<exists>m'. recover_words (pst sh d = kStatusSucceeded) d desc [k..<count (descs sh d)] m = Inr m' \<and>
     progress sh ds d (count (descs sh d)) m'"
  using k p
proof (induction k arbitrary: m rule: inc_induct)
  case base
  then show ?case by simp
next
  case (step n)
  have t: "target sh d n" using act step.hyps(2) by (simp add: target_def)
  obtain m1 where m1: "recover_word sh d n m = Inr m1" "progress sh ds d (Suc n) m1"
    by (rule recover_word_progress [OF inv t step.prems d])
  have "[n..<count (descs sh d)] = n # [Suc n..<count (descs sh d)]"
    using step.hyps(2) by (simp add: upt_conv_Cons)
  then show ?case
    using step.IH [OF m1(2)] m1(1) desc
    by (cases "pst sh d = kStatusSucceeded") (simp_all add: word_at_def)
qed

text \<open>Between two descriptors.\<close>

definition pending :: "shared \<Rightarrow> u64 set \<Rightarrow> (u64 \<Rightarrow> u64) \<Rightarrow> bool" where
  "pending sh ds m \<longleftrightarrow> (\<forall>a. restored sh a (m a) \<or> (\<exists>x i. stale sh x i a (m a) \<and> x \<in> ds))"

lemma pending_progress: "pending sh (insert d ds) m \<Longrightarrow> progress sh ds d 0 m"
  unfolding pending_def progress_def by blast

lemma progress_pending: "progress sh ds d (count (descs sh d)) m \<Longrightarrow> pending sh ds m"
  unfolding pending_def progress_def stale_def target_def by (metis leD)

lemma pending_check:
  assumes inv: "proto_inv sh" and act: "active sh d" and d: "d \<notin> ds" and p: "pending sh ds m"
    and desc: "words desc = words (descs sh d)" "count desc = count (descs sh d)"
  shows "recover_check d desc m"
  unfolding recover_check_def list_all_iff Let_def
proof
  fix w assume "w \<in> set [0..<count desc]"
  then have t: "target sh d w" using act desc by (simp add: target_def)
  let ?v = "m (address (words desc ! w))"
  note dinv = proto_invD(1) [OF inv]
  have "CleanPtr ?v \<noteq> d"
    using p restored_not_pointer(1) [OF dinv t] stale_other(1) [OF dinv t] d
    unfolding pending_def by metis
  moreover have "CleanPtr ?v = CleanPtr (ClearDirty ?v)" by simp
  moreover have "CleanPtr d = d" using pool_cleanD(1) [OF dinv active_pool [OF act]] by simp
  ultimately show "ClearDirty ?v \<noteq> d OR kMwCASFlag \<and> ClearDirty ?v \<noteq> d OR kCondCASFlag"
    by (metis CleanPtr_OR_flags(1,2))
qed

lemma wf_active_status:
  assumes "wf_active sh d"
  shows "assert_valid_status (pdescs sh d)" "status (pdescs sh d) \<noteq> kStatusInvalid"
    "pst sh d \<noteq> kStatusFinished"
    "pst sh d = kStatusUndecided \<or> pst sh d = kStatusFailed \<or> pst sh d = kStatusSucceeded"
proof -
  have "wf_status (status (pdescs sh d))" using assms by (simp add: wf_active_def)
  then show s: "pst sh d = kStatusUndecided \<or> pst sh d = kStatusFailed \<or> pst sh d = kStatusSucceeded"
    by (auto simp: wf_status_def pst_def)
  then show "assert_valid_status (pdescs sh d)" "pst sh d \<noteq> kStatusFinished"
    by (auto simp: assert_valid_status_def pst_def Let_def)
  show "status (pdescs sh d) \<noteq> kStatusInvalid" using s by (auto simp: pst_def)
qed

lemma recover_desc_pending:
  assumes inv: "proto_inv sh" and pool: "d \<in> set (pool sh)" and d: "d \<notin> ds"
    and p: "pending sh (insert d ds) m"
  shows "status (pdescs sh d) \<noteq> kStatusInvalid \<and>
    (\<exists>m'. recover_desc d (pdescs sh d) m = Inr m' \<and> pending sh ds m')"
proof (cases "active sh d")
  case True
  have wf: "wf_active sh d" by (rule desc_inv_active [OF proto_invD(1) [OF inv] True])
  then have desc: "words (pdescs sh d) = words (descs sh d)" "count (pdescs sh d) = count (descs sh d)"
    by (simp_all add: wf_active_def)
  obtain m' where m': "recover_words (pst sh d = kStatusSucceeded) d (pdescs sh d)
      [0..<count (descs sh d)] m = Inr m'" "pending sh ds m'"
    using recover_words_progress [OF inv True d desc(1) le0 pending_progress [OF p]] progress_pending
    by blast
  have "recover_desc d (pdescs sh d) m = Inr m'"
    using wf_active_status [OF wf] m' desc(2) pending_check [OF inv True d m'(2) desc]
    unfolding recover_desc_def pst_def [symmetric] by (auto simp: Let_def)
  then show ?thesis using wf_active_status(2) [OF wf] m'(2) by blast
next
  case False
  then have f: "status (pdescs sh d) = kStatusFinished"
    using proto_invD(1) [OF inv] pool by (auto simp: desc_inv_def wf_idle_def)
  then have "recover_desc d (pdescs sh d) m = Inr m"
    by (simp add: recover_desc_def assert_valid_status_def)
  moreover have "pending sh ds m"
    using p False unfolding pending_def stale_def target_def by blast
  ultimately show ?thesis using f by auto
qed

lemma recover_loop_pending:
  assumes inv: "proto_inv sh"
  shows "set ds \<subseteq> set (pool sh) \<Longrightarrow> distinct ds \<Longrightarrow> pending sh (set ds) m \<Longrightarrow>
    \<exists>m'. recover_loop (pdescs sh) i ds m = Inr m' \<and> pending sh {} m'"
proof (induction ds arbitrary: i m)
  case Nil
  then show ?case by simp
next
  case (Cons d ds)
  then obtain m1 where "status (pdescs sh d) \<noteq> kStatusInvalid"
    "recover_desc d (pdescs sh d) m = Inr m1" "pending sh (set ds) m1"
    using recover_desc_pending [OF inv, of d "set ds" m] by auto
  then show ?case using Cons.IH [of m1 "Suc i"] Cons.prems by simp
qed

lemma recover_ok:
  assumes inv: "proto_inv sh"
  shows "\<exists>m'. recover (pdescs sh) (pool sh) (nvm sh) = Inr m' \<and> (\<forall>a. restored sh a (m' a))"
proof -
  have "pending sh (set (pool sh)) (nvm sh)"
    using start_progress [OF inv, of 0 "Suc 0"] targetD(3) unfolding progress_def pending_def stale_def
    by metis
  moreover have "distinct (pool sh)" using proto_invD(1) [OF inv] by (simp add: desc_inv_def pool_ok_def)
  ultimately obtain m' where m': "recover_loop (pdescs sh) 0 (pool sh) (nvm sh) = Inr m'" "pending sh {} m'"
    using recover_loop_pending [OF inv subset_refl] by blast
  show ?thesis
  proof (cases "pool sh")
    case Nil
    then show ?thesis using m' by (auto simp: recover_def pending_def)
  next
    case (Cons d ds)
    have "status (pdescs sh d) \<noteq> kStatusInvalid"
      using recover_desc_pending [OF inv, of d "set (pool sh) - {d}" "nvm sh"] Cons
        \<open>pending sh (set (pool sh)) (nvm sh)\<close> by (simp add: insert_absorb)
    then show ?thesis using m' Cons by (auto simp: recover_def pending_def)
  qed
qed

section \<open>Correctness of recovery\<close>





end
