(* ===== verification/Pool.thy ===== *)
theory Pool
  imports Garbage Recovery
begin

text \<open>
  The descriptor pool (\<open>BaseDescriptorPool\<close>, \<open>DescriptorPool\<close> and \<open>DescriptorPartition\<close> in
  \<open>src/src/mwcas/mwcas.h\<close> and \<open>mwcas.cc\<close>): the rounding of its parameters, the check and the recovery of
  an existing area, the distribution of the descriptors over the partitions, and the life cycle of a
  descriptor from the free list of its partition through an operation and the garbage list back to
  the free list. A thread-local partition pointer is a function of the thread number. The calls of
  the free callback are recorded in \<open>freed\<close>. Counters of the metrics are left out.
\<close>

section \<open>State\<close>

record partition =
  free_list :: u64
  garbage :: garbage_list

record pool_state =
  pool_size :: u32
  partition_count :: u32
  partition_table :: "partition list"
  next_partition :: u32
  epoch :: epoch_manager
  estore :: epoch_store
  desc_base :: u64
  desc_heap :: "u64 \<Rightarrow> descriptor"
  tls_part :: "u64 \<Rightarrow> nat option"
  freed :: "u64 list"

text \<open>The metadata block in front of a persistent area.\<close>

record metadata =
  descriptor_count :: u64
  initial_address :: u64

section \<open>Construction\<close>

definition kGarbageListSize :: u64 where
  "kGarbageListSize = 128 * 1024"

definition new_DescriptorPartition :: "bool \<Rightarrow> partition checked" where
  "new_DescriptorPartition avail =
     (case GarbageListUnsafe_Initialize new_GarbageList True avail kGarbageListSize of (s, g) \<Rightarrow>
        if ok s then Inr \<lparr>free_list = 0, garbage = g\<rparr> else Inl ''garbage list initialization failure'')"

text \<open>The doubling loop for the pool size, with a bound on its rounds; it wraps around at 32 bits.\<close>

fun round_pool_size :: "nat \<Rightarrow> u32 \<Rightarrow> u32 \<Rightarrow> u32 option" where
  "round_pool_size 0 requested sz = None"
| "round_pool_size (Suc n) requested sz =
     (if requested \<le> sz then Some sz else round_pool_size n requested (sz * 2))"

text \<open>The loop for the partition count; the list holds the values of \<open>exp\<close> still to come.\<close>

fun round_partition_count :: "nat list \<Rightarrow> u32 \<Rightarrow> u32 \<Rightarrow> u32" where
  "round_partition_count [] requested c = c"
| "round_partition_count (exp # exps) requested c =
     (if requested \<le> c then c else round_partition_count exps requested (c * 2))"

fun new_partitions :: "bool \<Rightarrow> nat \<Rightarrow> partition list checked" where
  "new_partitions avail 0 = Inr []"
| "new_partitions avail (Suc n) =
     bind_checked (new_DescriptorPartition avail) (\<lambda>p.
       bind_checked (new_partitions avail n) (\<lambda>ps. Inr (p # ps)))"

text \<open>
  \<open>initVariable\<close>. \<open>avail\<close>: the allocator returns memory; \<open>fresh\<close> and \<open>h\<close>: the number of the new
  epoch table and the store it goes into; \<open>None\<close>: the first loop does not end within \<open>fuel\<close> rounds.
\<close>

definition initVariable :: "nat \<Rightarrow> bool \<Rightarrow> nat \<Rightarrow> epoch_store \<Rightarrow> u32 \<Rightarrow> u32 \<Rightarrow> pool_state checked option" where
  "initVariable fuel avail fresh h requested_size requested_partitions =
     (case EpochManager_Initialize fresh new_EpochManager h of (s, m, h') \<Rightarrow>
        if \<not> ok s then Some (Inl ''epoch initialization failure'')
        else map_option (\<lambda>sz.
          let c = round_partition_count [1..<10] requested_partitions 1 in
          if \<not> avail then Inl ''out of memory''
          else bind_checked (new_partitions avail (unat c)) (\<lambda>ps.
            if sz > 0 then
              Inr \<lparr>pool_size = sz, partition_count = c, partition_table = ps, next_partition = 0,
                   epoch = m, estore = h', desc_base = 0, desc_heap = (\<lambda>_. zero_descriptor),
                   tls_part = (\<lambda>_. None), freed = []\<rparr>
            else Inl ''invalid pool size''))
          (round_pool_size fuel requested_size 1))"

text \<open>One descriptor of the distribution loop: construct it and put it on the free list of the partition.\<close>

definition place_desc :: "u32 \<Rightarrow> nat \<times> pool_state \<Rightarrow> nat \<Rightarrow> nat \<times> pool_state" where
  "place_desc per ps i = (case ps of (part, po) \<Rightarrow>
     let desc = desc_ptr (desc_base po) i; p = partition_table po ! part;
         d = (new_Descriptor part (desc_heap po desc))\<lparr>next_ptr := free_list p\<rparr>;
         po' = po\<lparr>desc_heap := (desc_heap po)(desc := d),
                  partition_table := (partition_table po)[part := p\<lparr>free_list := desc\<rparr>]\<rparr>
     in (if (i + 1) mod unat per = 0 then part + 1 else part, po'))"

text \<open>Clearing the area and distributing the descriptors.\<close>

definition distribute :: "pool_state \<Rightarrow> pool_state checked" where
  "distribute po =
     (let po0 = po\<lparr>desc_heap := (\<lambda>_. zero_descriptor)\<rparr> in
      if pool_size po > partition_count po
      then Inr (snd (foldl (place_desc (pool_size po div partition_count po)) (0, po0) [0..<unat (pool_size po)]))
      else Inl ''provided pool size is less than partition count'')"

text \<open>
  The constructor. An existing area is given by its address, its metadata and what it holds: the
  descriptors and the target words, which recovery repairs; \<open>alloc\<close> is the address of a new area
  otherwise (0 when there is no memory). The result is the pool and the target words.
\<close>

definition new_DescriptorPool ::
    "nat \<Rightarrow> bool \<Rightarrow> nat \<Rightarrow> epoch_store \<Rightarrow> u32 \<Rightarrow> u32 \<Rightarrow> u64 \<Rightarrow> metadata \<Rightarrow> (u64 \<Rightarrow> descriptor) \<Rightarrow> u64 \<Rightarrow>
     (u64 \<Rightarrow> u64) \<Rightarrow> (pool_state \<times> (u64 \<Rightarrow> u64)) checked option" where
  "new_DescriptorPool fuel avail fresh h sz parts desc_va md ds alloc m =
     map_option (\<lambda>r. bind_checked r (\<lambda>po.
       bind_checked
         (if desc_va \<noteq> 0 then
            (if initial_address md \<noteq> desc_va - 64 then Inl ''invalid initial address''
             else if descriptor_count md \<noteq> ucast (pool_size po) then Inl ''wrong descriptor pool size''
             else map_sum id (\<lambda>m'. (desc_va, m'))
                    (recover ds (map (desc_ptr desc_va) [0..<unat (pool_size po)]) m))
          else if alloc \<noteq> 0 then Inr (alloc, m) else Inl ''out of memory'')
         (\<lambda>(base, m'). bind_checked (distribute (po\<lparr>desc_base := base\<rparr>)) (\<lambda>po'. Inr (po', m')))))
       (initVariable fuel avail fresh h sz parts)"

section \<open>The life of a descriptor\<close>

definition etable :: "pool_state \<Rightarrow> min_epoch_table" where
  "etable po = (case epoch_table (epoch po) of None \<Rightarrow> new_MinEpochTable | Some k \<Rightarrow> tables (estore po) k)"

definition set_part :: "nat \<Rightarrow> (partition \<Rightarrow> partition) \<Rightarrow> pool_state \<Rightarrow> pool_state" where
  "set_part p f po = po\<lparr>partition_table := (partition_table po)[p := f (partition_table po ! p)]\<rparr>"

text \<open>The callback that the garbage list calls when nobody can use the descriptor any more.\<close>

definition FreeDescriptor :: "u64 \<Rightarrow> pool_state \<Rightarrow> pool_state checked" where
  "FreeDescriptor desc po =
     bind_checked (DeallocateMemory (desc_heap po desc)) (\<lambda>(fr, d).
       let d' = Initialize d; p = owner_partition d in
       Inr (set_part p (\<lambda>q. q\<lparr>free_list := desc\<rparr>)
         (po\<lparr>desc_heap := (desc_heap po)(desc := d'\<lparr>next_ptr := free_list (partition_table po ! p)\<rparr>),
             freed := freed po @ fr\<rparr>)))"

fun FreeDescriptors :: "u64 list \<Rightarrow> pool_state \<Rightarrow> pool_state checked" where
  "FreeDescriptors [] po = Inr po"
| "FreeDescriptors (d # ds) po = bind_checked (FreeDescriptor d po) (FreeDescriptors ds)"

text \<open>
  The loop of \<open>AllocateBaseDescriptor\<close>: while the free list of the partition is empty, advance the
  epoch and scavenge the garbage list of the partition.
\<close>

fun refill :: "nat \<Rightarrow> nat \<Rightarrow> pool_state \<Rightarrow> pool_state checked option" where
  "refill 0 p po = None"
| "refill (Suc n) p po =
     (if free_list (partition_table po ! p) \<noteq> 0 then Some (Inr po)
      else let m = BumpCurrentEpoch (epoch po) (etable po) in
        case ScavengeUnsafe (garbage (partition_table po ! p)) m of (_, ds, g) \<Rightarrow>
          case FreeDescriptors (map (\<lambda>(_, _, obj). obj) ds)
                 (set_part p (\<lambda>q. q\<lparr>garbage := g\<rparr>) (po\<lparr>epoch := m\<rparr>)) of
            Inl e \<Rightarrow> Some (Inl e)
          | Inr po' \<Rightarrow> refill n p po')"

text \<open>The partition of a thread: assigned round-robin at its first call.\<close>

definition thread_partition :: "u64 \<Rightarrow> pool_state \<Rightarrow> nat \<times> pool_state" where
  "thread_partition tid po =
     (case tls_part po tid of
        Some p \<Rightarrow> (p, po)
      | None \<Rightarrow>
          let p = unat (next_partition po mod partition_count po) in
          (p, po\<lparr>next_partition := next_partition po + 1, tls_part := (tls_part po)(tid \<mapsto> p)\<rparr>))"

definition AllocateBaseDescriptor :: "nat \<Rightarrow> u64 \<Rightarrow> pool_state \<Rightarrow> (u64 \<times> pool_state) checked option" where
  "AllocateBaseDescriptor fuel tid po =
     (case thread_partition tid po of (p, po1) \<Rightarrow>
        map_option (\<lambda>r. bind_checked r (\<lambda>po2.
          let desc = free_list (partition_table po2 ! p) in
          Inr (desc, set_part p (\<lambda>q. q\<lparr>free_list := next_ptr (desc_heap po2 desc)\<rparr>) po2)))
          (refill fuel p po1))"

definition AllocateDescriptor ::
    "nat \<Rightarrow> u64 \<Rightarrow> callback option \<Rightarrow> callback option \<Rightarrow> pool_state \<Rightarrow> (u64 \<times> pool_state) checked option" where
  "AllocateDescriptor fuel tid ac fc po =
     map_option (\<lambda>r. bind_checked r (\<lambda>(desc, po1).
       Inr (desc, po1\<lparr>desc_heap := (desc_heap po1)(desc := (desc_heap po1 desc)
         \<lparr>allocate_callback := (case ac of None \<Rightarrow> DefaultCallback | Some c \<Rightarrow> c),
          free_callback := (case fc of None \<Rightarrow> DefaultCallback | Some c \<Rightarrow> c)\<rparr>)\<rparr>)))
       (AllocateBaseDescriptor fuel tid po)"

text \<open>\<open>kFreeDescriptor\<close> stands for the function pointer that \<open>doCleanup\<close> passes to \<open>Push\<close>.\<close>

definition kFreeDescriptor :: u64 where
  "kFreeDescriptor = 1"

definition doCleanup :: "nat \<Rightarrow> u64 \<Rightarrow> pool_state \<Rightarrow> pool_state checked option" where
  "doCleanup fuel desc po =
     (let p = owner_partition (desc_heap po desc) in
      map_option (\<lambda>r. bind_checked r (\<lambda>(ds, g, m).
        FreeDescriptors (map (\<lambda>(_, _, obj). obj) ds) (set_part p (\<lambda>q. q\<lparr>garbage := g\<rparr>) (po\<lparr>epoch := m\<rparr>))))
        (GarbageListUnsafe_Push fuel (garbage (partition_table po ! p)) desc kFreeDescriptor 0 (epoch po) (etable po)))"

definition Descriptor_Cleanup :: "nat \<Rightarrow> u64 \<Rightarrow> pool_state \<Rightarrow> (bool \<times> pool_state) checked option" where
  "Descriptor_Cleanup fuel desc po =
     (let s = status (desc_heap po desc) in
      if s AND kStatusDirtyFlag \<noteq> 0 then Some (Inl ''invalid status'')
      else if s \<noteq> kStatusFailed \<and> s \<noteq> kStatusSucceeded then Some (Inl ''invalid status'')
      else map_option (\<lambda>r. bind_checked r (\<lambda>po'.
             Inr (status (desc_heap po' desc) = kStatusSucceeded, po'))) (doCleanup fuel desc po))"

definition Descriptor_Abort :: "nat \<Rightarrow> u64 \<Rightarrow> pool_state \<Rightarrow> pool_state checked option" where
  "Descriptor_Abort fuel desc po =
     (if status (desc_heap po desc) \<noteq> kStatusFinished then Some (Inl ''cannot abort under current status'')
      else doCleanup fuel desc
        (po\<lparr>desc_heap := (desc_heap po)(desc := (desc_heap po desc)\<lparr>status := kStatusFailed\<rparr>)\<rparr>))"

section \<open>Rounding\<close>

lemma u32_exp_less: "k < 32 \<Longrightarrow> unat (2 ^ k :: u32) = 2 ^ k"
proof -
  assume "k < 32"
  then have "(2 :: nat) ^ k < 2 ^ LENGTH(32)" using power_strict_increasing [of k 32 "2 :: nat"] by simp
  from unat_of_nat_small [where 'a = 32, OF this] show ?thesis by simp
qed

lemma u32_exp_le: "(2 :: u32) ^ k \<le> 2 ^ 31"
proof (cases "k < 32")
  case True
  then have "(2 :: nat) ^ k \<le> 2 ^ 31" by (intro power_increasing) simp_all
  then have "unat (2 ^ k :: u32) \<le> unat (2 ^ 31 :: u32)" using u32_exp_less [OF True] u32_exp_less [of 31] by simp
  then show ?thesis by (simp only: word_le_nat_alt)
next
  case False
  then have "(2 :: u32) ^ k = 0" by (intro exp_eq_zero_iff [THEN iffD2]) simp
  then show ?thesis by (metis word_zero_le)
qed

lemma round_pool_size_spec:
  assumes "r \<le> 2 ^ 31" and "k \<le> 31" and "k = 0 \<or> 2 ^ (k - 1) < r" and "31 - k < n"
  shows "\<exists>j \<le> 31. round_pool_size n r (2 ^ k) = Some (2 ^ j) \<and> r \<le> 2 ^ j \<and> (j = 0 \<or> 2 ^ (j - 1) < r)"
  using assms(2-)
proof (induction n arbitrary: k)
  case (Suc n)
  show ?case
  proof (cases "r \<le> 2 ^ k")
    case True
    then show ?thesis using Suc.prems by auto
  next
    case False
    then have k: "k < 31" using assms(1) Suc.prems(1) by (cases "k = 31") auto
    have "\<exists>j \<le> 31. round_pool_size n r (2 ^ Suc k) = Some (2 ^ j) \<and> r \<le> 2 ^ j \<and> (j = 0 \<or> 2 ^ (j - 1) < r)"
      using k False Suc.prems by (intro Suc.IH) auto
    then show ?thesis using False by (simp add: mult.commute)
  qed
qed simp

lemma round_pool_size_loops:
  assumes "2 ^ 31 < r"
  shows "round_pool_size n r (2 ^ k) = None"
proof (induction n arbitrary: k)
  case (Suc n)
  have "\<not> r \<le> 2 ^ k" using assms u32_exp_le [of k] by auto
  then show ?case using Suc.IH [of "Suc k"] by (simp add: mult.commute)
qed simp

lemma round_partition_count_spec:
  assumes "k = 0 \<or> 2 ^ (k - 1) < r"
  shows "\<exists>j. k \<le> j \<and> j \<le> k + length es \<and> round_partition_count es r (2 ^ k) = 2 ^ j \<and>
    (r \<le> 2 ^ j \<or> j = k + length es) \<and> (j = 0 \<or> 2 ^ (j - 1) < r)"
  using assms
proof (induction es arbitrary: k)
  case (Cons e es)
  show ?case
  proof (cases "r \<le> 2 ^ k")
    case True
    then show ?thesis using Cons.prems by (intro exI [of _ k]) simp
  next
    case False
    then have "Suc k = 0 \<or> 2 ^ (Suc k - 1) < r" by auto
    from Cons.IH [OF this] obtain j where j: "Suc k \<le> j" "j \<le> Suc k + length es"
      "round_partition_count es r (2 ^ Suc k) = 2 ^ j" "r \<le> 2 ^ j \<or> j = Suc k + length es"
      "j = 0 \<or> 2 ^ (j - 1) < r"
      by blast
    show ?thesis
      by (intro exI [of _ j]) (use j False in \<open>simp add: mult.commute\<close>)
  qed
qed auto

section \<open>Layout\<close>

text \<open>The addresses of an area that does not wrap around and lies below the flag bits.\<close>

definition area_ok :: "u64 \<Rightarrow> nat \<Rightarrow> bool" where
  "area_ok base n \<longleftrightarrow> base \<noteq> 0 \<and> unat base + 256 * n < 2 ^ 61"

definition all_descs :: "u64 \<Rightarrow> nat \<Rightarrow> u64 list" where
  "all_descs base n = map (desc_ptr base) [0..<n]"

lemma unat_add_small: "unat a + k < 2 ^ 64 \<Longrightarrow> unat (a + of_nat k :: u64) = unat a + k"
  by (simp add: unat_word_ariths unat_of_nat)

lemma unat_desc_ptr:
  assumes "area_ok base n" and "k < n"
  shows "unat (desc_ptr base k) = unat base + 256 * k"
proof -
  have "unat base + 256 * k < 2 ^ 64" using assms by (simp add: area_ok_def)
  then show ?thesis using unat_add_small [of base "256 * k"] by (simp add: desc_ptr_def)
qed

lemma unat_word_ptr:
  assumes "area_ok base n" and "k < n" and "i < kMaxCount"
  shows "unat (word_ptr (desc_ptr base k) i) = unat base + 256 * k + 48 + 40 * i"
proof -
  have "unat (desc_ptr base k) + (48 + 40 * i) < 2 ^ 64"
    using assms unat_desc_ptr [OF assms(1,2)] by (simp add: area_ok_def kMaxCount_def)
  then show ?thesis using unat_add_small [of "desc_ptr base k" "48 + 40 * i"] unat_desc_ptr [OF assms(1,2)]
    by (simp add: word_ptr_def)
qed

lemma IsCleanPtr_small: "unat v < 2 ^ 61 \<Longrightarrow> IsCleanPtr v"
proof -
  assume v: "unat v < 2 ^ 61"
  have "\<not> bit v n" if "61 \<le> n" for n
  proof -
    have "unat v < 2 ^ n" using v that power_increasing [of 61 n "2 :: nat"] by linarith
    then have "\<not> bit (unat v) n" by (simp add: bit_iff_odd)
    then show ?thesis by (simp add: bit_unsigned_iff)
  qed
  then show ?thesis by (simp add: IsCleanPtr_bits)
qed

lemma in_all_descs: "x \<in> set (all_descs base n) \<longleftrightarrow> (\<exists>k < n. x = desc_ptr base k)"
  by (auto simp: all_descs_def)

lemma desc_ptr_inj:
  assumes "area_ok base n" and "j < n" and "k < n" and "desc_ptr base j = desc_ptr base k"
  shows "j = k"
proof -
  have "unat (desc_ptr base j) = unat (desc_ptr base k)" by (simp only: assms(4))
  then show ?thesis unfolding unat_desc_ptr [OF assms(1,2)] unat_desc_ptr [OF assms(1,3)] by linarith
qed

lemma all_descs_distinct:
  assumes "area_ok base n"
  shows "distinct (all_descs base n)" "0 \<notin> set (all_descs base n)"
proof -
  show "distinct (all_descs base n)"
    using desc_ptr_inj [OF assms] by (auto simp: all_descs_def distinct_map inj_on_def)
  have "desc_ptr base k \<noteq> 0" if "k < n" for k
  proof -
    have "unat base \<noteq> 0" using assms by (simp add: area_ok_def unat_eq_zero)
    then have "unat (desc_ptr base k) \<noteq> 0" using unat_desc_ptr [OF assms that] by linarith
    then show ?thesis by (metis unat_0)
  qed
  then show "0 \<notin> set (all_descs base n)" by (auto simp: in_all_descs)
qed

lemma word_ptr_inj:
  assumes "area_ok base n" and "j < n" and "k < n" and "i < kMaxCount" and "l < kMaxCount"
    and "word_ptr (desc_ptr base j) i = word_ptr (desc_ptr base k) l"
  shows "j = k \<and> i = l"
proof -
  have "unat (word_ptr (desc_ptr base j) i) = unat (word_ptr (desc_ptr base k) l)" by (simp only: assms(6))
  then have "256 * j + 40 * i = 256 * k + 40 * l"
    unfolding unat_word_ptr [OF assms(1,2,4)] unat_word_ptr [OF assms(1,3,5)] by linarith
  moreover have "i < 4" "l < 4" using assms(4,5) by (simp_all add: kMaxCount_def)
  ultimately have "\<not> j < k" "\<not> k < j" by linarith+
  then show ?thesis using \<open>256 * j + 40 * i = 256 * k + 40 * l\<close> by linarith
qed

section \<open>The free lists\<close>

fun chain :: "(u64 \<Rightarrow> descriptor) \<Rightarrow> u64 \<Rightarrow> u64 list \<Rightarrow> bool" where
  "chain ds p [] \<longleftrightarrow> p = 0"
| "chain ds p (x # xs) \<longleftrightarrow> p = x \<and> x \<noteq> 0 \<and> chain ds (next_ptr (ds x)) xs"

lemma chain_cong: "(\<And>x. x \<in> set xs \<Longrightarrow> ds x = ds' x) \<Longrightarrow> chain ds p xs \<longleftrightarrow> chain ds' p xs"
  by (induction xs arbitrary: p) auto

definition idle_desc :: "nat \<Rightarrow> descriptor \<Rightarrow> bool" where
  "idle_desc p d \<longleftrightarrow> owner_partition d = p \<and> status d = kStatusFinished \<and> count d = 0 \<and> wf_entries d"

text \<open>The free list of every partition, and the place of every descriptor.\<close>

definition free_ok :: "pool_state \<Rightarrow> u64 list list \<Rightarrow> bool" where
  "free_ok po F \<longleftrightarrow> length F = length (partition_table po) \<and> (\<forall>p < length F.
     chain (desc_heap po) (free_list (partition_table po ! p)) (F ! p) \<and>
     (\<forall>x \<in> set (F ! p). idle_desc p (desc_heap po x)))"

definition recyclable :: "descriptor \<Rightarrow> bool" where
  "recyclable d \<longleftrightarrow> (\<exists>r. DeallocateMemory d = Inr r)"

definition parts_ok :: "pool_state \<Rightarrow> bool" where
  "parts_ok po \<longleftrightarrow> partition_table po \<noteq> [] \<and> length (partition_table po) = unat (partition_count po) \<and>
     (\<forall>tid p. tls_part po tid = Some p \<longrightarrow> p < length (partition_table po)) \<and>
     (\<forall>p < length (partition_table po). list_ok (garbage (partition_table po ! p)) \<and>
        (\<forall>x \<in># held (garbage (partition_table po ! p)). owner_partition (desc_heap po x) = p \<and>
           recyclable (desc_heap po x)))"

definition descs_of :: "pool_state \<Rightarrow> u64 list" where
  "descs_of po = all_descs (desc_base po) (unat (pool_size po))"

text \<open>\<open>U\<close> are the descriptors in use. Every descriptor is in exactly one place.\<close>

definition pool_inv :: "pool_state \<Rightarrow> u64 multiset \<Rightarrow> bool" where
  "pool_inv po U \<longleftrightarrow> area_ok (desc_base po) (unat (pool_size po)) \<and> parts_ok po \<and>
     (\<forall>x \<in># U. owner_partition (desc_heap po x) < length (partition_table po)) \<and>
     (\<exists>F. free_ok po F \<and>
        sum_list (map mset F) + sum_list (map (held \<circ> garbage) (partition_table po)) + U = mset (descs_of po))"

lemma sum_list_update_mset:
  fixes f :: "'a \<Rightarrow> 'b multiset"
  assumes "i < length xs"
  shows "sum_list (map f (xs[i := y])) + f (xs ! i) = sum_list (map f xs) + f y"
  using assms
proof (induction xs arbitrary: i)
  case (Cons x xs)
  then show ?case by (cases i) (auto simp: ac_simps)
qed simp

lemma in_sum_list_mset:
  fixes f :: "'a \<Rightarrow> 'b multiset"
  assumes "i < length xs" and "x \<in># f (xs ! i)"
  shows "x \<in># sum_list (map f xs)"
  using assms by (induction xs arbitrary: i) (auto simp: nth_Cons split: nat.splits)

end
