(* ===== verification/Pool_Cycle.thy ===== *)
theory Pool_Cycle
  imports Pool
begin

text \<open>
  The properties of the descriptor pool: the rounding of its parameters, the layout of the area, which
  is what the protocol theories assume of the descriptor addresses, the distribution of the descriptors,
  and the conservation of descriptors over allocation, completion and abort.
\<close>

section \<open>The layout gives the addresses the protocol relies on\<close>

lemma find_word_area:
  assumes "area_ok base n" and "k < n" and "i < kMaxCount"
  shows "find_word (all_descs base n) (word_ptr (desc_ptr base k) i) = Some (desc_ptr base k, i)"
  unfolding find_word_def
proof (rule find_unique)
  show "(desc_ptr base k, i) \<in> set (List.product (all_descs base n) [0..<kMaxCount])"
    using assms(2,3) by (auto simp: in_all_descs)
next
  fix y assume "y \<in> set (List.product (all_descs base n) [0..<kMaxCount])"
    and p: "case y of (d, j) \<Rightarrow> word_ptr d j = word_ptr (desc_ptr base k) i"
  then obtain l j where y: "y = (desc_ptr base l, j)" "l < n" "j < kMaxCount"
    by (auto simp: in_all_descs)
  then show "y = (desc_ptr base k, i)"
    using p word_ptr_inj [OF assms(1) y(2) assms(2) y(3) assms(3)] by auto
qed simp

lemma area_pool_ok:
  assumes "area_ok base n"
  shows "pool_ok (all_descs base n)"
  unfolding pool_ok_def
proof (intro conjI ballI allI impI)
  show "distinct (all_descs base n)" by (rule all_descs_distinct(1) [OF assms])
  fix d assume d: "d \<in> set (all_descs base n)"
  then show "d \<noteq> 0" using all_descs_distinct(2) [OF assms] by auto
  obtain k where k: "k < n" "d = desc_ptr base k" using d by (auto simp: in_all_descs)
  have lt: "unat base + 256 * k + 256 < 2 ^ 61" using assms k(1) by (simp add: area_ok_def)
  then have "unat (desc_ptr base k) < 2 ^ 61" unfolding unat_desc_ptr [OF assms k(1)] by linarith
  then show "IsCleanPtr d" unfolding k(2) by (rule IsCleanPtr_small)
  fix i assume i: "i < kMaxCount"
  then have i4: "i < 4" by (simp add: kMaxCount_def)
  have "unat (word_ptr (desc_ptr base k) i) < 2 ^ 61"
    unfolding unat_word_ptr [OF assms k(1) i] using lt i4 by linarith
  then show "IsCleanPtr (word_ptr d i)" unfolding k(2) by (rule IsCleanPtr_small)
  show "find_word (all_descs base n) (word_ptr d i) = Some (d, i)"
    unfolding k(2) by (rule find_word_area [OF assms k(1) i])
  show "word_ptr d i \<notin> set (all_descs base n)"
  proof
    assume "word_ptr d i \<in> set (all_descs base n)"
    then obtain l where l: "l < n" "word_ptr (desc_ptr base k) i = desc_ptr base l"
      by (auto simp: in_all_descs k(2))
    have "unat (word_ptr (desc_ptr base k) i) = unat (desc_ptr base l)" by (simp only: l(2))
    then have "256 * k + 48 + 40 * i = 256 * l"
      unfolding unat_word_ptr [OF assms k(1) i] unat_desc_ptr [OF assms l(1)] by linarith
    moreover from this have "k < l" by linarith
    then have "256 * k + 256 \<le> 256 * l" by simp
    ultimately show False using i4 by linarith
  qed
qed

section \<open>Distribution\<close>

text \<open>The numbers of the descriptors of partition \<open>j\<close> among the first \<open>i\<close>.\<close>

definition block :: "nat \<Rightarrow> nat \<Rightarrow> nat \<Rightarrow> nat list" where
  "block per i j = [j * per..<min i ((j + 1) * per)]"

lemma block_Suc:
  assumes "0 < per"
  shows "block per (Suc i) j = (if j = i div per then block per i j @ [i] else block per i j)"
proof -
  have lo: "i div per * per \<le> i" and hi: "i < (i div per + 1) * per"
    using div_times_less_eq_dividend [of i per] dividend_less_div_times [OF assms, of i]
    by (simp_all add: algebra_simps)
  consider "j = i div per" | "j < i div per" | "i div per < j" by linarith
  then show ?thesis
  proof cases
    case 1
    then show ?thesis using lo hi by (simp add: block_def min_def)
  next
    case 2
    then have "(j + 1) * per \<le> i div per * per" by (intro mult_le_mono1) simp
    then have "(j + 1) * per \<le> i" using lo by (rule order_trans)
    then show ?thesis using 2 by (simp add: block_def min_def)
  next
    case 3
    then have "(i div per + 1) * per \<le> j * per" by (intro mult_le_mono1) simp
    then have "Suc i \<le> j * per" using hi by simp
    then show ?thesis using 3 by (simp add: block_def min_def)
  qed
qed

definition fresh_desc :: "nat \<Rightarrow> descriptor \<Rightarrow> bool" where
  "fresh_desc p d \<longleftrightarrow> idle_desc p d \<and> words d = replicate kMaxCount zero_word"

definition placed :: "pool_state \<Rightarrow> nat \<Rightarrow> nat \<Rightarrow> nat \<times> pool_state \<Rightarrow> bool" where
  "placed po0 per i ps \<longleftrightarrow> (case ps of (part, po) \<Rightarrow> part = i div per \<and>
     (\<exists>tab ds. po = po0\<lparr>desc_heap := ds, partition_table := tab\<rparr> \<and>
        length tab = length (partition_table po0) \<and>
        (\<forall>j < length tab. garbage (tab ! j) = garbage (partition_table po0 ! j) \<and>
           chain ds (free_list (tab ! j)) (rev (map (desc_ptr (desc_base po0)) (block per i j)))) \<and>
        (\<forall>k < i. fresh_desc (k div per) (ds (desc_ptr (desc_base po0) k)))))"

lemma place_desc_placed:
  assumes area: "area_ok (desc_base po0) n" and "unat per > 0" and i: "i < n"
    and range: "i div unat per < length (partition_table po0)" and "placed po0 (unat per) i ps"
  shows "placed po0 (unat per) (Suc i) (place_desc per ps i)"
proof -
  let ?b = "desc_base po0" and ?per = "unat per"
  let ?part = "i div ?per" and ?x = "desc_ptr (desc_base po0) i"
  obtain tab ds where ps: "ps = (?part, po0\<lparr>desc_heap := ds, partition_table := tab\<rparr>)"
    and len: "length tab = length (partition_table po0)"
    and tab: "\<forall>j < length tab. garbage (tab ! j) = garbage (partition_table po0 ! j) \<and>
           chain ds (free_list (tab ! j)) (rev (map (desc_ptr ?b) (block ?per i j)))"
    and fresh: "\<forall>k < i. fresh_desc (k div ?per) (ds (desc_ptr ?b k))"
    using assms(5) by (cases ps) (auto simp: placed_def)
  define d where "d = (new_Descriptor ?part (ds ?x))\<lparr>next_ptr := free_list (tab ! ?part)\<rparr>"
  define tab' where "tab' = tab[?part := (tab ! ?part)\<lparr>free_list := ?x\<rparr>]"
  have other: "desc_ptr ?b k \<noteq> ?x" if "k < i" for k
    using desc_ptr_inj [OF area _ i, of k] that i by auto
  have x0: "?x \<noteq> 0" using all_descs_distinct(2) [OF area] i by (auto simp: in_all_descs)
  have "chain (ds(?x := d)) p xs = chain ds p xs" if "xs = rev (map (desc_ptr ?b) (block ?per i j))" for p xs j
    using other that by (intro chain_cong) (auto simp: block_def)
  then have "garbage (tab' ! j) = garbage (partition_table po0 ! j) \<and>
      chain (ds(?x := d)) (free_list (tab' ! j)) (rev (map (desc_ptr ?b) (block ?per (Suc i) j)))"
    if "j < length tab" for j
    using tab that x0 block_Suc [OF assms(2), of i j] by (auto simp: tab'_def nth_list_update d_def)
  moreover have "fresh_desc (k div ?per) ((ds(?x := d)) (desc_ptr ?b k))" if "k < Suc i" for k
    using fresh other that
    by (cases "k = i") (auto simp: d_def fresh_desc_def idle_desc_def new_Descriptor_def wf_entries_def
        entries_def kMaxCount_def)
  moreover have "length tab' = length tab" by (simp add: tab'_def)
  moreover have "place_desc per ps i =
      (Suc i div ?per, po0\<lparr>desc_heap := ds(?x := d), partition_table := tab'\<rparr>)"
    by (simp add: place_desc_def ps Let_def d_def tab'_def div_Suc)
  ultimately show ?thesis unfolding placed_def using len
    by (simp only: prod.case) (intro conjI refl exI [of _ tab'] exI [of _ "ds(?x := d)"]; simp)
qed

lemma distribute_placed:
  assumes area: "area_ok (desc_base po) (unat (pool_size po))" and "pool_size po > partition_count po"
    and size: "unat (pool_size po) = 2 ^ a" and parts: "unat (partition_count po) = 2 ^ b"
    and len: "length (partition_table po) = unat (partition_count po)"
    and null: "\<forall>q \<in> set (partition_table po). free_list q = 0"
  obtains part po' where "distribute po = Inr po'"
    "placed po (2 ^ (a - b)) (2 ^ a) (part, po')"
proof -
  let ?per = "pool_size po div partition_count po"
  let ?po0 = "po\<lparr>desc_heap := (\<lambda>_. zero_descriptor)\<rparr>"
  have "(2 :: nat) ^ b < 2 ^ a" using assms(2) size parts by (simp add: word_less_nat_alt)
  then have ba: "b < a" by (simp add: power_less_imp_less_exp)
  have per: "unat ?per = 2 ^ (a - b)"
    using ba by (simp add: unat_div size parts power_diff)
  have inv: "placed po (2 ^ (a - b)) i (foldl (place_desc ?per) (0, ?po0) [0..<i])" if "i \<le> 2 ^ a" for i
    using that
  proof (induction i)
    case 0
    have "po\<lparr>desc_heap := \<lambda>_. zero_descriptor\<rparr> =
        po\<lparr>desc_heap := \<lambda>_. zero_descriptor, partition_table := partition_table po\<rparr>"
      by simp
    then show ?case using null by (auto simp: placed_def block_def intro!: exI [of _ "partition_table po"])
  next
    case (Suc i)
    have "i div 2 ^ (a - b) < 2 ^ b"
      using Suc.prems ba by (simp add: less_mult_imp_div_less power_add [symmetric])
    then show ?case
      using place_desc_placed [OF area, of ?per i] Suc size parts len per by simp
  qed
  let ?r = "foldl (place_desc ?per) (0, ?po0) [0..<unat (pool_size po)]"
  have "distribute po = Inr (snd ?r)" using assms(2) by (simp add: distribute_def Let_def)
  then show thesis using that [of "snd ?r" "fst ?r"] inv [of "2 ^ a"] size by simp
qed

lemma foldl_place_sizes:
  "pool_size (snd (foldl (place_desc per) ps is)) = pool_size (snd ps)"
  "partition_count (snd (foldl (place_desc per) ps is)) = partition_count (snd ps)"
  "desc_base (snd (foldl (place_desc per) ps is)) = desc_base (snd ps)"
  by (induction "is" arbitrary: ps) (simp_all add: place_desc_def Let_def split: prod.splits)

text \<open>A fresh partition.\<close>

definition fresh_partition :: partition where
  "fresh_partition = \<lparr>free_list = 0, garbage = snd (GarbageListUnsafe_Initialize new_GarbageList True True kGarbageListSize)\<rparr>"

lemma kGarbageListSize_pow: "IS_POWER_OF_TWO kGarbageListSize" "kGarbageListSize \<noteq> 0"
  by code_simp+

lemma new_DescriptorPartition_ok: "new_DescriptorPartition True = Inr fresh_partition"
  using kGarbageListSize_pow
  by (simp add: new_DescriptorPartition_def fresh_partition_def GarbageListUnsafe_Initialize_def
      new_GarbageList_def OK_def ok_def status_code_def)

lemma fresh_partition_garbage:
  "free_list fresh_partition = 0" "list_ok (garbage fresh_partition)" "held (garbage fresh_partition) = {#}"
  using kGarbageListSize_pow
  by (auto simp: fresh_partition_def GarbageListUnsafe_Initialize_def new_GarbageList_def list_ok_def held_def
      new_item_def invalid_epoch_def map_replicate_const filter_replicate)

lemma new_partitions_ok: "new_partitions True n = Inr (replicate n fresh_partition)"
  by (induction n) (simp_all add: new_DescriptorPartition_ok)

lemma epoch_initialized:
  obtains m h' where "EpochManager_Initialize fresh new_EpochManager h = (OK, m, h')" "current_epoch m = 1"
    "epoch_table m = Some fresh"
proof -
  have "IS_POWER_OF_TWO kDefaultSize" by code_simp
  then show thesis
    using that by (simp add: EpochManager_Initialize_def new_EpochManager_def MinEpochTable_Initialize_def
        new_MinEpochTable_def return_not_ok_def OK_def ok_def status_code_def)
qed

lemma blocks_concat: "concat (map (\<lambda>j. [j * per..<(j + 1) * per]) [0..<c]) = [0..<c * per]"
proof (induction c)
  case (Suc c)
  have "[0..<c * per] @ [c * per..<c * per + per] = [0..<c * per + per]"
    using upt_add_eq_append [of 0 "c * per" per] by simp
  then show ?case using Suc by (simp add: add.commute)
qed simp

lemma blocks_sum:
  assumes "n = c * per"
  shows "sum_list (map (\<lambda>j. mset (rev (map f (block per n j)))) [0..<c]) = mset (map f [0..<n])"
proof -
  have "min n ((j + 1) * per) = (j + 1) * per" if "j < c" for j
  proof -
    have "(j + 1) * per \<le> c * per" using that by (intro mult_le_mono1) simp
    then show ?thesis by (simp add: assms)
  qed
  then have "map (\<lambda>j. mset (rev (map f (block per n j)))) [0..<c] =
      map (\<lambda>j. mset (map f [j * per..<(j + 1) * per])) [0..<c]"
    by (simp add: block_def)
  then have "sum_list (map (\<lambda>j. mset (rev (map f (block per n j)))) [0..<c]) =
      sum_list (map (\<lambda>j. mset (map f [j * per..<(j + 1) * per])) [0..<c])"
    by (rule arg_cong)
  also have "\<dots> = mset (map f (concat (map (\<lambda>j. [j * per..<(j + 1) * per]) [0..<c])))"
    by (simp only: map_concat mset_concat map_map comp_def)
  also have "\<dots> = mset (map f [0..<n])" unfolding blocks_concat assms ..
  finally show ?thesis .
qed

text \<open>After the distribution every descriptor is on the free list of its partition.\<close>

lemma placed_pool_inv:
  assumes placed: "placed po (2 ^ (a - b)) (2 ^ a) (part, po')" and ba: "b < a"
    and area: "area_ok (desc_base po) (2 ^ a)"
    and po: "unat (pool_size po) = 2 ^ a" "unat (partition_count po) = 2 ^ b"
      "length (partition_table po) = 2 ^ b" "tls_part po = (\<lambda>_. None)"
    and empty: "\<forall>q \<in> set (partition_table po). list_ok (garbage q) \<and> held (garbage q) = {#}"
  shows "pool_inv po' {#}"
proof -
  let ?per = "2 ^ (a - b) :: nat" and ?dp = "desc_ptr (desc_base po)"
  obtain tab ds where po': "po' = po\<lparr>desc_heap := ds, partition_table := tab\<rparr>"
    and len: "length tab = 2 ^ b"
    and tab: "\<forall>j < 2 ^ b. garbage (tab ! j) = garbage (partition_table po ! j) \<and>
           chain ds (free_list (tab ! j)) (rev (map ?dp (block ?per (2 ^ a) j)))"
    and fresh: "\<forall>k < 2 ^ a. fresh_desc (k div ?per) (ds (?dp k))"
    using placed by (auto simp: placed_def po(3))
  let ?F = "map (\<lambda>j. rev (map ?dp (block ?per (2 ^ a) j))) [0..<2 ^ b]"
  have g: "list_ok (garbage (tab ! j)) \<and> held (garbage (tab ! j)) = {#}" if "j < 2 ^ b" for j
    using tab empty that po(3) by simp
  have n: "(2 :: nat) ^ a = 2 ^ b * ?per" using ba by (simp add: power_add [symmetric])
  have mem: "k div ?per = j \<and> k < 2 ^ a" if "k \<in> set (block ?per (2 ^ a) j)" for k j
    using that by (auto simp: block_def intro!: div_nat_eqI simp: mult.commute)
  have "free_ok po' ?F"
    using tab fresh mem len by (auto simp: free_ok_def po' fresh_desc_def)
  moreover have "sum_list (map (held \<circ> garbage) tab) = {#}"
  proof -
    have "map (held \<circ> garbage) tab = replicate (2 ^ b) {#}"
      using g len by (intro nth_equalityI) simp_all
    moreover have "sum_list (replicate k {#}) = {#}" for k by (induction k) simp_all
    ultimately show ?thesis by (simp only:)
  qed
  moreover have "sum_list (map mset ?F) = mset (descs_of po')"
    using blocks_sum [OF n, of ?dp] by (simp add: descs_of_def all_descs_def po' po(1) comp_def)
  moreover have "parts_ok po'"
  proof -
    have "tab \<noteq> []" using len by auto
    then show ?thesis using g len by (simp add: parts_ok_def po' po(2,4))
  qed
  ultimately show ?thesis using area by (auto simp: pool_inv_def po' po(1))
qed

lemma placed_chain:
  assumes "placed po0 (2 ^ (a - b)) (2 ^ a) (part, po)" and "b < a" and "length (partition_table po0) = 2 ^ b"
    and "p < 2 ^ b"
  shows "chain (desc_heap po) (free_list (partition_table po ! p))
    (rev (map (desc_ptr (desc_base po0)) [p * 2 ^ (a - b)..<(p + 1) * 2 ^ (a - b)]))"
proof -
  have "(p + 1) * 2 ^ (a - b) \<le> 2 ^ b * 2 ^ (a - b)" using assms(4) by (intro mult_le_mono1) simp
  also have "\<dots> = (2 :: nat) ^ a" using assms(2) by (simp add: power_add [symmetric])
  finally have "block (2 ^ (a - b)) (2 ^ a) p = [p * 2 ^ (a - b)..<(p + 1) * 2 ^ (a - b)]"
    by (simp add: block_def min_absorb2)
  then show ?thesis using assms(1,3,4) by (auto simp: placed_def)
qed

section \<open>Descriptors on the move\<close>

lemma set_part_fields [simp]:
  "desc_heap (set_part p f po) = desc_heap po" "length (partition_table (set_part p f po)) = length (partition_table po)"
  "tls_part (set_part p f po) = tls_part po" "desc_base (set_part p f po) = desc_base po"
  "pool_size (set_part p f po) = pool_size po" "epoch (set_part p f po) = epoch po"
  by (simp_all add: set_part_def)

lemma pool_invE:
  assumes "pool_inv po U"
  obtains F where "free_ok po F" "area_ok (desc_base po) (unat (pool_size po))" "parts_ok po"
    "\<forall>x \<in># U. owner_partition (desc_heap po x) < length (partition_table po)"
    "sum_list (map mset F) + sum_list (map (held \<circ> garbage) (partition_table po)) + U = mset (descs_of po)"
  using assms by (auto simp: pool_inv_def)

lemma free_okD:
  assumes "free_ok po F" and "p < length (partition_table po)"
  shows "length F = length (partition_table po)"
    "chain (desc_heap po) (free_list (partition_table po ! p)) (F ! p)"
    "\<forall>x \<in> set (F ! p). idle_desc p (desc_heap po x)"
  using assms by (simp_all add: free_ok_def)

lemma total_distinct:
  assumes "A + B + U = mset (descs_of po)" and "area_ok (desc_base po) (unat (pool_size po))" and "x \<in># U"
  shows "x \<notin># A" "x \<notin># B" "x \<notin># U - {#x#}" "x \<noteq> 0" "x \<in> set (descs_of po)"
proof -
  have "x \<in># mset (descs_of po)" using assms(1,3) by (metis union_iff)
  then show "x \<in> set (descs_of po)" by simp
  have d: "distinct (descs_of po)" "0 \<notin> set (descs_of po)"
    using all_descs_distinct [OF assms(2)] by (simp_all add: descs_of_def)
  then show "x \<noteq> 0" using \<open>x \<in> set (descs_of po)\<close> by auto
  have "Multiset.count (mset (descs_of po)) x = 1"
    using d(1) \<open>x \<in> set (descs_of po)\<close> by (simp add: distinct_count_atmost_1)
  then have "Multiset.count (A + B + U) x = 1" using assms(1) by (simp only:)
  then have one: "Multiset.count A x + Multiset.count B x + Multiset.count U x = 1" by simp
  have "Multiset.count U x > 0" using assms(3) by simp
  then have "Multiset.count A x = 0" "Multiset.count B x = 0" "Multiset.count U x = 1" using one by linarith+
  moreover from this(3) have "Multiset.count (U - {#x#}) x = 0" by simp
  ultimately have "Multiset.count A x = 0" "Multiset.count B x = 0" "Multiset.count (U - {#x#}) x = 0" by blast+
  then show "x \<notin># A" "x \<notin># B" "x \<notin># U - {#x#}" by (simp_all add: not_in_iff)
qed

lemma pool_inv_fields [simp]:
  "pool_inv (po\<lparr>freed := fr\<rparr>) U = pool_inv po U"
  "pool_inv (po\<lparr>next_partition := k\<rparr>) U = pool_inv po U"
  by (simp_all add: pool_inv_def free_ok_def parts_ok_def descs_of_def)

text \<open>Writing to a descriptor in use, with its partition kept, disturbs nothing.\<close>

lemma pool_inv_write:
  assumes "pool_inv po U" and "x \<in># U" and "owner_partition d = owner_partition (desc_heap po x)"
  shows "pool_inv (po\<lparr>desc_heap := (desc_heap po)(x := d)\<rparr>) U"
proof -
  obtain F where F: "free_ok po F" "area_ok (desc_base po) (unat (pool_size po))" "parts_ok po"
    "\<forall>x \<in># U. owner_partition (desc_heap po x) < length (partition_table po)"
    "sum_list (map mset F) + sum_list (map (held \<circ> garbage) (partition_table po)) + U = mset (descs_of po)"
    by (rule pool_invE [OF assms(1)])
  note fresh = total_distinct [OF F(5,2) assms(2)]
  have inF: "x \<notin> set (F ! p)" if "p < length F" for p
    using fresh(1) in_sum_list_mset [OF that, of x mset] by auto
  have inG: "x \<notin># held (garbage (partition_table po ! p))" if "p < length (partition_table po)" for p
    using fresh(2) in_sum_list_mset [OF that, of x "held \<circ> garbage"] by auto
  have "chain ((desc_heap po)(x := d)) q (F ! p) = chain (desc_heap po) q (F ! p)" if "p < length F" for p q
    using inF [OF that] by (intro chain_cong) auto
  then have "free_ok (po\<lparr>desc_heap := (desc_heap po)(x := d)\<rparr>) F"
    using F(1) inF by (auto simp: free_ok_def)
  moreover have "parts_ok (po\<lparr>desc_heap := (desc_heap po)(x := d)\<rparr>)"
    using F(3) inG by (auto simp: parts_ok_def)
  ultimately show ?thesis using F assms(3) by (auto simp: pool_inv_def descs_of_def)
qed

text \<open>A descriptor in use goes to the front of the free list of its partition.\<close>

lemma free_push:
  assumes "pool_inv po U" and x: "x \<in># U" and p: "owner_partition (desc_heap po x) = p" and "idle_desc p d"
    and "next_ptr d = free_list (partition_table po ! p)"
  shows "pool_inv (set_part p (\<lambda>q. q\<lparr>free_list := x\<rparr>) (po\<lparr>desc_heap := (desc_heap po)(x := d)\<rparr>)) (U - {#x#})"
proof -
  obtain F where F: "free_ok po F" "area_ok (desc_base po) (unat (pool_size po))" "parts_ok po"
    "\<forall>x \<in># U. owner_partition (desc_heap po x) < length (partition_table po)"
    "sum_list (map mset F) + sum_list (map (held \<circ> garbage) (partition_table po)) + U = mset (descs_of po)"
    by (rule pool_invE [OF assms(1)])
  let ?tab = "partition_table po"
  let ?tab' = "?tab[p := (?tab ! p)\<lparr>free_list := x\<rparr>]" and ?F = "F[p := x # F ! p]"
  note fresh = total_distinct [OF F(5,2) x]
  have plt: "p < length ?tab" using F(4) x p by blast
  have lenF: "length F = length ?tab" by (rule free_okD(1) [OF F(1) plt])
  have inF: "x \<notin> set (F ! j)" if "j < length F" for j
    using fresh(1) in_sum_list_mset [OF that, of x mset] by auto
  have inG: "x \<notin># held (garbage (?tab ! j))" if "j < length ?tab" for j
    using fresh(2) in_sum_list_mset [OF that, of x "held \<circ> garbage"] by auto
  have ch: "chain ((desc_heap po)(x := d)) q (F ! j) = chain (desc_heap po) q (F ! j)" if "j < length F" for j q
    using inF [OF that] by (intro chain_cong) auto
  let ?po' = "set_part p (\<lambda>q. q\<lparr>free_list := x\<rparr>) (po\<lparr>desc_heap := (desc_heap po)(x := d)\<rparr>)"
  have "free_ok ?po' ?F"
    unfolding free_ok_def
  proof (intro conjI allI impI)
    fix j assume "j < length ?F"
    then have j: "j < length ?tab" using lenF by simp
    show "chain (desc_heap (?po')) (free_list (partition_table ?po' ! j)) (?F ! j)"
      using free_okD(2) [OF F(1) j] free_okD(2) [OF F(1) plt] j lenF ch assms(5) fresh(4) plt
      by (cases "j = p") (simp_all add: set_part_def)
    show "\<forall>y \<in> set (?F ! j). idle_desc j (desc_heap ?po' y)"
      using free_okD(3) [OF F(1) j] inF j lenF assms(4) plt by (cases "j = p") (auto simp: set_part_def)
  qed (simp add: set_part_def lenF)
  moreover have "parts_ok ?po'"
    using F(3) inG plt by (auto simp: parts_ok_def set_part_def nth_list_update)
  moreover have "sum_list (map (held \<circ> garbage) ?tab') = sum_list (map (held \<circ> garbage) ?tab)"
    using sum_list_update_mset [OF plt, of "held \<circ> garbage" "(?tab ! p)\<lparr>free_list := x\<rparr>"] by simp
  moreover have "sum_list (map mset ?F) = sum_list (map mset F) + {#x#}"
    using sum_list_update_mset [of p F mset "x # F ! p"] plt lenF by simp
  moreover obtain U' where "U = add_mset x U'" using multi_member_split [OF x] by blast
  ultimately show ?thesis using F fresh(3)
    by (auto simp: pool_inv_def set_part_def descs_of_def intro!: exI [of _ ?F])
qed

text \<open>
  The garbage list of a partition takes the descriptors \<open>A\<close> out of use and lets \<open>D\<close> go; those are then
  in the hands of the caller, ready to be recycled.
\<close>

lemma exchange_total:
  fixes S :: "'a multiset"
  assumes "S' + H = S + G" and "G + D = H + A" and "F + S + (A + U) = M"
  shows "F + S' + (D + U) = M"
proof -
  have "(S' + D) + H = S' + H + D" by (simp add: ac_simps)
  also have "\<dots> = S + (G + D)" unfolding assms(1) by (simp add: ac_simps)
  also have "\<dots> = (S + A) + H" unfolding assms(2) by (simp add: ac_simps)
  finally have eq: "S' + D = S + A" by (rule add_right_imp_eq)
  have "F + S' + (D + U) = F + (S' + D) + U" by (simp add: ac_simps)
  also have "\<dots> = F + S + (A + U)" unfolding eq by (simp add: ac_simps)
  finally show ?thesis using assms(3) by simp
qed

lemma garbage_exchange:
  assumes "pool_inv po (A + U)" and p: "p < length (partition_table po)"
    and g: "list_ok g" "held g + D = held (garbage (partition_table po ! p)) + A"
    and A: "\<forall>x \<in># A. owner_partition (desc_heap po x) = p \<and> recyclable (desc_heap po x)"
  shows "pool_inv (set_part p (\<lambda>q. q\<lparr>garbage := g\<rparr>) (po\<lparr>epoch := m\<rparr>)) (D + U)"
    "\<forall>x \<in># D. owner_partition (desc_heap po x) = p \<and> recyclable (desc_heap po x)"
proof -
  let ?tab = "partition_table po" and ?po' = "set_part p (\<lambda>q. q\<lparr>garbage := g\<rparr>) (po\<lparr>epoch := m\<rparr>)"
  let ?old = "held (garbage (?tab ! p))"
  obtain F where F: "free_ok po F" "area_ok (desc_base po) (unat (pool_size po))" "parts_ok po"
    "\<forall>x \<in># A + U. owner_partition (desc_heap po x) < length ?tab"
    "sum_list (map mset F) + sum_list (map (held \<circ> garbage) ?tab) + (A + U) = mset (descs_of po)"
    by (rule pool_invE [OF assms(1)])
  have old: "\<forall>x \<in># ?old. owner_partition (desc_heap po x) = p \<and> recyclable (desc_heap po x)"
    using F(3) p by (auto simp: parts_ok_def)
  have all: "owner_partition (desc_heap po x) = p \<and> recyclable (desc_heap po x)" if "x \<in># held g + D" for x
  proof -
    have "x \<in># ?old + A" using that unfolding g(2) .
    then show ?thesis using old A by auto
  qed
  then show "\<forall>x \<in># D. owner_partition (desc_heap po x) = p \<and> recyclable (desc_heap po x)" by simp
  have "free_ok ?po' F" using F(1) p by (auto simp: free_ok_def set_part_def nth_list_update)
  moreover have "parts_ok ?po'"
    using F(3) p g(1) all by (auto simp: parts_ok_def set_part_def nth_list_update)
  moreover have "sum_list (map (held \<circ> garbage) (partition_table ?po')) + ?old =
      sum_list (map (held \<circ> garbage) ?tab) + held g"
    using sum_list_update_mset [OF p, of "held \<circ> garbage" "(?tab ! p)\<lparr>garbage := g\<rparr>"] by (simp add: set_part_def)
  then have "sum_list (map mset F) + sum_list (map (held \<circ> garbage) (partition_table ?po')) + (D + U) =
      mset (descs_of po)"
    using exchange_total [OF _ g(2) F(5)] by blast
  moreover have "descs_of ?po' = descs_of po" by (simp add: descs_of_def set_part_def)
  ultimately show "pool_inv ?po' (D + U)"
    using F(2,4) all p by (auto simp: pool_inv_def set_part_def)
qed

text \<open>What stays the same when descriptors are freed.\<close>

definition same_shape :: "pool_state \<Rightarrow> pool_state \<Rightarrow> bool" where
  "same_shape po po' \<longleftrightarrow> length (partition_table po') = length (partition_table po) \<and>
     map garbage (partition_table po') = map garbage (partition_table po) \<and> epoch po' = epoch po \<and>
     estore po' = estore po \<and> tls_part po' = tls_part po \<and> desc_base po' = desc_base po \<and> pool_size po' = pool_size po"

lemma FreeDescriptor_ok:
  assumes "pool_inv po (add_mset x U)" and "recyclable (desc_heap po x)"
  obtains po' where "FreeDescriptor x po = Inr po'" "pool_inv po' U" "same_shape po po'"
    "\<And>y. y \<noteq> x \<Longrightarrow> desc_heap po' y = desc_heap po y"
    "free_list (partition_table po' ! owner_partition (desc_heap po x)) = x"
proof -
  let ?p = "owner_partition (desc_heap po x)"
  obtain fr d where d: "DeallocateMemory (desc_heap po x) = Inr (fr, d)"
    using assms(2) by (auto simp: recyclable_def)
  then have own: "owner_partition d = ?p" by (auto simp: DeallocateMemory_def bind_checked_eq_Inr)
  define d' where "d' = (Initialize d)\<lparr>next_ptr := free_list (partition_table po ! ?p)\<rparr>"
  define po1 where "po1 = po\<lparr>freed := freed po @ fr\<rparr>"
  define po' where "po' = set_part ?p (\<lambda>q. q\<lparr>free_list := x\<rparr>) (po1\<lparr>desc_heap := (desc_heap po1)(x := d')\<rparr>)"
  have p: "?p < length (partition_table po)" using assms(1) by (auto simp: pool_inv_def)
  have idle: "idle_desc ?p d'"
    using wf_entries_Initialize [of d] own
    by (simp add: d'_def idle_desc_def Initialize_def wf_entries_def entries_def)
  have "pool_inv po1 (add_mset x U)"
    using assms(1) by (simp add: po1_def)
  from free_push [OF this _ _ idle, of x] have "pool_inv po' U"
    by (simp add: po'_def po1_def d'_def)
  moreover have "FreeDescriptor x po = Inr po'"
    by (simp add: FreeDescriptor_def d Let_def own po'_def d'_def set_part_def po1_def)
  moreover have "same_shape po po'"
    using p by (auto simp: same_shape_def po'_def set_part_def po1_def nth_list_update intro: nth_equalityI)
  moreover have "free_list (partition_table po' ! ?p) = x" using p by (simp add: po'_def set_part_def po1_def)
  moreover have "desc_heap po' y = desc_heap po y" if "y \<noteq> x" for y
    using that by (simp add: po'_def set_part_def po1_def)
  ultimately show thesis using that by blast
qed

lemma same_shape_trans: "same_shape a b \<Longrightarrow> same_shape b c \<Longrightarrow> same_shape a c"
  by (simp add: same_shape_def)

lemma FreeDescriptors_ok:
  assumes "pool_inv po (mset xs + U)" and "\<forall>x \<in> set xs. recyclable (desc_heap po x) \<and> owner_partition (desc_heap po x) = p"
  shows "\<exists>po'. FreeDescriptors xs po = Inr po' \<and> pool_inv po' U \<and> same_shape po po' \<and>
    (\<forall>y \<in># U. desc_heap po' y = desc_heap po y) \<and> (xs \<noteq> [] \<longrightarrow> free_list (partition_table po' ! p) \<noteq> 0) \<and>
    (\<forall>y. y \<notin> set xs \<longrightarrow> desc_heap po' y = desc_heap po y)"
  using assms
proof (induction xs arbitrary: po)
  case Nil
  then show ?case by (simp add: same_shape_def)
next
  case (Cons x xs)
  have inv: "pool_inv po (add_mset x (mset xs + U))" using Cons.prems(1) by simp
  have x: "recyclable (desc_heap po x)" "owner_partition (desc_heap po x) = p" using Cons.prems(2) by auto
  obtain po1 where 1: "FreeDescriptor x po = Inr po1" "pool_inv po1 (mset xs + U)" "same_shape po po1"
    "\<And>y. y \<noteq> x \<Longrightarrow> desc_heap po1 y = desc_heap po y"
    "free_list (partition_table po1 ! p) = x"
    using FreeDescriptor_ok [OF inv x(1)] x(2) by metis
  obtain F where F: "area_ok (desc_base po) (unat (pool_size po))"
    "sum_list (map mset F) + sum_list (map (held \<circ> garbage) (partition_table po)) + add_mset x (mset xs + U) = mset (descs_of po)"
    by (rule pool_invE [OF inv])
  have fresh: "x \<notin># mset xs + U" "x \<noteq> 0" using total_distinct [OF F(2,1), of x] by auto
  have "\<forall>y \<in> set xs. recyclable (desc_heap po1 y) \<and> owner_partition (desc_heap po1 y) = p"
    using Cons.prems(2) 1(4) fresh(1) by (metis list.set_intros(2) set_mset_mset union_iff)
  from Cons.IH [OF 1(2) this] obtain po2 where 2: "FreeDescriptors xs po1 = Inr po2" "pool_inv po2 U"
    "same_shape po1 po2" "\<forall>y \<in># U. desc_heap po2 y = desc_heap po1 y"
    "xs \<noteq> [] \<longrightarrow> free_list (partition_table po2 ! p) \<noteq> 0"
    "\<forall>y. y \<notin> set xs \<longrightarrow> desc_heap po2 y = desc_heap po1 y"
    by blast
  have "\<forall>y \<in># U. desc_heap po2 y = desc_heap po y" using 2(4) 1(4) fresh(1) by (metis union_iff)
  moreover have "free_list (partition_table po2 ! p) \<noteq> 0"
    using 2(1,5) 1(5) fresh(2) by (cases "xs = []") auto
  moreover have "\<forall>y. y \<notin> set (x # xs) \<longrightarrow> desc_heap po2 y = desc_heap po y" using 2(6) 1(4) by auto
  ultimately show ?case using 1(1) 2(1,2) same_shape_trans [OF 1(3) 2(3)] by simp
qed

section \<open>Allocation\<close>

text \<open>One round of the loop: the garbage list gives back what is safe, and nothing is lost.\<close>

definition refill_round :: "nat \<Rightarrow> pool_state \<Rightarrow> pool_state checked" where
  "refill_round p po =
     (let m = BumpCurrentEpoch (epoch po) (etable po) in
      case ScavengeUnsafe (garbage (partition_table po ! p)) m of (_, ds, g) \<Rightarrow>
        FreeDescriptors (map (\<lambda>(_, _, obj). obj) ds) (set_part p (\<lambda>q. q\<lparr>garbage := g\<rparr>) (po\<lparr>epoch := m\<rparr>)))"

lemma refill_Suc:
  "refill (Suc n) p po = (if free_list (partition_table po ! p) \<noteq> 0 then Some (Inr po)
     else case refill_round p po of Inl e \<Rightarrow> Some (Inl e) | Inr po' \<Rightarrow> refill n p po')"
  by (simp add: refill_round_def Let_def split: prod.splits)

definition kept :: "u64 multiset \<Rightarrow> pool_state \<Rightarrow> pool_state \<Rightarrow> bool" where
  "kept U po po' \<longleftrightarrow> length (partition_table po') = length (partition_table po) \<and> tls_part po' = tls_part po \<and>
     desc_base po' = desc_base po \<and> pool_size po' = pool_size po \<and> (\<forall>x \<in># U. desc_heap po' x = desc_heap po x)"

lemma kept_refl [simp]: "kept U po po"
  by (simp add: kept_def)

lemma kept_trans: "kept U a b \<Longrightarrow> kept U b c \<Longrightarrow> kept U a c"
  by (simp add: kept_def)

lemma same_shape_kept:
  "same_shape po po' \<Longrightarrow> \<forall>x \<in># U. desc_heap po' x = desc_heap po x \<Longrightarrow> kept U po po'"
  by (simp add: kept_def same_shape_def)

lemma kept_set_part [simp]: "kept U po (set_part p f (po\<lparr>epoch := m\<rparr>))"
  by (simp add: kept_def set_part_def)

lemma refill_round_ok:
  assumes inv: "pool_inv po U" and p: "p < length (partition_table po)"
  obtains po' where "refill_round p po = Inr po'" "pool_inv po' U" "kept U po po'"
    "(\<exists>it \<in> set (items (garbage (partition_table po ! p))).
        reclaimable (BumpCurrentEpoch (epoch po) (etable po)) it) \<longrightarrow> free_list (partition_table po' ! p) \<noteq> 0"
proof -
  let ?g = "garbage (partition_table po ! p)" and ?m = "BumpCurrentEpoch (epoch po) (etable po)"
  let ?ds = "map removed_item (filter (reclaimable ?m) (items ?g))"
  let ?g' = "?g\<lparr>items := map (\<lambda>it. if reclaimable ?m it then new_item else it) (items ?g)\<rparr>"
  have scav: "ScavengeUnsafe ?g ?m = (0, map destroy (filter (reclaimable ?m) (items ?g)), ?g')"
    by (simp add: ScavengeUnsafe_def scavenge_item_unsafe_eq scavenge_loop_spec)
  have ok: "list_ok ?g" using inv p by (simp add: pool_inv_def parts_ok_def)
  have "scavenge_objects (?g, epoch po, etable po) = (?ds, ?g', ?m, etable po)"
    by (simp add: scavenge_objects_def scav)
  from gu.scavenge_conserves [OF _ this] ok
  have g': "list_ok ?g'" "held ?g' + mset ?ds = held ?g + {#}" by simp_all
  have inv0: "pool_inv po ({#} + U)" using inv by simp
  note ex = garbage_exchange [OF inv0 p g', simplified]
  let ?po1 = "set_part p (\<lambda>q. q\<lparr>garbage := ?g'\<rparr>) (po\<lparr>epoch := ?m\<rparr>)"
  have "\<forall>x \<in> set ?ds. recyclable (desc_heap ?po1 x) \<and> owner_partition (desc_heap ?po1 x) = p"
    using ex(2) by (auto simp: set_part_def)
  from FreeDescriptors_ok [OF _ this, of U] ex(1) [of ?m] obtain po' where
    po': "FreeDescriptors ?ds ?po1 = Inr po'" "pool_inv po' U" "same_shape ?po1 po'"
      "\<forall>y \<in># U. desc_heap po' y = desc_heap ?po1 y" "?ds \<noteq> [] \<longrightarrow> free_list (partition_table po' ! p) \<noteq> 0"
    by auto
  have "refill_round p po = Inr po'" using po'(1) by (simp add: refill_round_def scav Let_def)
  moreover have "kept U po po'"
    by (rule kept_trans [OF kept_set_part same_shape_kept [OF po'(3,4)]])
  moreover have "?ds \<noteq> []" if "\<exists>it \<in> set (items ?g). reclaimable ?m it"
    using that by (auto simp: filter_empty_conv)
  ultimately show thesis using that po'(2,5) by blast
qed

lemma refill_ok:
  assumes "pool_inv po U" and "p < length (partition_table po)" and "refill n p po = Some r"
  shows "\<exists>po'. r = Inr po' \<and> pool_inv po' U \<and> kept U po po' \<and> free_list (partition_table po' ! p) \<noteq> 0"
  using assms
proof (induction n arbitrary: po)
  case (Suc n)
  show ?case
  proof (cases "free_list (partition_table po ! p) = 0")
    case True
    obtain po1 where 1: "refill_round p po = Inr po1" "pool_inv po1 U" "kept U po po1"
      by (rule refill_round_ok [OF Suc.prems(1,2)])
    then have "refill n p po1 = Some r" using Suc.prems(3) True by (simp only: refill_Suc) simp
    then show ?thesis using Suc.IH [OF 1(2)] Suc.prems(2) 1(3) kept_trans [OF 1(3)] by (auto simp: kept_def)
  next
    case False
    then show ?thesis using Suc.prems by (simp only: refill_Suc) auto
  qed
qed simp

lemma thread_partition_ok:
  assumes "pool_inv po U" and "thread_partition tid po = (p, po1)"
  shows "pool_inv po1 U" "p < length (partition_table po1)" "\<forall>x. desc_heap po1 x = desc_heap po x"
    "desc_base po1 = desc_base po" "pool_size po1 = pool_size po"
proof -
  have parts: "parts_ok po" using assms(1) by (simp add: pool_inv_def)
  have "unat (next_partition po mod partition_count po) < unat (partition_count po)"
    using parts by (intro unat_mono) (auto simp: parts_ok_def word_gt_0 intro!: word_mod_less_divisor)
  then have "unat (next_partition po mod partition_count po) < length (partition_table po)"
    using parts by (simp add: parts_ok_def)
  then show "pool_inv po1 U" "p < length (partition_table po1)" "\<forall>x. desc_heap po1 x = desc_heap po x"
    "desc_base po1 = desc_base po" "pool_size po1 = pool_size po"
    using assms parts
    by (auto simp: thread_partition_def Let_def pool_inv_def free_ok_def parts_ok_def descs_of_def
        split: option.splits if_splits)
qed

text \<open>The first descriptor of a free list is taken into use.\<close>

lemma free_pop:
  assumes inv: "pool_inv po U" and p: "p < length (partition_table po)"
    and x: "x = free_list (partition_table po ! p)" "x \<noteq> 0"
  shows "pool_inv (set_part p (\<lambda>q. q\<lparr>free_list := next_ptr (desc_heap po x)\<rparr>) po) (add_mset x U)"
    "x \<notin># U" "x \<in> set (descs_of po)" "idle_desc p (desc_heap po x)"
proof -
  obtain F where F: "free_ok po F" "area_ok (desc_base po) (unat (pool_size po))" "parts_ok po"
    "\<forall>x \<in># U. owner_partition (desc_heap po x) < length (partition_table po)"
    "sum_list (map mset F) + sum_list (map (held \<circ> garbage) (partition_table po)) + U = mset (descs_of po)"
    by (rule pool_invE [OF inv])
  note ok = free_okD [OF F(1) p]
  obtain xs where xs: "F ! p = x # xs" using ok(2) x by (cases "F ! p") auto
  show idle: "idle_desc p (desc_heap po x)" using ok(3) xs by simp
  let ?F = "F[p := xs]" and ?tab = "partition_table po"
  let ?po' = "set_part p (\<lambda>q. q\<lparr>free_list := next_ptr (desc_heap po x)\<rparr>) po"
  have "sum_list (map mset ?F) + mset (x # xs) = sum_list (map mset F) + mset xs"
    using sum_list_update_mset [of p F mset xs] ok(1) p xs by simp
  then have F': "sum_list (map mset F) = sum_list (map mset ?F) + {#x#}" by simp
  have G': "sum_list (map (held \<circ> garbage) (partition_table ?po')) = sum_list (map (held \<circ> garbage) ?tab)"
    using sum_list_update_mset [OF p, of "held \<circ> garbage" "(?tab ! p)\<lparr>free_list := next_ptr (desc_heap po x)\<rparr>"]
    by (simp add: set_part_def)
  have tot: "sum_list (map mset ?F) + sum_list (map (held \<circ> garbage) ?tab) + add_mset x U = mset (descs_of po)"
    using F(5) unfolding F' by (simp add: ac_simps)
  then show "x \<notin># U" "x \<in> set (descs_of po)" using total_distinct [OF tot F(2), of x] by auto
  have "free_ok ?po' ?F"
    using F(1) ok(2) xs p by (auto simp: free_ok_def set_part_def nth_list_update)
  moreover have "parts_ok ?po'" using F(3) p by (auto simp: parts_ok_def set_part_def nth_list_update)
  moreover have "owner_partition (desc_heap po x) = p" using idle by (simp add: idle_desc_def)
  ultimately show "pool_inv ?po' (add_mset x U)"
    using F(2,4) tot p unfolding pool_inv_def G' by (auto simp: set_part_def descs_of_def)
qed

lemma AllocateDescriptor_ok:
  assumes inv: "pool_inv po U" and run: "AllocateDescriptor fuel tid ac fc po = Some r"
  obtains x p po' where "r = Inr (x, po')" "x \<notin># U" "x \<in> set (descs_of po)" "pool_inv po' (add_mset x U)"
    "idle_desc p (desc_heap po' x)" "\<forall>y \<in># U. desc_heap po' y = desc_heap po y"
    "desc_base po' = desc_base po" "pool_size po' = pool_size po"
proof -
  obtain p po1 where tp: "thread_partition tid po = (p, po1)" by (cases "thread_partition tid po")
  note t1 = thread_partition_ok [OF inv tp]
  obtain r2 where r2: "refill fuel p po1 = Some r2"
    using run by (auto simp: AllocateDescriptor_def AllocateBaseDescriptor_def tp)
  obtain po2 where 2: "r2 = Inr po2" "pool_inv po2 U" "kept U po1 po2" "free_list (partition_table po2 ! p) \<noteq> 0"
    using refill_ok [OF t1(1,2) r2] by blast
  define x where "x = free_list (partition_table po2 ! p)"
  have plt: "p < length (partition_table po2)" using 2(3) t1(2) by (simp add: kept_def)
  note pop = free_pop [OF 2(2) plt x_def 2(4) [folded x_def]]
  let ?po3 = "set_part p (\<lambda>q. q\<lparr>free_list := next_ptr (desc_heap po2 x)\<rparr>) po2"
  let ?d = "(desc_heap po2 x)\<lparr>allocate_callback := (case ac of None \<Rightarrow> DefaultCallback | Some c \<Rightarrow> c),
      free_callback := (case fc of None \<Rightarrow> DefaultCallback | Some c \<Rightarrow> c)\<rparr>"
  let ?po' = "?po3\<lparr>desc_heap := (desc_heap ?po3)(x := ?d)\<rparr>"
  have "pool_inv ?po' (add_mset x U)" by (rule pool_inv_write [OF pop(1)]) simp_all
  moreover have "r = Inr (x, ?po')"
    using run by (simp add: AllocateDescriptor_def AllocateBaseDescriptor_def tp r2 2(1) Let_def x_def)
  moreover have "idle_desc p (desc_heap ?po' x)"
    using pop(4) by (simp add: idle_desc_def wf_entries_def entries_def)
  moreover have "\<forall>y \<in># U. desc_heap ?po' y = desc_heap po y"
    using pop(2) 2(3) t1(3) by (auto simp: kept_def)
  moreover have "x \<in> set (descs_of po)" "desc_base ?po' = desc_base po" "pool_size ?po' = pool_size po"
    using pop(3) 2(3) t1(4,5) by (simp_all add: kept_def descs_of_def set_part_def)
  ultimately show thesis using that [of x ?po' p] pop(2) by blast
qed

section \<open>Completion\<close>

definition stamp_ok :: "pool_state \<Rightarrow> bool" where
  "stamp_ok po \<longleftrightarrow> current_epoch (epoch po) \<noteq> 0 \<and> current_epoch (epoch po) \<noteq> invalid_epoch"

lemma doCleanup_ok:
  assumes inv: "pool_inv po (add_mset x U)" and rec: "recyclable (desc_heap po x)" and stamp: "stamp_ok po"
    and run: "doCleanup fuel x po = Some r"
  obtains po' where "r = Inr po'" "pool_inv po' U" "kept (add_mset x U) po po'"
proof -
  let ?p = "owner_partition (desc_heap po x)"
  let ?g = "garbage (partition_table po ! ?p)" and ?new = "make_item (epoch po) x kFreeDescriptor 0"
  have p: "?p < length (partition_table po)" using inv by (auto simp: pool_inv_def)
  have ok: "list_ok ?g" using inv p by (simp add: pool_inv_def parts_ok_def)
  obtain r1 where r1: "push_loop push_try_unsafe fuel ?g ?new (epoch po) (etable po) = Some r1"
    using run by (auto simp: doCleanup_def GarbageListUnsafe_Push_def Let_def)
  obtain ds g m i where 1: "r1 = Inr (ds, g, m)" "i < length (items ?g)" "items g = (items ?g)[i := ?new]"
    using push_loop_effect [OF bodies_at(1) ok r1] by blast
  let ?ds = "map (\<lambda>(_, _, obj). obj) ds" and ?po1 = "set_part ?p (\<lambda>q. q\<lparr>garbage := g\<rparr>) (po\<lparr>epoch := m\<rparr>)"
  have ne: "GetCurrentEpoch (epoch po) \<noteq> 0" "GetCurrentEpoch (epoch po) \<noteq> invalid_epoch"
    using stamp by (simp_all add: stamp_ok_def GetCurrentEpoch_def)
  have "push_object push_try_unsafe fuel kFreeDescriptor 0 x (?g, epoch po, etable po) = Some (?ds, g, m, etable po)"
    using ne r1 1(1) by (simp add: push_object_def)
  from gu.push_conserves [OF _ this] ok
  have g: "list_ok g" "held g + mset ?ds = held ?g + {#x#}" by simp_all
  have inv0: "pool_inv po ({#x#} + U)" using inv by simp
  note ex = garbage_exchange [OF inv0 p g, simplified]
  have rec1: "\<forall>y \<in> set ?ds. recyclable (desc_heap ?po1 y) \<and> owner_partition (desc_heap ?po1 y) = ?p"
    using ex(2) rec by (auto simp: set_part_def)
  have inv1: "pool_inv ?po1 (mset ?ds + U)" using ex(1) [of m] rec by simp
  obtain po' where
    po': "FreeDescriptors ?ds ?po1 = Inr po'" "pool_inv po' U" "same_shape ?po1 po'"
      "\<forall>y \<in># U. desc_heap po' y = desc_heap ?po1 y" "\<forall>y. y \<notin> set ?ds \<longrightarrow> desc_heap po' y = desc_heap ?po1 y"
    using FreeDescriptors_ok [OF inv1 rec1] by blast
  have xg: "x \<in># held g"
  proof -
    have "?new \<in> set (items g)" using 1(2,3) set_update_memI by metis
    moreover have "removal_epoch ?new \<noteq> 0" "removed_item ?new = x"
      using ne(1) by (simp_all add: make_item_def)
    ultimately show ?thesis by (force simp: held_def)
  qed
  have "x \<notin> set ?ds"
  proof
    assume x: "x \<in> set ?ds"
    obtain F where F: "area_ok (desc_base ?po1) (unat (pool_size ?po1))"
      "sum_list (map mset F) + sum_list (map (held \<circ> garbage) (partition_table ?po1)) + (mset ?ds + U) = mset (descs_of ?po1)"
      by (rule pool_invE [OF inv1])
    have "x \<in># sum_list (map (held \<circ> garbage) (partition_table ?po1))"
      using p xg by (intro in_sum_list_mset [of ?p]) (simp_all add: set_part_def)
    moreover have "x \<in># mset ?ds + U" using x by (metis set_mset_mset union_iff)
    ultimately show False using total_distinct(2) [OF F(2,1)] by blast
  qed
  then have "\<forall>y \<in># add_mset x U. desc_heap po' y = desc_heap po y"
    using po'(4,5) by (auto simp: set_part_def)
  then have "kept (add_mset x U) po po'"
    using po'(3) by (simp add: kept_def same_shape_def set_part_def)
  moreover have "r = Inr po'"
    using run r1 1(1) po'(1) by (simp add: doCleanup_def GarbageListUnsafe_Push_def Let_def)
  ultimately show thesis using that po'(2) by blast
qed

text \<open>Which descriptors can be recycled without a failed check.\<close>

definition valid_policies :: "descriptor \<Rightarrow> bool" where
  "valid_policies d \<longleftrightarrow> list_all (\<lambda>w. recycle_policy w \<in>
     {kRecycleOnRecovery, kRecycleNever, kRecycleAlways, kRecycleOldOnSuccess, kRecycleNewOnFailure}) (entries d)"

lemma dealloc_words_ok:
  assumes "s = kStatusSucceeded \<or> s = kStatusFailed \<or> s = kStatusFinished"
    and "list_all (\<lambda>w. recycle_policy w \<in>
     {kRecycleOnRecovery, kRecycleNever, kRecycleAlways, kRecycleOldOnSuccess, kRecycleNewOnFailure}) ws"
  shows "\<exists>fr. dealloc_words s ws = Inr fr"
  using assms(2)
proof (induction ws)
  case (Cons w ws)
  have "\<exists>fr. dealloc_word s w = Inr fr"
    using Cons.prems assms(1) by (auto simp: dealloc_word_def recycle_defs)
  then show ?case using Cons by auto
qed simp

lemma recyclable_finished:
  assumes "status d = kStatusSucceeded \<or> status d = kStatusFailed \<or> status d = kStatusFinished" and "valid_policies d"
  shows "recyclable d"
  using dealloc_words_ok [OF assms(1), of "entries d"] assms(2)
  by (auto simp: recyclable_def DeallocateMemory_def valid_policies_def entries_def)

section \<open>A pool as its clients see it\<close>

text \<open>
  \<open>inv s U\<close>: the pool is in order and \<open>U\<close> are the objects in use. A client takes objects, changes
  them (\<open>d\<close> is the content it leaves behind) and gives them back.
\<close>

fun pool_run :: "('s \<Rightarrow> (u64 \<times> 's) option) \<Rightarrow> (descriptor \<Rightarrow> u64 \<Rightarrow> 's \<Rightarrow> 's option) \<Rightarrow>
    (descriptor \<times> u64) option list \<Rightarrow> 's \<Rightarrow> u64 list \<Rightarrow> ('s \<times> u64 list) option" where
  "pool_run tk gv [] s L = Some (s, L)"
| "pool_run tk gv (None # ops) s L =
     (case tk s of None \<Rightarrow> None | Some (x, s') \<Rightarrow> pool_run tk gv ops s' (x # L))"
| "pool_run tk gv (Some (d, x) # ops) s L =
     (if x \<in> set L then case gv d x s of None \<Rightarrow> None | Some s' \<Rightarrow> pool_run tk gv ops s' (remove1 x L)
      else None)"

locale object_pool =
  fixes inv :: "'s \<Rightarrow> u64 multiset \<Rightarrow> bool" and tk :: "'s \<Rightarrow> (u64 \<times> 's) option"
    and gv :: "descriptor \<Rightarrow> u64 \<Rightarrow> 's \<Rightarrow> 's option"
  assumes tk_fresh: "inv s U \<Longrightarrow> tk s = Some (x, s') \<Longrightarrow> x \<notin># U \<and> inv s' (add_mset x U)"
    and gv_back: "inv s (add_mset x U) \<Longrightarrow> gv d x s = Some s' \<Longrightarrow> inv s' U"
begin

lemma run_distinct:
  "inv s (mset L) \<Longrightarrow> distinct L \<Longrightarrow> pool_run tk gv ops s L = Some (s', L') \<Longrightarrow>
   inv s' (mset L') \<and> distinct L'"
proof (induction ops arbitrary: s L)
  case (Cons op ops)
  show ?case
  proof (cases op)
    case None
    then obtain x s1 where "tk s = Some (x, s1)" "pool_run tk gv ops s1 (x # L) = Some (s', L')"
      using Cons.prems(3) by (auto split: option.splits)
    moreover from this(1) have "x \<notin># mset L" "inv s1 (add_mset x (mset L))" using tk_fresh Cons.prems(1) by blast+
    ultimately show ?thesis using Cons.IH [of s1 "x # L"] Cons.prems(2) by auto
  next
    case (Some dx)
    then obtain d x s1 where g: "gv d x s = Some s1" "x \<in> set L" "pool_run tk gv ops s1 (remove1 x L) = Some (s', L')"
      using Cons.prems(3) by (cases dx) (auto split: option.splits if_splits)
    have "mset L = add_mset x (mset (remove1 x L))" using g(2) by simp
    then have "inv s1 (mset (remove1 x L))" using gv_back [OF _ g(1)] Cons.prems(1) by metis
    then show ?thesis using Cons.IH [OF _ _ g(3)] Cons.prems(2) by simp
  qed
qed simp

end

definition take_op :: "nat \<Rightarrow> u64 \<Rightarrow> pool_state \<Rightarrow> (u64 \<times> pool_state) option" where
  "take_op fuel tid po =
     (case AllocateDescriptor fuel tid None None po of Some (Inr r) \<Rightarrow> Some r | _ \<Rightarrow> None)"

text \<open>The client leaves the content \<open>d\<close> in the descriptor (the partition is not its business) and finishes.\<close>

definition give_op :: "nat \<Rightarrow> descriptor \<Rightarrow> u64 \<Rightarrow> pool_state \<Rightarrow> pool_state option" where
  "give_op fuel d x po =
     (let d' = d\<lparr>owner_partition := owner_partition (desc_heap po x)\<rparr> in
      if valid_policies d' \<and> stamp_ok po then
        (case Descriptor_Cleanup fuel x (po\<lparr>desc_heap := (desc_heap po)(x := d')\<rparr>) of
           Some (Inr (_, po')) \<Rightarrow> Some po' | _ \<Rightarrow> None)
      else None)"

lemma Descriptor_Cleanup_ok:
  assumes inv: "pool_inv po (add_mset x U)" and pol: "valid_policies (desc_heap po x)" and stamp: "stamp_ok po"
    and s: "status (desc_heap po x) = kStatusSucceeded \<or> status (desc_heap po x) = kStatusFailed"
    and run: "Descriptor_Cleanup fuel x po = Some r"
  obtains po' where "r = Inr (status (desc_heap po x) = kStatusSucceeded, po')" "pool_inv po' U"
    "kept (add_mset x U) po po'"
proof -
  have rec: "recyclable (desc_heap po x)" using s pol by (intro recyclable_finished) auto
  have nd: "status (desc_heap po x) AND kStatusDirtyFlag = 0"
    using s by (auto simp: status_defs kStatusDirtyFlag_def)
  obtain r1 where r1: "doCleanup fuel x po = Some r1"
    using run s nd by (auto simp: Descriptor_Cleanup_def Let_def split: if_splits)
  obtain po' where po': "r1 = Inr po'" "pool_inv po' U" "kept (add_mset x U) po po'"
    by (rule doCleanup_ok [OF inv rec stamp r1])
  then have "r = Inr (status (desc_heap po x) = kStatusSucceeded, po')"
    using run s nd r1 by (auto simp: Descriptor_Cleanup_def Let_def kept_def)
  then show thesis using that po' by blast
qed

interpretation dp: object_pool pool_inv "take_op fuel tid" "give_op fuel" for fuel tid
proof
  fix po U x po'
  assume inv: "pool_inv po U" and "take_op fuel tid po = Some (x, po')"
  then obtain r where r: "AllocateDescriptor fuel tid None None po = Some r" "r = Inr (x, po')"
    by (auto simp: take_op_def split: option.splits sum.splits)
  show "x \<notin># U \<and> pool_inv po' (add_mset x U)"
    by (rule AllocateDescriptor_ok [OF inv r(1)]) (use r(2) in auto)
next
  fix po x U d po'
  assume inv: "pool_inv po (add_mset x U)" and "give_op fuel d x po = Some po'"
  moreover define d' where "d' = d\<lparr>owner_partition := owner_partition (desc_heap po x)\<rparr>"
  ultimately obtain b where d': "valid_policies d'" "stamp_ok po"
    and run: "Descriptor_Cleanup fuel x (po\<lparr>desc_heap := (desc_heap po)(x := d')\<rparr>) = Some (Inr (b, po'))"
    by (auto simp: give_op_def Let_def split: if_splits option.splits sum.splits prod.splits)
  let ?po = "po\<lparr>desc_heap := (desc_heap po)(x := d')\<rparr>"
  have "pool_inv ?po (add_mset x U)" by (rule pool_inv_write [OF inv]) (simp_all add: d'_def)
  moreover have "status (desc_heap ?po x) = kStatusSucceeded \<or> status (desc_heap ?po x) = kStatusFailed"
    using run by (auto simp: Descriptor_Cleanup_def Let_def split: if_splits)
  ultimately show "pool_inv po' U"
    using d' by (elim Descriptor_Cleanup_ok [OF _ _ _ _ run]) (auto simp: stamp_ok_def)
qed

section \<open>Properties\<close>

text \<open>
  C21: Rounding of the parameters. A requested pool size of at most \<open>2 ^ 31\<close> becomes the smallest power of
  two that is not smaller, after at most 32 rounds; for a larger request the 32-bit size wraps to 0
  and the loop never ends. The number of partitions becomes the smallest power of two that is not
  smaller than the request, but at most 512.
\<close>

theorem pool_rounding:
  "(requested \<le> 2 ^ 31 \<longrightarrow> (\<exists>a \<le> 31. round_pool_size 32 requested 1 = Some (2 ^ a) \<and> requested \<le> 2 ^ a \<and>
      (a = 0 \<or> 2 ^ (a - 1) < requested))) \<and>
   (2 ^ 31 < requested \<longrightarrow> (\<forall>fuel. round_pool_size fuel requested 1 = None)) \<and>
   (\<exists>b \<le> 9. round_partition_count [1..<10] parts 1 = 2 ^ b \<and> (parts \<le> 2 ^ b \<or> b = 9) \<and>
      (b = 0 \<or> 2 ^ (b - 1) < parts))"
proof (intro conjI impI allI)
  show "\<exists>a \<le> 31. round_pool_size 32 requested 1 = Some (2 ^ a) \<and> requested \<le> 2 ^ a \<and>
      (a = 0 \<or> 2 ^ (a - 1) < requested)" if "requested \<le> 2 ^ 31"
    using round_pool_size_spec [of requested 0 32] that by simp
  show "round_pool_size fuel requested 1 = None" if "2 ^ 31 < requested" for fuel
    using round_pool_size_loops [of requested fuel 0] that by simp
  show "\<exists>b \<le> 9. round_partition_count [1..<10] parts 1 = 2 ^ b \<and> (parts \<le> 2 ^ b \<or> b = 9) \<and>
      (b = 0 \<or> 2 ^ (b - 1) < parts)"
    using round_partition_count_spec [of 0 parts "[1..<10]"] by auto
qed

theorem pool_rounding_witness:
  "(5 :: u32) \<le> 2 ^ 31 \<and> (\<exists>a \<le> 31. round_pool_size 32 5 1 = Some (2 ^ a)) \<and>
   2 ^ 31 < (3000000000 :: u32) \<and> round_pool_size 100 3000000000 1 = None"
proof -
  have a: "(5 :: u32) \<le> 2 ^ 31" "2 ^ 31 < (3000000000 :: u32)" by simp_all
  then show ?thesis using pool_rounding [of 5 1] pool_rounding [of 3000000000 1] by blast
qed


definition sample_metadata :: metadata where
  "sample_metadata = \<lparr>descriptor_count = 0, initial_address = 0\<rparr>"



text \<open>
  C19: What allocation hands out. A call of \<open>AllocateDescriptor\<close> that returns raises no check; it returns a
  descriptor of the pool that nobody uses, in the status \<open>kStatusFinished\<close> and without entries, and
  leaves the descriptors in use as they are. It returns at once when the free list of the thread's
  partition has a descriptor, and after one round of the loop when advancing the epoch makes an
  item of the garbage list safe.
\<close>

theorem allocate_ready:
  assumes "pool_inv po U"
  shows "(AllocateDescriptor fuel tid ac fc po = Some r \<longrightarrow> (\<exists>x po'. r = Inr (x, po') \<and> x \<notin># U \<and>
      x \<in> set (descs_of po) \<and> status (desc_heap po' x) = kStatusFinished \<and> entries (desc_heap po' x) = [] \<and>
      wf_entries (desc_heap po' x) \<and> (\<forall>y \<in># U. desc_heap po' y = desc_heap po y) \<and> pool_inv po' (add_mset x U))) \<and>
    (2 \<le> fuel \<longrightarrow> tls_part po tid = Some p \<longrightarrow>
      free_list (partition_table po ! p) \<noteq> 0 \<or> (\<exists>it \<in> set (items (garbage (partition_table po ! p))).
        reclaimable (BumpCurrentEpoch (epoch po) (etable po)) it) \<longrightarrow>
      AllocateDescriptor fuel tid ac fc po \<noteq> None)"
proof (intro conjI impI)
  assume run: "AllocateDescriptor fuel tid ac fc po = Some r"
  show "\<exists>x po'. r = Inr (x, po') \<and> x \<notin># U \<and> x \<in> set (descs_of po) \<and>
      status (desc_heap po' x) = kStatusFinished \<and> entries (desc_heap po' x) = [] \<and>
      wf_entries (desc_heap po' x) \<and> (\<forall>y \<in># U. desc_heap po' y = desc_heap po y) \<and> pool_inv po' (add_mset x U)"
    by (rule AllocateDescriptor_ok [OF assms run]) (auto simp: idle_desc_def entries_def)
next
  assume fuel: "2 \<le> fuel" and tp: "tls_part po tid = Some p"
    and or: "free_list (partition_table po ! p) \<noteq> 0 \<or> (\<exists>it \<in> set (items (garbage (partition_table po ! p))).
        reclaimable (BumpCurrentEpoch (epoch po) (etable po)) it)"
  have p: "p < length (partition_table po)" using assms tp by (auto simp: pool_inv_def parts_ok_def)
  obtain n where n: "fuel = Suc (Suc n)" using fuel by (metis Suc_le_D numeral_2_eq_2 Suc_le_mono)
  obtain po' where po': "refill_round p po = Inr po'"
    "(\<exists>it \<in> set (items (garbage (partition_table po ! p))).
        reclaimable (BumpCurrentEpoch (epoch po) (etable po)) it) \<longrightarrow> free_list (partition_table po' ! p) \<noteq> 0"
    by (rule refill_round_ok [OF assms p])
  then have "\<exists>r. refill fuel p po = Some r" using or unfolding n refill_Suc by auto
  then show "AllocateDescriptor fuel tid ac fc po \<noteq> None"
    by (auto simp: AllocateDescriptor_def AllocateBaseDescriptor_def thread_partition_def tp)
qed

text \<open>
  The end of an operation. When the owner cleans up after a decided operation with valid recycle
  policies, no check fires; the call returns whether the operation succeeded, the descriptor is no
  longer in use, and its content stays as it is until the garbage list recycles it. Other
  descriptors in use are not touched. The same holds for aborting a descriptor that was not used.
\<close>

theorem cleanup_outcome:
  assumes "pool_inv po (add_mset x U)" and "valid_policies (desc_heap po x)" and "stamp_ok po"
  shows "((status (desc_heap po x) = kStatusSucceeded \<or> status (desc_heap po x) = kStatusFailed) \<longrightarrow>
      Descriptor_Cleanup fuel x po = Some r \<longrightarrow>
      (\<exists>po'. r = Inr (status (desc_heap po x) = kStatusSucceeded, po') \<and> pool_inv po' U \<and>
         (\<forall>y \<in># add_mset x U. desc_heap po' y = desc_heap po y))) \<and>
    (status (desc_heap po x) = kStatusFinished \<longrightarrow> Descriptor_Abort fuel x po = Some r' \<longrightarrow>
      (\<exists>po'. r' = Inr po' \<and> pool_inv po' U \<and> status (desc_heap po' x) = kStatusFailed \<and>
         (\<forall>y \<in># U. y \<noteq> x \<longrightarrow> desc_heap po' y = desc_heap po y)))"
proof (rule conjI)
  show "(status (desc_heap po x) = kStatusSucceeded \<or> status (desc_heap po x) = kStatusFailed) \<longrightarrow>
      Descriptor_Cleanup fuel x po = Some r \<longrightarrow>
      (\<exists>po'. r = Inr (status (desc_heap po x) = kStatusSucceeded, po') \<and> pool_inv po' U \<and>
         (\<forall>y \<in># add_mset x U. desc_heap po' y = desc_heap po y))"
    using Descriptor_Cleanup_ok [OF assms] by (fastforce simp: kept_def)
  show "status (desc_heap po x) = kStatusFinished \<longrightarrow> Descriptor_Abort fuel x po = Some r' \<longrightarrow>
      (\<exists>po'. r' = Inr po' \<and> pool_inv po' U \<and> status (desc_heap po' x) = kStatusFailed \<and>
         (\<forall>y \<in># U. y \<noteq> x \<longrightarrow> desc_heap po' y = desc_heap po y))"
  proof (intro impI)
    assume s: "status (desc_heap po x) = kStatusFinished" and run: "Descriptor_Abort fuel x po = Some r'"
    let ?d = "(desc_heap po x)\<lparr>status := kStatusFailed\<rparr>"
    let ?po = "po\<lparr>desc_heap := (desc_heap po)(x := ?d)\<rparr>"
    have inv: "pool_inv ?po (add_mset x U)" by (rule pool_inv_write [OF assms(1)]) simp_all
    have rec: "recyclable (desc_heap ?po x)"
      using assms(2) by (intro recyclable_finished) (simp_all add: valid_policies_def entries_def)
    have stamp: "stamp_ok ?po" using assms(3) by (simp add: stamp_ok_def)
    have "doCleanup fuel x ?po = Some r'" using run s by (simp add: Descriptor_Abort_def)
    then obtain po' where "r' = Inr po'" "pool_inv po' U" "kept (add_mset x U) ?po po'"
      by (rule doCleanup_ok [OF inv rec stamp])
    then show "\<exists>po'. r' = Inr po' \<and> pool_inv po' U \<and> status (desc_heap po' x) = kStatusFailed \<and>
         (\<forall>y \<in># U. y \<noteq> x \<longrightarrow> desc_heap po' y = desc_heap po y)"
      by (auto simp: kept_def)
  qed
qed

section \<open>A small pool\<close>

text \<open>Two descriptors at address 4096 in one partition with a garbage list of four slots.\<close>

definition small_pool0 :: pool_state where
  "small_pool0 = \<lparr>pool_size = 2, partition_count = 1, partition_table = [\<lparr>free_list = 0, garbage = sample_list\<rparr>],
     next_partition = 0, epoch = sample_manager, estore = sample_store, desc_base = 4096,
     desc_heap = (\<lambda>_. zero_descriptor), tls_part = (\<lambda>_. None), freed = []\<rparr>"

definition small_pool :: pool_state where
  "small_pool = (case distribute small_pool0 of Inr po \<Rightarrow> po | Inl _ \<Rightarrow> small_pool0)"

lemma small_pool_inv: "pool_inv small_pool {#}"
proof -
  have area: "area_ok 4096 2" by (simp add: area_ok_def)
  have e: "filter (\<lambda>it. removal_epoch it \<noteq> 0) (items sample_list) = []" by code_simp
  obtain part po where po: "distribute small_pool0 = Inr po" "placed small_pool0 (2 ^ (1 - 0)) (2 ^ 1) (part, po)"
    by (rule distribute_placed [of small_pool0 1 0]) (use area in \<open>simp_all add: small_pool0_def\<close>)
  have "pool_inv po {#}"
    by (rule placed_pool_inv [OF po(2)])
      (use area sample_list_ok e in \<open>simp_all add: small_pool0_def held_def\<close>)
  then show ?thesis by (simp add: small_pool_def po(1))
qed

definition finished_desc :: descriptor where
  "finished_desc = zero_descriptor\<lparr>status := kStatusSucceeded\<rparr>"


theorem allocate_ready_witness:
  "\<exists>x po'. AllocateDescriptor 3 7 None None small_pool = Some (Inr (x, po')) \<and>
     x \<in> set (descs_of small_pool) \<and> status (desc_heap po' x) = kStatusFinished"
proof -
  have "AllocateDescriptor 3 7 None None small_pool \<noteq> None" by code_simp
  then obtain r where r: "AllocateDescriptor 3 7 None None small_pool = Some r" by auto
  then show ?thesis using allocate_ready [OF small_pool_inv, of 3 7 None None r 0] by auto
qed

theorem cleanup_outcome_witness:
  "\<exists>x po po'. AllocateDescriptor 3 7 None None small_pool = Some (Inr (x, po)) \<and>
     Descriptor_Abort 5 x po = Some (Inr po') \<and> pool_inv po' {#}"
proof -
  have some: "AllocateDescriptor 3 7 None None small_pool \<noteq> None" by code_simp
  then obtain r where run: "AllocateDescriptor 3 7 None None small_pool = Some r" by auto
  obtain x p po where a: "r = Inr (x, po)" "pool_inv po (add_mset x {#})" "idle_desc p (desc_heap po x)"
    by (rule AllocateDescriptor_ok [OF small_pool_inv run])
  have "map_option (map_sum id (\<lambda>(x, po). stamp_ok po \<and> Descriptor_Abort 5 x po \<noteq> None))
      (AllocateDescriptor 3 7 None None small_pool) = Some (Inr True)" by code_simp
  then have s: "stamp_ok po" "Descriptor_Abort 5 x po \<noteq> None" by (simp_all add: run a(1))
  then obtain r' where r': "Descriptor_Abort 5 x po = Some r'" by auto
  have "valid_policies (desc_heap po x)" "status (desc_heap po x) = kStatusFinished"
    using a(3) by (simp_all add: valid_policies_def idle_desc_def entries_def)
  then show ?thesis using cleanup_outcome [OF a(2) _ s(1), of 5 "Inl []" r'] r' run a(1) by auto
qed

end
