(* ===== verification/Epoch_Machine.thy ===== *)
theory Epoch_Machine
  imports Epoch
begin

text \<open>
  The epoch protocol under concurrency. Each thread owns one entry of the table (thread \<open>t\<close> the entry
  \<open>t\<close>). \<open>Protect\<close> is a load of the global epoch followed, possibly much later, by the store into the
  entry; \<open>BumpCurrentEpoch\<close> is a \<open>fetch_add\<close>, a scan that reads one entry at a time, and a store
  of the result; \<open>retire\<close> is the stamp that a garbage list puts on a removed item. These accesses
  interleave freely. \<open>Inside k\<close> records how many items had been stamped when the thread entered,
  so the items it may still hold are those with a number of at least \<open>k\<close>.
\<close>

datatype region = Outside | Loaded u64 | Inside nat

datatype bump_pc = NoBump | Scanning u64 nat

record emach =
  cur :: u64
  safe :: u64
  ents :: "entry list"
  region :: "nat \<Rightarrow> region"
  bump :: "nat \<Rightarrow> bump_pc"
  retired :: "u64 list"

inductive estep :: "emach \<Rightarrow> emach \<Rightarrow> bool" where
  e_load: "region s t = Outside \<Longrightarrow> t < length (ents s) \<Longrightarrow>
     estep s (s\<lparr>region := (region s)(t := Loaded (cur s))\<rparr>)"
| e_store: "region s t = Loaded e \<Longrightarrow>
     estep s (s\<lparr>ents := (ents s)[t := (ents s ! t)\<lparr>last_unprotected_epoch := 0, protected_epoch := e\<rparr>],
                region := (region s)(t := Inside (length (retired s)))\<rparr>)"
| e_unprotect: "region s t = Inside k \<Longrightarrow>
     estep s (s\<lparr>ents := (ents s)[t := (ents s ! t)\<lparr>last_unprotected_epoch := cur s, protected_epoch := 0\<rparr>],
                region := (region s)(t := Outside)\<rparr>)"
| e_retire: "estep s (s\<lparr>retired := retired s @ [cur s]\<rparr>)"
| e_bump: "bump s t = NoBump \<Longrightarrow> cur s + 1 \<noteq> 0 \<Longrightarrow>
     estep s (s\<lparr>cur := cur s + 1, bump := (bump s)(t := Scanning (cur s) 0)\<rparr>)"
| e_scan: "bump s t = Scanning x i \<Longrightarrow> i < length (ents s) \<Longrightarrow>
     estep s (s\<lparr>bump := (bump s)(t := Scanning (scan_entry x (ents s ! i)) (Suc i))\<rparr>)"
| e_finish: "bump s t = Scanning x (length (ents s)) \<Longrightarrow>
     estep s (s\<lparr>safe := x - 1, bump := (bump s)(t := NoBump)\<rparr>)"

inductive_cases estepE: "estep s s'"

definition einit :: "emach \<Rightarrow> bool" where
  "einit s \<longleftrightarrow> cur s = 1 \<and> safe s = 0 \<and> (\<forall>e \<in> set (ents s). protected_epoch e = 0) \<and>
     (\<forall>t. region s t = Outside \<and> bump s t = NoBump) \<and> retired s = []"

section \<open>Invariant\<close>

definition region_inv :: "emach \<Rightarrow> bool" where
  "region_inv s \<longleftrightarrow> cur s \<noteq> 0 \<and> safe s < cur s \<and>
     (\<forall>t. case region s t of
        Outside \<Rightarrow> True
      | Loaded e \<Rightarrow> t < length (ents s) \<and> e \<noteq> 0 \<and> e \<le> cur s
      | Inside k \<Rightarrow> t < length (ents s) \<and> k \<le> length (retired s) \<and>
          protected_epoch (ents s ! t) \<noteq> 0 \<and> protected_epoch (ents s ! t) \<le> cur s) \<and>
     (\<forall>u x i. bump s u = Scanning x i \<longrightarrow> x \<noteq> 0 \<and> x < cur s)"

text \<open>An item that a protected thread may hold is stamped late enough.\<close>

definition held_inv :: "emach \<Rightarrow> bool" where
  "held_inv s \<longleftrightarrow> (\<forall>t k j. region s t = Inside k \<longrightarrow> k \<le> j \<longrightarrow> j < length (retired s) \<longrightarrow>
     protected_epoch (ents s ! t) \<le> retired s ! j \<and> safe s < retired s ! j \<and>
     (\<forall>u x i. bump s u = Scanning x i \<longrightarrow> t < i \<longrightarrow> x \<le> retired s ! j))"

definition emach_inv :: "emach \<Rightarrow> bool" where
  "emach_inv s \<longleftrightarrow> region_inv s \<and> held_inv s"

lemma region_invD:
  assumes "region_inv s"
  shows "cur s \<noteq> 0" "safe s < cur s"
    "region s t = Loaded e \<Longrightarrow> t < length (ents s) \<and> e \<noteq> 0 \<and> e \<le> cur s"
    "region s t = Inside k \<Longrightarrow> t < length (ents s) \<and> k \<le> length (retired s) \<and>
       protected_epoch (ents s ! t) \<noteq> 0 \<and> protected_epoch (ents s ! t) \<le> cur s"
    "bump s u = Scanning x i \<Longrightarrow> x \<noteq> 0 \<and> x < cur s"
proof -
  note r = assms [unfolded region_inv_def]
  show "cur s \<noteq> 0" "safe s < cur s" "bump s u = Scanning x i \<Longrightarrow> x \<noteq> 0 \<and> x < cur s" using r by blast+
  have "case region s t of Outside \<Rightarrow> True
      | Loaded e \<Rightarrow> t < length (ents s) \<and> e \<noteq> 0 \<and> e \<le> cur s
      | Inside k \<Rightarrow> t < length (ents s) \<and> k \<le> length (retired s) \<and>
          protected_epoch (ents s ! t) \<noteq> 0 \<and> protected_epoch (ents s ! t) \<le> cur s"
    using r by blast
  then show "region s t = Loaded e \<Longrightarrow> t < length (ents s) \<and> e \<noteq> 0 \<and> e \<le> cur s"
    "region s t = Inside k \<Longrightarrow> t < length (ents s) \<and> k \<le> length (retired s) \<and>
       protected_epoch (ents s ! t) \<noteq> 0 \<and> protected_epoch (ents s ! t) \<le> cur s"
    by simp_all
qed

lemma held_invD:
  assumes "held_inv s" and "region s t = Inside k" and "k \<le> j" and "j < length (retired s)"
  shows "protected_epoch (ents s ! t) \<le> retired s ! j" "safe s < retired s ! j"
    "bump s u = Scanning x i \<Longrightarrow> t < i \<Longrightarrow> x \<le> retired s ! j"
  using assms unfolding held_inv_def by blast+

lemma scan_entry_le: "scan_entry x e \<le> x" "protected_epoch e \<noteq> 0 \<Longrightarrow> scan_entry x e \<le> protected_epoch e"
  "x \<noteq> 0 \<Longrightarrow> scan_entry x e \<noteq> 0"
  by (auto simp: scan_entry_def)

lemma succ_gt: "c + 1 \<noteq> 0 \<Longrightarrow> c < c + 1" for c :: u64
  by (metis inc_less_eq_triv_imp linorder_not_less add_eq_0_iff2)

lemma einit_inv: "einit s \<Longrightarrow> emach_inv s"
  by (simp add: einit_def emach_inv_def region_inv_def held_inv_def)

lemma step_region_inv:
  assumes "estep s s'" and "region_inv s"
  shows "region_inv s'"
proof -
  have nz: "bump s u \<noteq> Scanning 0 i" for u i using region_invD(5) [OF assms(2)] by blast
  note inv = region_invD [OF assms(2)] nz
  from assms(1) show ?thesis
  proof cases
  case (e_bump t)
  have lt: "cur s < cur s + 1" by (rule succ_gt [OF e_bump(3)])
  then have up: "x \<le> cur s \<Longrightarrow> x \<le> cur s + 1" "x < cur s \<Longrightarrow> x < cur s + 1" for x
    by (auto intro: order_trans order.strict_trans)
  show ?thesis
    using inv e_bump lt unfolding region_inv_def
    by (auto split: region.splits intro!: up)
next
  case (e_scan t x i)
  have "scan_entry x (ents s ! i) \<noteq> 0 \<and> scan_entry x (ents s ! i) < cur s"
    using region_invD(5) [OF assms(2) e_scan(2)] scan_entry_le(1,3) [of x "ents s ! i"]
    by (auto intro: le_less_trans)
  then show ?thesis
    using inv e_scan unfolding region_inv_def
    by (auto split: region.splits)
next
  case (e_finish t x)
  have "x - 1 < cur s"
    using region_invD(5) [OF assms(2) e_finish(2)] less_eq_dec_iff [of "x - 1" x] by auto
  then show ?thesis
    using inv e_finish unfolding region_inv_def
    by (auto split: region.splits)
qed (use inv in \<open>auto simp: region_inv_def nth_list_update intro: le_SucI split: region.splits\<close>)
qed

lemma step_held_inv:
  assumes step: "estep s s'" and reg: "region_inv s" and held: "held_inv s"
  shows "held_inv s'"
  using step
proof cases
  case (e_store t e)
  have t: "t < length (ents s)" using region_invD(3) [OF reg e_store(2)] by simp
  show ?thesis
    using held_invD [OF held] e_store t unfolding held_inv_def
    by (auto simp: nth_list_update split: if_splits)
next
  case (e_unprotect t k)
  show ?thesis
    using held_invD [OF held] e_unprotect unfolding held_inv_def
    by (auto simp: nth_list_update split: if_splits)
next
  case e_retire
  show ?thesis
    using held_invD [OF held] region_invD(2,5) [OF reg] region_invD(4) [OF reg] e_retire
    unfolding held_inv_def by (auto simp: nth_append less_Suc_eq order.strict_implies_order)
next
  case (e_bump t)
  show ?thesis
    using held_invD [OF held] e_bump unfolding held_inv_def by auto
next
  case (e_scan t x i)
  have "scan_entry x (ents s ! i) \<le> retired s ! j"
    if "region s u = Inside k" "k \<le> j" "j < length (retired s)" "u < Suc i" for u k j
  proof (cases "u = i")
    case True
    then show ?thesis
      using held_invD(1) [OF held that(1-3)] region_invD(4) [OF reg that(1)]
        scan_entry_le(2) [of "ents s ! i" x] by (auto intro: order_trans)
  next
    case False
    then show ?thesis
      using held_invD(3) [OF held that(1-3) e_scan(2)] that(4) scan_entry_le(1) [of x "ents s ! i"]
      by (auto intro: order_trans)
  qed
  then show ?thesis
    using held_invD [OF held] e_scan unfolding held_inv_def by auto
next
  case (e_finish t x)
  have "x - 1 < retired s ! j"
    if "region s u = Inside k" "k \<le> j" "j < length (retired s)" for u k j
  proof -
    have "u < length (ents s)" using region_invD(4) [OF reg that(1)] by simp
    then have "x \<le> retired s ! j" using held_invD(3) [OF held that e_finish(2)] by simp
    moreover have "x - 1 < x" using region_invD(5) [OF reg e_finish(2)] less_eq_dec_iff [of "x - 1" x] by auto
    ultimately show ?thesis by simp
  qed
  then show ?thesis
    using held_invD [OF held] e_finish unfolding held_inv_def by auto
qed (use held_invD [OF held] in \<open>auto simp: held_inv_def split: if_splits\<close>)

interpretation ep: invariant_system einit estep emach_inv
proof
  show "einit s \<Longrightarrow> emach_inv s" for s by (rule einit_inv)
  show "emach_inv s \<Longrightarrow> estep s s' \<Longrightarrow> emach_inv s'" for s s'
    using step_region_inv step_held_inv unfolding emach_inv_def by blast
qed

section \<open>Properties\<close>

text \<open>
  C16: No premature reclamation. In every interleaving of threads that enter and leave the protected
  region, stamp removed items and advance the epoch, an item that was stamped while a thread was
  protected is not declared safe to reclaim as long as that thread stays protected, even though the
  epoch a thread announces may be stale and a scan may have passed its entry before it entered.
\<close>

theorem protected_items_not_reclaimed:
  assumes "reach einit estep s" and "region s t = Inside k" and "k \<le> j" and "j < length (retired s)"
  shows "\<not> IsSafeToReclaim \<lparr>current_epoch = cur s, safe_to_reclaim_epoch = safe s, epoch_table = Some 0\<rparr>
    (retired s ! j)"
proof -
  have "held_inv s" using ep.reach_inv [OF assms(1)] by (simp add: emach_inv_def)
  from held_invD(2) [OF this assms(2-4)] show ?thesis by (simp add: IsSafeToReclaim_def)
qed

definition epoch_sample :: emach where
  "epoch_sample = \<lparr>cur = 1, safe = 0, ents = [new_entry], region = (\<lambda>_. Outside),
     bump = (\<lambda>_. NoBump), retired = []\<rparr>"

theorem protected_items_not_reclaimed_witness:
  "\<exists>s. reach einit estep s \<and> region s 0 = Inside 0 \<and> retired s = [1] \<and>
     \<not> IsSafeToReclaim \<lparr>current_epoch = cur s, safe_to_reclaim_epoch = safe s, epoch_table = Some 0\<rparr> 1"
proof -
  have "einit epoch_sample" by (simp add: einit_def epoch_sample_def new_entry_def)
  then have r0: "reach einit estep epoch_sample" by (rule reach.reach_init)
  let ?s1 = "epoch_sample\<lparr>region := (region epoch_sample)(0 := Loaded (cur epoch_sample))\<rparr>"
  have "estep epoch_sample ?s1" by (rule e_load) (simp_all add: epoch_sample_def)
  with r0 have r1: "reach einit estep ?s1" by (rule reach.reach_step)
  let ?s2 = "?s1\<lparr>ents := (ents ?s1)[0 := (ents ?s1 ! 0)\<lparr>last_unprotected_epoch := 0, protected_epoch := 1\<rparr>],
      region := (region ?s1)(0 := Inside (length (retired ?s1)))\<rparr>"
  have "estep ?s1 ?s2" by (rule e_store) (simp add: epoch_sample_def)
  with r1 have r2: "reach einit estep ?s2" by (rule reach.reach_step)
  let ?s3 = "?s2\<lparr>retired := retired ?s2 @ [cur ?s2]\<rparr>"
  have "estep ?s2 ?s3" by (rule e_retire)
  with r2 have r3: "reach einit estep ?s3" by (rule reach.reach_step)
  have s3: "region ?s3 0 = Inside 0" "retired ?s3 = [1]" by (simp_all add: epoch_sample_def)
  show ?thesis
    using protected_items_not_reclaimed [OF r3 s3(1), of 0] r3 s3 by (intro exI [of _ ?s3]) simp
qed

lemma scan_run:
  assumes "bump s t = Scanning x i" and "i \<le> length (ents s)"
  shows "estep\<^sup>*\<^sup>* s (s\<lparr>bump := (bump s)(t := Scanning (foldl scan_entry x (drop i (ents s))) (length (ents s)))\<rparr>)"
  using assms
proof (induction "length (ents s) - i" arbitrary: s x i)
  case 0
  then have "i = length (ents s)" by simp
  then have "s\<lparr>bump := (bump s)(t := Scanning (foldl scan_entry x (drop i (ents s))) (length (ents s)))\<rparr> = s"
    using 0 by (simp add: fun_upd_idem)
  then show ?case by (metis rtranclp.rtrancl_refl)
next
  case (Suc n)
  then have i: "i < length (ents s)" by simp
  let ?s = "s\<lparr>bump := (bump s)(t := Scanning (scan_entry x (ents s ! i)) (Suc i))\<rparr>"
  have "estep s ?s" by (rule e_scan [OF Suc.prems(1) i])
  moreover have "estep\<^sup>*\<^sup>* ?s (?s\<lparr>bump := (bump ?s)(t := Scanning (foldl scan_entry (scan_entry x (ents s ! i))
      (drop (Suc i) (ents ?s))) (length (ents ?s)))\<rparr>)"
    using Suc.hyps(2) i by (intro Suc.hyps(1)) auto
  moreover have "drop i (ents s) = ents s ! i # drop (Suc i) (ents s)" by (rule Cons_nth_drop_Suc [symmetric, OF i])
  ultimately show ?case by (simp add: converse_rtranclp_into_rtranclp)
qed



end
