(* ===== verification/Fasas.thy ===== *)
theory Fasas
  imports Mwcas_Protocol
begin

text \<open>
  The fetch-and-store-and-store descriptor (\<open>src/src/mwcas/FASASDescriptor.h\<close> and
  \<open>FASASDescriptor.cc\<close>): one shared word is changed by a compare-and-swap that first installs a pointer
  to the descriptor, and the outcome is stored in a private word of the thread. Three operations
  share the code: recoverable CAS (the private word becomes 1), double CAS (it becomes a given value)
  and fetch-store-store (it becomes the old value). The status of an operation lives in the high bits of
  the field \<open>privateAddress_\<close>. As for the multi-word CAS, a thread is a stack of activations, a step
  makes at most one access to shared memory, and memory has a volatile and a durable image.
\<close>

section \<open>The descriptor\<close>

record fasas_desc =
  w_address :: u64
  w_old_value :: u64
  w_new_value :: u64
  opType :: u64
  privateAddress :: u64
  f_next_ptr :: u64
  f_owner_partition :: nat

definition RecoverCASOp :: u64 where "RecoverCASOp = push_bit 63 1"
definition DoubleCASOp :: u64 where "DoubleCASOp = push_bit 62 1"
definition FASASOp :: u64 where "FASASOp = push_bit 61 1"

definition SuccStatus :: u64 where "SuccStatus = 1"
definition FailedStatus :: u64 where "FailedStatus = 0"

definition IsPrivateValueSetFlg :: u64 where "IsPrivateValueSetFlg = push_bit 61 1"
definition StatusFlg :: u64 where "StatusFlg = push_bit 62 1"
definition StatusDirtyFlg :: u64 where "StatusDirtyFlg = push_bit 63 1"

definition new_FASASDescriptor :: "nat \<Rightarrow> fasas_desc" where
  "new_FASASDescriptor part = \<lparr>w_address = 0, w_old_value = 0, w_new_value = 0, opType = FASASOp,
     privateAddress = 0, f_next_ptr = 0, f_owner_partition = part\<rparr>"

definition FASAS_Initialize :: "fasas_desc \<Rightarrow> fasas_desc" where
  "FASAS_Initialize d = d\<lparr>privateAddress := 0, f_next_ptr := 0, opType := FASASOp,
     w_address := 0, w_old_value := 0, w_new_value := 0\<rparr>"

definition addSharedWord :: "fasas_desc \<Rightarrow> u64 \<Rightarrow> u64 \<Rightarrow> u64 \<Rightarrow> fasas_desc" where
  "addSharedWord d addr oldval newval =
     d\<lparr>w_address := addr, w_old_value := oldval, w_new_value := newval\<rparr>"

definition setPrivateAddress :: "fasas_desc \<Rightarrow> u64 \<Rightarrow> fasas_desc" where
  "setPrivateAddress d a = d\<lparr>privateAddress := a\<rparr>"

definition setOpType :: "fasas_desc \<Rightarrow> u64 \<Rightarrow> fasas_desc" where
  "setOpType d op = d\<lparr>opType := op\<rparr>"

definition isRecoverCAS :: "u64 \<Rightarrow> bool" where "isRecoverCAS v \<longleftrightarrow> v AND RecoverCASOp \<noteq> 0"
definition isDoubleCAS :: "u64 \<Rightarrow> bool" where "isDoubleCAS v \<longleftrightarrow> v AND DoubleCASOp \<noteq> 0"
definition isFASAS :: "u64 \<Rightarrow> bool" where "isFASAS v \<longleftrightarrow> v AND FASASOp \<noteq> 0"

definition getDCASValue :: "u64 \<Rightarrow> u64" where "getDCASValue v = v AND NOT DoubleCASOp"

definition setOpTypeFlg :: "u64 \<Rightarrow> u64 \<Rightarrow> u64 checked" where
  "setOpTypeFlg v flags =
     (if flags AND NOT (DoubleCASOp OR FASASOp OR RecoverCASOp) = 0 then Inr (v OR flags) else Inl ''invalid flags'')"

definition getPrivateAddress :: "fasas_desc \<Rightarrow> u64" where
  "getPrivateAddress d = privateAddress d AND NOT (StatusDirtyFlg OR StatusFlg OR IsPrivateValueSetFlg)"

definition isPrivateValueSet :: "fasas_desc \<Rightarrow> u64" where
  "isPrivateValueSet d = privateAddress d AND IsPrivateValueSetFlg"

definition getStatus :: "fasas_desc \<Rightarrow> u64" where
  "getStatus d = privateAddress d AND StatusFlg"

text \<open>What \<open>changePrivateValueSucc\<close> stores.\<close>

definition private_value :: "fasas_desc \<Rightarrow> u64" where
  "private_value d =
     (if isRecoverCAS (opType d) then 1
      else if isDoubleCAS (opType d) then getDCASValue (opType d)
      else w_old_value d)"

section \<open>Memory\<close>

record fshared =
  fmem :: "u64 \<Rightarrow> u64"
  fnvm :: "u64 \<Rightarrow> u64"
  fdescs :: "u64 \<Rightarrow> fasas_desc"
  fpdescs :: "u64 \<Rightarrow> fasas_desc"

definition fcas :: "fshared \<Rightarrow> u64 \<Rightarrow> u64 \<Rightarrow> u64 \<Rightarrow> u64 \<times> fshared" where
  "fcas sh a newv comparand =
     (fmem sh a, if fmem sh a = comparand then sh\<lparr>fmem := (fmem sh)(a := newv)\<rparr> else sh)"

definition fflush :: "fshared \<Rightarrow> u64 \<Rightarrow> fshared" where
  "fflush sh a = sh\<lparr>fnvm := (fnvm sh)(a := fmem sh a)\<rparr>"

definition fflush_desc :: "fshared \<Rightarrow> u64 \<Rightarrow> fshared" where
  "fflush_desc sh d = sh\<lparr>fpdescs := (fpdescs sh)(d := fdescs sh d)\<rparr>"

definition fflush_private :: "fshared \<Rightarrow> u64 \<Rightarrow> fshared" where
  "fflush_private sh d =
     sh\<lparr>fpdescs := (fpdescs sh)(d := (fpdescs sh d)\<lparr>privateAddress := privateAddress (fdescs sh d)\<rparr>)\<rparr>"

definition set_private :: "fshared \<Rightarrow> u64 \<Rightarrow> u64 \<Rightarrow> fshared" where
  "set_private sh d v = sh\<lparr>fdescs := (fdescs sh)(d := (fdescs sh d)\<lparr>privateAddress := v\<rparr>)\<rparr>"

definition fdescptr :: "u64 \<Rightarrow> u64" where
  "fdescptr d = d OR kMwCASFlag"

section \<open>Steps\<close>

text \<open>\<open>persistSuccStatus\<close>; \<open>None\<close> as the next point is its return.\<close>

datatype spc = SLoad | SCheck u64 | SCas u64 | STest | SFlush

fun persistSuccStatus_step :: "u64 \<Rightarrow> spc \<Rightarrow> fshared \<Rightarrow> spc option \<times> fshared" where
  "persistSuccStatus_step d SLoad sh = (Some (SCheck (getPrivateAddress (fdescs sh d))), sh)"
| "persistSuccStatus_step d (SCheck clean) sh =
     (Some (if privateAddress (fdescs sh d) = clean then SCas clean else STest), sh)"
| "persistSuccStatus_step d (SCas clean) sh =
     (Some STest,
      if privateAddress (fdescs sh d) = clean then set_private sh d (clean OR StatusFlg) else sh)"
| "persistSuccStatus_step d STest sh = (if isPrivateValueSet (fdescs sh d) = 1 then None else Some SFlush, sh)"
| "persistSuccStatus_step d SFlush sh = (None, fflush_private sh d)"

text \<open>\<open>changeShareValueWithoutFlush\<close>.\<close>

datatype wpc = WLoad | WCas

fun changeShareValueWithoutFlush_step :: "u64 \<Rightarrow> wpc \<Rightarrow> fshared \<Rightarrow> wpc option \<times> fshared" where
  "changeShareValueWithoutFlush_step d WLoad sh =
     (if fmem sh (w_address (fdescs sh d)) = fdescptr d then Some WCas else None, sh)"
| "changeShareValueWithoutFlush_step d WCas sh =
     (None, snd (fcas sh (w_address (fdescs sh d)) (w_new_value (fdescs sh d)) (fdescptr d)))"

text \<open>\<open>helpProcess\<close>.\<close>

datatype hpc = HTest | HFlush | HStatus spc | HTest2 | HShare wpc

fun helpProcess_step :: "u64 \<Rightarrow> hpc \<Rightarrow> fshared \<Rightarrow> hpc option \<times> fshared" where
  "helpProcess_step d HTest sh = (if isPrivateValueSet (fdescs sh d) = 1 then None else Some HFlush, sh)"
| "helpProcess_step d HFlush sh = (Some (HStatus SLoad), fflush sh (w_address (fdescs sh d)))"
| "helpProcess_step d (HStatus k) sh =
     (case persistSuccStatus_step d k sh of
        (None, sh') \<Rightarrow> (Some HTest2, sh') | (Some k', sh') \<Rightarrow> (Some (HStatus k'), sh'))"
| "helpProcess_step d HTest2 sh = (if isPrivateValueSet (fdescs sh d) = 1 then None else Some (HShare WLoad), sh)"
| "helpProcess_step d (HShare k) sh =
     (case changeShareValueWithoutFlush_step d k sh of (k', sh') \<Rightarrow> (map_option HShare k', sh'))"

text \<open>\<open>process\<close>, with \<open>addDescriptorToShareVar\<close> and \<open>changePrivateValueSucc\<close>.\<close>

datatype fpc =
    PFlushDesc | PInstall
  | PFlush | PStatus spc | PShare wpc
  | PStore | PStoreFlush | PMark | PMarkFlush
  | PCleanup bool

datatype foutcome = FGoto fpc fshared | FHelp u64 fpc fshared | FReturn bool fshared

fun process_step :: "u64 \<Rightarrow> fpc \<Rightarrow> fshared \<Rightarrow> foutcome" where
  "process_step d PFlushDesc sh = FGoto PInstall (fflush_desc sh d)"
| "process_step d PInstall sh =
     (let w = fdescs sh d in
      case fcas sh (w_address w) (fdescptr d) (w_old_value w) of (ret, sh') \<Rightarrow>
        if IsMwCASDescriptorPtr ret then FHelp (CleanPtr ret) PInstall sh'
        else if ret \<noteq> w_old_value w then FGoto (PCleanup False) sh'
        else FGoto PFlush sh')"
| "process_step d PFlush sh = FGoto (PStatus SLoad) (fflush sh (w_address (fdescs sh d)))"
| "process_step d (PStatus k) sh =
     (case persistSuccStatus_step d k sh of
        (None, sh') \<Rightarrow> FGoto (PShare WLoad) sh' | (Some k', sh') \<Rightarrow> FGoto (PStatus k') sh')"
| "process_step d (PShare k) sh =
     (case changeShareValueWithoutFlush_step d k sh of
        (None, sh') \<Rightarrow> FGoto PStore sh' | (Some k', sh') \<Rightarrow> FGoto (PShare k') sh')"
| "process_step d PStore sh =
     FGoto PStoreFlush (sh\<lparr>fmem := (fmem sh)(getPrivateAddress (fdescs sh d) := private_value (fdescs sh d))\<rparr>)"
| "process_step d PStoreFlush sh = FGoto PMark (fflush sh (getPrivateAddress (fdescs sh d)))"
| "process_step d PMark sh =
     FGoto PMarkFlush (set_private sh d (getPrivateAddress (fdescs sh d) OR StatusFlg OR IsPrivateValueSetFlg))"
| "process_step d PMarkFlush sh = FGoto (PCleanup True) (fflush_private sh d)"
| "process_step d (PCleanup isSuc) sh = FReturn isSuc sh"

text \<open>\<open>FASASTargetField::getValueProtectedOfSharedVar\<close>.\<close>

datatype frpc = FLoad | FDirtyFlush u64 | FDirtyClear u64

datatype froutcome = FRGoto frpc fshared | FRHelp u64 fshared | FRReturn u64 fshared | FRAbort string

definition read_checked :: "u64 \<Rightarrow> fshared \<Rightarrow> froutcome" where
  "read_checked val sh = (if IsCleanPtr val then FRReturn val sh else FRAbort ''dirty flag set on return value'')"

fun getValueProtectedOfSharedVar_step :: "u64 \<Rightarrow> frpc \<Rightarrow> fshared \<Rightarrow> froutcome" where
  "getValueProtectedOfSharedVar_step a FLoad sh =
     (let val = fmem sh a in
      if IsMwCASDescriptorPtr val then
        (if CleanPtr val \<noteq> 0 then FRHelp (CleanPtr val) sh else FRAbort ''invalid descriptor pointer'')
      else if IsDirtyPtr val then FRGoto (FDirtyFlush val) sh
      else read_checked val sh)"
| "getValueProtectedOfSharedVar_step a (FDirtyFlush val) sh = FRGoto (FDirtyClear val) (fflush sh a)"
| "getValueProtectedOfSharedVar_step a (FDirtyClear val) sh =
     read_checked (ClearDirty val) (snd (fcas sh a (ClearDirty val) val))"

section \<open>Executions\<close>

datatype fframe = Proc u64 fpc | Help u64 hpc | Read u64 frpc

datatype fresult = ProcResult u64 bool | ReadResult u64 u64

text \<open>\<open>fstarted\<close> are the descriptors whose operation has been started, \<open>fvars\<close> the shared words.\<close>

record fsys =
  fglob :: fshared
  fstacks :: "nat \<Rightarrow> fframe list"
  fstarted :: "u64 list"
  fvars :: "u64 list"
  fresults :: "(nat \<times> fresult) list"
  faborted :: "string option"

datatype fevent =
    FRun nat
  | FStart nat u64 u64 u64 u64 u64 u64
  | FStartRead nat u64
  | FEvict u64
  | FEvictDesc u64

definition fframe_step :: "fsys \<Rightarrow> nat \<Rightarrow> fframe \<Rightarrow> fframe list \<Rightarrow> fsys" where
  "fframe_step s t f fs =
     (case f of
        Proc d pc \<Rightarrow>
          (case process_step d pc (fglob s) of
             FGoto pc' sh \<Rightarrow> s\<lparr>fglob := sh, fstacks := (fstacks s)(t := Proc d pc' # fs)\<rparr>
           | FHelp d' pc' sh \<Rightarrow> s\<lparr>fglob := sh, fstacks := (fstacks s)(t := Help d' HTest # Proc d pc' # fs)\<rparr>
           | FReturn b sh \<Rightarrow>
               s\<lparr>fglob := sh, fstacks := (fstacks s)(t := fs), fresults := (t, ProcResult d b) # fresults s\<rparr>)
      | Help d k \<Rightarrow>
          (case helpProcess_step d k (fglob s) of
             (None, sh) \<Rightarrow> s\<lparr>fglob := sh, fstacks := (fstacks s)(t := fs)\<rparr>
           | (Some k', sh) \<Rightarrow> s\<lparr>fglob := sh, fstacks := (fstacks s)(t := Help d k' # fs)\<rparr>)
      | Read a k \<Rightarrow>
          (case getValueProtectedOfSharedVar_step a k (fglob s) of
             FRGoto k' sh \<Rightarrow> s\<lparr>fglob := sh, fstacks := (fstacks s)(t := Read a k' # fs)\<rparr>
           | FRHelp d sh \<Rightarrow> s\<lparr>fglob := sh, fstacks := (fstacks s)(t := Help d HTest # Read a FLoad # fs)\<rparr>
           | FRReturn v sh \<Rightarrow>
               s\<lparr>fglob := sh, fstacks := (fstacks s)(t := fs), fresults := (t, ReadResult a v) # fresults s\<rparr>
           | FRAbort m \<Rightarrow> s\<lparr>faborted := Some m\<rparr>))"

text \<open>
  What the application owes: a descriptor that was handed out and not started before, a shared word,
  values without flag bits, and a private word that is not one of the shared words.
\<close>

definition fmay_start :: "fsys \<Rightarrow> u64 \<Rightarrow> u64 \<Rightarrow> u64 \<Rightarrow> u64 \<Rightarrow> u64 \<Rightarrow> u64 \<Rightarrow> bool" where
  "fmay_start s d a old new op priv \<longleftrightarrow> d \<noteq> 0 \<and> IsCleanPtr d \<and> d \<notin> set (fstarted s) \<and> a \<in> set (fvars s) \<and>
     IsCleanPtr old \<and> IsCleanPtr new \<and> priv \<noteq> 0 \<and> IsCleanPtr priv \<and> priv \<notin> set (fvars s)"

definition fstart :: "fsys \<Rightarrow> nat \<Rightarrow> u64 \<Rightarrow> u64 \<Rightarrow> u64 \<Rightarrow> u64 \<Rightarrow> u64 \<Rightarrow> u64 \<Rightarrow> fsys" where
  "fstart s t d a old new op priv =
     s\<lparr>fglob := (fglob s)\<lparr>fdescs := (fdescs (fglob s))(d :=
            setOpType (setPrivateAddress (addSharedWord (FASAS_Initialize (fdescs (fglob s) d)) a old new) priv) op)\<rparr>,
       fstacks := (fstacks s)(t := [Proc d PFlushDesc]), fstarted := d # fstarted s\<rparr>"

definition fexec :: "fevent \<Rightarrow> fsys \<Rightarrow> fsys option" where
  "fexec e s =
     (if faborted s \<noteq> None then None else
      case e of
        FRun t \<Rightarrow> (case fstacks s t of [] \<Rightarrow> None | f # fs \<Rightarrow> Some (fframe_step s t f fs))
      | FStart t d a old new op priv \<Rightarrow>
          if fstacks s t = [] \<and> fmay_start s d a old new op priv then Some (fstart s t d a old new op priv) else None
      | FStartRead t a \<Rightarrow>
          if fstacks s t = [] \<and> a \<in> set (fvars s) then Some (s\<lparr>fstacks := (fstacks s)(t := [Read a FLoad])\<rparr>) else None
      | FEvict a \<Rightarrow> Some (s\<lparr>fglob := fflush (fglob s) a\<rparr>)
      | FEvictDesc d \<Rightarrow> Some (s\<lparr>fglob := fflush_desc (fglob s) d\<rparr>))"

fun fexec_all :: "fevent list \<Rightarrow> fsys \<Rightarrow> fsys option" where
  "fexec_all [] s = Some s"
| "fexec_all (e # es) s = (case fexec e s of None \<Rightarrow> None | Some s' \<Rightarrow> fexec_all es s')"

section \<open>Recovery\<close>

text \<open>
  The loop of \<open>FASASDescriptorPool::recover\<close> runs alone on the durable memory and descriptors; every
  store is flushed. \<open>self\<close> is the address of the descriptor.
\<close>

definition doRecoverPrivateAddrSucc :: "fasas_desc \<Rightarrow> (u64 \<Rightarrow> u64) \<Rightarrow> u64 \<Rightarrow> u64" where
  "doRecoverPrivateAddrSucc d m =
     (let p = getPrivateAddress d in
      if isRecoverCAS (opType d) then m(p := 1)
      else if isDoubleCAS (opType d) then m(p := getDCASValue (opType d))
      else if isFASAS (opType d) then m(p := w_old_value d)
      else m)"

definition doRecoverShareAddrSucc :: "fasas_desc \<Rightarrow> (u64 \<Rightarrow> u64) \<Rightarrow> u64 \<Rightarrow> u64" where
  "doRecoverShareAddrSucc d m = m(w_address d := w_new_value d)"

definition doRecoverShareAddrFail :: "fasas_desc \<Rightarrow> (u64 \<Rightarrow> u64) \<Rightarrow> u64 \<Rightarrow> u64" where
  "doRecoverShareAddrFail d m = m(w_address d := w_old_value d)"

definition recoverForFASAS :: "u64 \<Rightarrow> u64 \<Rightarrow> fasas_desc \<Rightarrow> (u64 \<Rightarrow> u64) \<Rightarrow> u64 \<Rightarrow> u64" where
  "recoverForFASAS stat self d m =
     (let val = CleanPtr (m (w_address d)) in
      if stat = SuccStatus then
        (let m1 = (if isPrivateValueSet d = 0 then doRecoverPrivateAddrSucc d m else m) in
         if val = self then doRecoverShareAddrSucc d m1 else m1)
      else if stat = FailedStatus \<and> val = self then doRecoverShareAddrFail d m
      else m)"

fun recover_fasas :: "nat \<Rightarrow> (u64 \<times> fasas_desc) list \<Rightarrow> (u64 \<Rightarrow> u64) \<Rightarrow> (u64 \<Rightarrow> u64) checked" where
  "recover_fasas i [] m = Inr m"
| "recover_fasas i ((self, d) # ds) m =
     (if opType d = 0 then (if i = 0 then Inr m else Inl ''corrupted descriptor pool/data area'')
      else if privateAddress d = 0 then recover_fasas (Suc i) ds m
      else recover_fasas (Suc i) ds (recoverForFASAS (getStatus d) self d m))"

end
