(* ===== verification/Fasas_Inv.thy ===== *)
theory Fasas_Inv
  imports Fasas
begin

text \<open>
  The protocol of the fetch-and-store-and-store operations under every interleaving: the invariant of the
  machine, its preservation, and the properties that follow from it.
\<close>

section \<open>Flags of the private address\<close>

lemma fasas_flags:
  "IsPrivateValueSetFlg = kDirtyFlag" "StatusFlg = kCondCASFlag" "StatusDirtyFlg = kMwCASFlag"
  "RecoverCASOp = kMwCASFlag" "DoubleCASOp = kCondCASFlag" "FASASOp = kDirtyFlag"
  by (simp_all add: IsPrivateValueSetFlg_def StatusFlg_def StatusDirtyFlg_def RecoverCASOp_def DoubleCASOp_def
      FASASOp_def kDirtyFlag_def kCondCASFlag_def kMwCASFlag_def)

lemma getPrivateAddress_clean: "getPrivateAddress d = CleanPtr (privateAddress d)"
  by (simp add: getPrivateAddress_def fasas_flags CleanPtr_def or.assoc)

text \<open>The test in the code compares a single high bit with 1.\<close>

lemma private_value_set_never: "isPrivateValueSet d \<noteq> 1"
proof
  assume "isPrivateValueSet d = 1"
  moreover have "bit (1 :: u64) 0" by simp
  ultimately have "bit (isPrivateValueSet d) 0" by simp
  then show False by (simp add: isPrivateValueSet_def fasas_flags bit_simps flag_simps)
qed

lemma status_never_succ: "getStatus d \<noteq> SuccStatus"
proof
  assume "getStatus d = SuccStatus"
  moreover have "bit SuccStatus 0" by (simp add: SuccStatus_def)
  ultimately have "bit (getStatus d) 0" by simp
  then show False by (simp add: getStatus_def fasas_flags bit_simps flag_simps)
qed

lemma getStatus_failed: "getStatus d = FailedStatus \<longleftrightarrow> \<not> IsCondCASDescriptorPtr (privateAddress d)"
  by (simp add: getStatus_def FailedStatus_def fasas_flags IsCondCASDescriptorPtr_def)

lemma fdescptr_mw: "fdescptr d = mwcas_descptr 0 d"
  by (simp add: fdescptr_def mwcas_descptr_def)

lemma fdescptr_tests:
  assumes "IsCleanPtr d"
  shows "IsMwCASDescriptorPtr (fdescptr d)" "CleanPtr (fdescptr d) = d" "\<not> IsCleanPtr (fdescptr d)"
proof -
  show mw: "IsMwCASDescriptorPtr (fdescptr d)" "CleanPtr (fdescptr d) = d"
    using is_mw_tests [of d "fdescptr d"] assms by (simp_all add: fdescptr_mw)
  then show "\<not> IsCleanPtr (fdescptr d)" using clean_no_flags by blast
qed

lemma fdescptr_inj: "IsCleanPtr d \<Longrightarrow> IsCleanPtr d' \<Longrightarrow> fdescptr d = fdescptr d' \<Longrightarrow> d = d'"
  using fdescptr_tests(2) by metis

section \<open>The invariant\<close>

abbreviation fdesc :: "fsys \<Rightarrow> u64 \<Rightarrow> fasas_desc" where
  "fdesc s d \<equiv> fdescs (fglob s) d"

abbreviation faddr :: "fsys \<Rightarrow> u64 \<Rightarrow> u64" where
  "faddr s d \<equiv> w_address (fdesc s d)"

text \<open>The success bit, in the volatile and in the durable copy of the descriptor.\<close>

definition decided_flag :: "fsys \<Rightarrow> u64 \<Rightarrow> bool" where
  "decided_flag s d \<longleftrightarrow> IsCondCASDescriptorPtr (privateAddress (fdesc s d))"

definition durable_flag :: "fsys \<Rightarrow> u64 \<Rightarrow> bool" where
  "durable_flag s d \<longleftrightarrow> IsCondCASDescriptorPtr (privateAddress (fpdescs (fglob s) d))"

text \<open>The owner has not yet tried to install the descriptor.\<close>

definition before_install :: "fsys \<Rightarrow> u64 \<Rightarrow> bool" where
  "before_install s d \<longleftrightarrow> (\<exists>t. Proc d PFlushDesc \<in> set (fstacks s t) \<or> Proc d PInstall \<in> set (fstacks s t))"

definition installed :: "fsys \<Rightarrow> u64 \<Rightarrow> bool" where
  "installed s d \<longleftrightarrow> fmem (fglob s) (faddr s d) = fdescptr d"

definition good_var :: "fsys \<Rightarrow> u64 \<Rightarrow> bool" where
  "good_var s a \<longleftrightarrow> IsCleanPtr (fmem (fglob s) a) \<or>
     (\<exists>d \<in> set (fstarted s). fmem (fglob s) a = fdescptr d \<and> faddr s d = a \<and> \<not> before_install s d)"

definition good_desc :: "fsys \<Rightarrow> u64 \<Rightarrow> bool" where
  "good_desc s d \<longleftrightarrow> d \<noteq> 0 \<and> IsCleanPtr d \<and> IsCleanPtr (w_old_value (fdesc s d)) \<and>
     IsCleanPtr (w_new_value (fdesc s d)) \<and> faddr s d \<in> set (fvars s) \<and>
     CleanPtr (privateAddress (fdesc s d)) \<notin> set (fvars s) \<and>
     (privateAddress (fdesc s d) = CleanPtr (privateAddress (fdesc s d)) \<or> decided_flag s d) \<and>
     (durable_flag s d \<longrightarrow> decided_flag s d)"

definition status_ok :: "fsys \<Rightarrow> u64 \<Rightarrow> spc \<Rightarrow> bool" where
  "status_ok s d k \<longleftrightarrow> (case k of
     SLoad \<Rightarrow> True
   | SCheck c \<Rightarrow> c = CleanPtr (privateAddress (fdesc s d))
   | SCas c \<Rightarrow> c = CleanPtr (privateAddress (fdesc s d))
   | STest \<Rightarrow> decided_flag s d
   | SFlush \<Rightarrow> decided_flag s d)"

fun frame_ok :: "fsys \<Rightarrow> fframe \<Rightarrow> bool" where
  "frame_ok s (Proc d pc) \<longleftrightarrow> d \<in> set (fstarted s) \<and> (case pc of
     PFlushDesc \<Rightarrow> True
   | PInstall \<Rightarrow> True
   | PFlush \<Rightarrow> \<not> before_install s d
   | PStatus k \<Rightarrow> \<not> before_install s d \<and> status_ok s d k
   | PShare _ \<Rightarrow> \<not> before_install s d \<and> durable_flag s d
   | PCleanup False \<Rightarrow> \<not> before_install s d
   | _ \<Rightarrow> \<not> before_install s d \<and> durable_flag s d \<and> \<not> installed s d)"
| "frame_ok s (Help d k) \<longleftrightarrow> d \<in> set (fstarted s) \<and> \<not> before_install s d \<and> (case k of
     HTest \<Rightarrow> True
   | HFlush \<Rightarrow> True
   | HStatus k' \<Rightarrow> status_ok s d k'
   | HTest2 \<Rightarrow> durable_flag s d
   | HShare _ \<Rightarrow> durable_flag s d)"
| "frame_ok s (Read a k) \<longleftrightarrow> a \<in> set (fvars s) \<and> k = FLoad"

text \<open>A stack is empty, or an operation or a read, possibly with one activation of \<open>helpProcess\<close> on top.\<close>

fun wf_stack :: "fframe list \<Rightarrow> bool" where
  "wf_stack [] \<longleftrightarrow> True"
| "wf_stack [Proc d pc] \<longleftrightarrow> True"
| "wf_stack [Read a k] \<longleftrightarrow> True"
| "wf_stack [Help d k, Proc d' PInstall] \<longleftrightarrow> True"
| "wf_stack [Help d k, Read a FLoad] \<longleftrightarrow> True"
| "wf_stack _ \<longleftrightarrow> False"

definition owner :: "fframe list \<Rightarrow> u64 option" where
  "owner fs = (if fs = [] then None else case last fs of Proc d pc \<Rightarrow> Some d | _ \<Rightarrow> None)"

text \<open>A descriptor that was never started has no durable trace of an operation.\<close>

definition fresh_durable :: "fsys \<Rightarrow> bool" where
  "fresh_durable s \<longleftrightarrow> (\<forall>d. d \<notin> set (fstarted s) \<longrightarrow> \<not> durable_flag s d \<and> \<not> decided_flag s d)"

definition fasas_inv :: "fsys \<Rightarrow> bool" where
  "fasas_inv s \<longleftrightarrow> faborted s = None \<and> fresh_durable s \<and> (\<forall>a \<in> set (fvars s). good_var s a) \<and>
     (\<forall>d \<in> set (fstarted s). good_desc s d) \<and>
     (\<forall>t. wf_stack (fstacks s t) \<and> (\<forall>f \<in> set (fstacks s t). frame_ok s f)) \<and>
     (\<forall>t t' d. owner (fstacks s t) = Some d \<longrightarrow> owner (fstacks s t') = Some d \<longrightarrow> t = t')"

text \<open>What every step of the others leaves true.\<close>

definition stable :: "fsys \<Rightarrow> fsys \<Rightarrow> bool" where
  "stable s s' \<longleftrightarrow> fvars s' = fvars s \<and> set (fstarted s) \<subseteq> set (fstarted s') \<and> (\<forall>d \<in> set (fstarted s).
     w_address (fdesc s' d) = w_address (fdesc s d) \<and> w_old_value (fdesc s' d) = w_old_value (fdesc s d) \<and>
     w_new_value (fdesc s' d) = w_new_value (fdesc s d) \<and> opType (fdesc s' d) = opType (fdesc s d) \<and>
     CleanPtr (privateAddress (fdesc s' d)) = CleanPtr (privateAddress (fdesc s d)) \<and>
     (decided_flag s d \<longrightarrow> decided_flag s' d) \<and> (durable_flag s d \<longrightarrow> durable_flag s' d) \<and>
     (\<not> before_install s d \<longrightarrow> \<not> before_install s' d) \<and>
     (\<not> before_install s d \<longrightarrow> \<not> installed s d \<longrightarrow> \<not> installed s' d))"

lemma status_ok_SLoad [simp]: "status_ok s d SLoad"
  by (simp add: status_ok_def)

lemma status_ok_stable:
  "stable s s' \<Longrightarrow> d \<in> set (fstarted s) \<Longrightarrow> status_ok s d k \<Longrightarrow> status_ok s' d k"
  by (auto simp: stable_def status_ok_def split: spc.splits)

lemma frame_ok_stable:
  assumes "stable s s'" and "frame_ok s f"
  shows "frame_ok s' f"
proof (cases f)
  case (Proc d pc)
  then show ?thesis using assms status_ok_stable [OF assms(1), of d]
    by (cases pc) (auto simp: stable_def split: bool.splits)
next
  case (Help d k)
  then show ?thesis using assms status_ok_stable [OF assms(1), of d]
    by (cases k) (auto simp: stable_def)
next
  case (Read a k)
  then show ?thesis using assms by (simp add: stable_def)
qed

section \<open>Preservation\<close>

text \<open>A step of thread \<open>t\<close>: the shared memory becomes \<open>sh\<close>, its stack \<open>fs\<close>.\<close>

definition moved :: "fsys \<Rightarrow> nat \<Rightarrow> fshared \<Rightarrow> fframe list \<Rightarrow> (nat \<times> fresult) list \<Rightarrow> fsys" where
  "moved s t sh fs r = s\<lparr>fglob := sh, fstacks := (fstacks s)(t := fs), fresults := r\<rparr>"

lemma moved_simps [simp]:
  "fglob (moved s t sh fs r) = sh" "fstacks (moved s t sh fs r) = (fstacks s)(t := fs)"
  "fstarted (moved s t sh fs r) = fstarted s" "fvars (moved s t sh fs r) = fvars s"
  "faborted (moved s t sh fs r) = faborted s" "fresults (moved s t sh fs r) = r"
  by (simp_all add: moved_def)

definition no_install :: "fsys \<Rightarrow> fframe list \<Rightarrow> bool" where
  "no_install s fs \<longleftrightarrow> (\<forall>d. Proc d PFlushDesc \<in> set fs \<or> Proc d PInstall \<in> set fs \<longrightarrow> before_install s d)"

lemma before_install_moved:
  assumes "no_install s fs" and "before_install (moved s t sh fs r) d"
  shows "before_install s d"
  using assms by (auto simp: before_install_def no_install_def split: if_splits)

text \<open>The word and descriptor parts of the invariant after a step, relative to before.\<close>

definition keeps :: "fsys \<Rightarrow> fsys \<Rightarrow> bool" where
  "keeps s s' \<longleftrightarrow> stable s s' \<and> fresh_durable s' \<and> (\<forall>a \<in> set (fvars s). good_var s' a) \<and> (\<forall>d \<in> set (fstarted s). good_desc s' d)"

lemma inv_moved:
  assumes inv: "fasas_inv s" and keeps: "keeps s (moved s t sh fs r)" and "wf_stack fs"
    and frames: "\<forall>f \<in> set fs. f \<in> set (fstacks s t) \<or> frame_ok (moved s t sh fs r) f"
    and own: "owner fs = owner (fstacks s t) \<or> owner fs = None"
  shows "fasas_inv (moved s t sh fs r)"
proof -
  let ?s = "moved s t sh fs r"
  have old: "frame_ok ?s f" if "f \<in> set (fstacks s u)" for f u
  proof -
    have "frame_ok s f" using inv that unfolding fasas_inv_def by blast
    moreover have "stable s ?s" using keeps by (simp add: keeps_def)
    ultimately show ?thesis by (rule frame_ok_stable [rotated])
  qed
  have wf: "wf_stack (fstacks s u)" for u using inv unfolding fasas_inv_def by blast
  have "\<forall>u. wf_stack (fstacks ?s u) \<and> (\<forall>f \<in> set (fstacks ?s u). frame_ok ?s f)"
  proof (intro allI conjI ballI)
    fix u
    show "wf_stack (fstacks ?s u)" using wf [of u] assms(3) by simp
    fix f assume f: "f \<in> set (fstacks ?s u)"
    show "frame_ok ?s f"
    proof (cases "u = t")
      case True
      then have "f \<in> set fs" using f by simp
      then show ?thesis using frames old by blast
    next
      case False
      then have "f \<in> set (fstacks s u)" using f by simp
      then show ?thesis by (rule old)
    qed
  qed
  moreover have "\<forall>u u' d. owner (fstacks ?s u) = Some d \<longrightarrow> owner (fstacks ?s u') = Some d \<longrightarrow> u = u'"
  proof (intro allI impI)
    have old: "owner (fstacks s u) = Some d" if "owner (fstacks ?s u) = Some d" for u d
      using own that by (cases "u = t") simp_all
    fix u u' d assume "owner (fstacks ?s u) = Some d" "owner (fstacks ?s u') = Some d"
    then have "owner (fstacks s u) = Some d" "owner (fstacks s u') = Some d" using old by blast+
    then show "u = u'" using inv unfolding fasas_inv_def by blast
  qed
  moreover have "faborted ?s = None" using inv by (simp add: fasas_inv_def)
  moreover have "fresh_durable ?s" "\<forall>a \<in> set (fvars ?s). good_var ?s a" "\<forall>d \<in> set (fstarted ?s). good_desc ?s d"
    using keeps by (simp_all add: keeps_def)
  ultimately show ?thesis unfolding fasas_inv_def by (intro conjI)
qed

text \<open>A step that changes no shared word: flushes, the private word, the status bits.\<close>

definition quiet :: "fsys \<Rightarrow> fshared \<Rightarrow> bool" where
  "quiet s sh \<longleftrightarrow> (\<forall>a \<in> set (fvars s). fmem sh a = fmem (fglob s) a) \<and>
     (\<forall>d. d \<notin> set (fstarted s) \<longrightarrow> privateAddress (fdescs sh d) = privateAddress (fdesc s d) \<and>
        (privateAddress (fpdescs sh d) = privateAddress (fpdescs (fglob s) d) \<or>
         privateAddress (fpdescs sh d) = privateAddress (fdesc s d))) \<and> (\<forall>d \<in> set (fstarted s).
     w_address (fdescs sh d) = faddr s d \<and> w_old_value (fdescs sh d) = w_old_value (fdesc s d) \<and>
     w_new_value (fdescs sh d) = w_new_value (fdesc s d) \<and> opType (fdescs sh d) = opType (fdesc s d) \<and>
     CleanPtr (privateAddress (fdescs sh d)) = CleanPtr (privateAddress (fdesc s d)) \<and>
     (privateAddress (fdescs sh d) = privateAddress (fdesc s d) \<or>
        IsCondCASDescriptorPtr (privateAddress (fdescs sh d))) \<and>
     (privateAddress (fpdescs sh d) = privateAddress (fpdescs (fglob s) d) \<or>
        privateAddress (fpdescs sh d) = privateAddress (fdesc s d)))"

lemma quiet_keeps:
  assumes inv: "fasas_inv s" and "quiet s sh" and "no_install s fs"
  shows "keeps s (moved s t sh fs r)"
proof -
  let ?s = "moved s t sh fs r"
  note bi = before_install_moved [OF assms(3), where t = t and sh = sh and r = r]
  have gd: "good_desc s d" if "d \<in> set (fstarted s)" for d using inv that by (simp add: fasas_inv_def)
  have q: "fmem sh a = fmem (fglob s) a" if "a \<in> set (fvars s)" for a using assms(2) that by (simp add: quiet_def)
  have w: "w_address (fdescs sh d) = faddr s d \<and> w_old_value (fdescs sh d) = w_old_value (fdesc s d) \<and>
     w_new_value (fdescs sh d) = w_new_value (fdesc s d) \<and> opType (fdescs sh d) = opType (fdesc s d) \<and>
     CleanPtr (privateAddress (fdescs sh d)) = CleanPtr (privateAddress (fdesc s d)) \<and>
     (privateAddress (fdescs sh d) = privateAddress (fdesc s d) \<or>
        IsCondCASDescriptorPtr (privateAddress (fdescs sh d))) \<and>
     (privateAddress (fpdescs sh d) = privateAddress (fpdescs (fglob s) d) \<or>
        privateAddress (fpdescs sh d) = privateAddress (fdesc s d))" if "d \<in> set (fstarted s)" for d
    using assms(2) that by (simp add: quiet_def)
  have inst: "installed ?s d \<longleftrightarrow> installed s d" if d: "d \<in> set (fstarted s)" for d
    using q [of "faddr s d"] gd [OF d] w [OF d] by (auto simp: installed_def good_desc_def)
  have fl: "(decided_flag s d \<longrightarrow> decided_flag ?s d) \<and> (durable_flag s d \<longrightarrow> durable_flag ?s d)"
    if d: "d \<in> set (fstarted s)" for d
    using w [OF d] gd [OF d] unfolding decided_flag_def durable_flag_def good_desc_def moved_simps by metis
  have "stable s ?s"
    unfolding stable_def moved_simps using w fl bi inst by (intro conjI ballI; blast)
  moreover have "good_var ?s a" if a: "a \<in> set (fvars s)" for a
  proof -
    have "good_var s a" using inv a by (simp add: fasas_inv_def)
    then show ?thesis using q [OF a] w bi by (auto simp: good_var_def)
  qed
  moreover have "good_desc ?s d" if d: "d \<in> set (fstarted s)" for d
    using gd [OF d] w [OF d] by (auto simp: good_desc_def decided_flag_def durable_flag_def)
  moreover have "fresh_durable ?s"
  proof -
    have "fresh_durable s" using inv by (simp add: fasas_inv_def)
    then show ?thesis using assms(2)
      unfolding fresh_durable_def decided_flag_def durable_flag_def quiet_def moved_simps by metis
  qed
  ultimately show ?thesis by (simp add: keeps_def)
qed

text \<open>A step that writes \<open>v\<close> into the shared word of \<open>d\<close>: installing or removing the descriptor.\<close>

lemma write_keeps:
  assumes inv: "fasas_inv s" and d: "d \<in> set (fstarted s)" and "no_install s fs"
    and sh: "sh = (fglob s)\<lparr>fmem := (fmem (fglob s))(faddr s d := v)\<rparr>"
    and v: "IsCleanPtr v \<or> v = fdescptr d \<and> before_install s d \<and> \<not> before_install (moved s t sh fs r) d"
  shows "keeps s (moved s t sh fs r)"
proof -
  let ?s = "moved s t sh fs r"
  note bi = before_install_moved [OF assms(3), where t = t and sh = sh and r = r]
  have gd: "good_desc s d" if "d \<in> set (fstarted s)" for d using inv that by (simp add: fasas_inv_def)
  have inst: "installed s e" if e: "e \<in> set (fstarted s)" "\<not> before_install s e" "installed ?s e" for e
  proof (cases "faddr s e = faddr s d")
    case True
    then have "v = fdescptr e" using e(3) by (simp add: installed_def sh)
    moreover have "\<not> IsCleanPtr (fdescptr e)" using gd [OF e(1)] fdescptr_tests(3) by (simp add: good_desc_def)
    ultimately have "e = d" using v fdescptr_inj [of e d] gd e(1) d by (auto simp: good_desc_def)
    then show ?thesis using v e(2) \<open>v = fdescptr e\<close> \<open>\<not> IsCleanPtr (fdescptr e)\<close> by auto
  next
    case False
    then show ?thesis using e(3) by (simp add: installed_def sh)
  qed
  have "stable s ?s" using bi inst by (auto simp: stable_def decided_flag_def durable_flag_def sh)
  moreover have "good_var ?s a" if a: "a \<in> set (fvars s)" for a
  proof (cases "a = faddr s d")
    case True
    then show ?thesis using v d by (auto simp: good_var_def sh)
  next
    case False
    then show ?thesis using inv a bi by (auto simp: good_var_def sh fasas_inv_def)
  qed
  moreover have "good_desc ?s e" if "e \<in> set (fstarted s)" for e
    using gd [OF that] by (auto simp: good_desc_def decided_flag_def durable_flag_def sh)
  moreover have "fresh_durable ?s"
    using inv by (simp add: fasas_inv_def fresh_durable_def decided_flag_def durable_flag_def sh)
  ultimately show ?thesis by (simp add: keeps_def)
qed

section \<open>The steps of a thread\<close>

lemma inv_stack:
  assumes "fasas_inv s" and "fstacks s t = f # fs"
  shows "wf_stack (f # fs)" "frame_ok s f" "\<forall>g \<in> set fs. frame_ok s g"
proof -
  have "wf_stack (fstacks s t) \<and> (\<forall>f \<in> set (fstacks s t). frame_ok s f)"
    using assms(1) unfolding fasas_inv_def by blast
  then show "wf_stack (f # fs)" "frame_ok s f" "\<forall>g \<in> set fs. frame_ok s g" using assms(2) by auto
qed

lemma inv_parts:
  assumes "fasas_inv s"
  shows "a \<in> set (fvars s) \<Longrightarrow> good_var s a" "d \<in> set (fstarted s) \<Longrightarrow> good_desc s d"
  using assms by (simp_all add: fasas_inv_def)

lemma owner_mem: "wf_stack fs \<Longrightarrow> Proc d pc \<in> set fs \<Longrightarrow> owner fs = Some d"
  by (induction fs rule: wf_stack.induct) (auto simp: owner_def)

text \<open>Once the owner has left the point of installation, nobody is there.\<close>

lemma past_install:
  assumes inv: "fasas_inv s" and "fstacks s t = [Proc d pc]"
    and "Proc d PFlushDesc \<notin> set fs" "Proc d PInstall \<notin> set fs"
  shows "\<not> before_install (moved s t sh fs r) d"
proof
  assume "before_install (moved s t sh fs r) d"
  then obtain u where u: "u \<noteq> t" "Proc d PFlushDesc \<in> set (fstacks s u) \<or> Proc d PInstall \<in> set (fstacks s u)"
    using assms(3,4) by (auto simp: before_install_def split: if_splits)
  have "wf_stack (fstacks s u)" using inv unfolding fasas_inv_def by blast
  then have "owner (fstacks s u) = Some d" using u(2) owner_mem by blast
  moreover have "owner (fstacks s t) = Some d" by (simp add: owner_def assms(2))
  ultimately show False using inv u(1) unfolding fasas_inv_def by blast
qed

text \<open>The three kinds of steps.\<close>

definition silent :: "fsys \<Rightarrow> fsys \<Rightarrow> bool" where
  "silent s s' \<longleftrightarrow> (\<forall>a \<in> set (fvars s). fmem (fglob s') a = fmem (fglob s) a)"

definition installs :: "fsys \<Rightarrow> fsys \<Rightarrow> u64 \<Rightarrow> bool" where
  "installs s s' d \<longleftrightarrow> d \<in> set (fstarted s) \<and> before_install s d \<and> \<not> before_install s' d \<and>
     fmem (fglob s) (faddr s d) = w_old_value (fdesc s d) \<and>
     fmem (fglob s') = (fmem (fglob s))(faddr s d := fdescptr d)"

definition removes :: "fsys \<Rightarrow> fsys \<Rightarrow> u64 \<Rightarrow> bool" where
  "removes s s' d \<longleftrightarrow> d \<in> set (fstarted s) \<and> \<not> before_install s d \<and> installed s d \<and> durable_flag s d \<and>
     fmem (fglob s') = (fmem (fglob s))(faddr s d := w_new_value (fdesc s d))"

definition good_step :: "fsys \<Rightarrow> fsys \<Rightarrow> bool" where
  "good_step s s' \<longleftrightarrow> fasas_inv s' \<and> stable s s' \<and> (silent s s' \<or> (\<exists>d. installs s s' d) \<or> (\<exists>d. removes s s' d))"

lemma quiet_good:
  assumes "fasas_inv s" and "quiet s sh" and "no_install s fs" and "wf_stack fs"
    and "stable s (moved s t sh fs r) \<Longrightarrow> \<forall>f \<in> set fs. f \<in> set (fstacks s t) \<or> frame_ok (moved s t sh fs r) f"
    and "owner fs = owner (fstacks s t) \<or> owner fs = None"
  shows "good_step s (moved s t sh fs r)"
proof -
  have k: "keeps s (moved s t sh fs r)" by (rule quiet_keeps [OF assms(1-3)])
  then have st: "stable s (moved s t sh fs r)" by (simp add: keeps_def)
  have "fasas_inv (moved s t sh fs r)"
    by (rule inv_moved [OF assms(1) k assms(4) assms(5) [OF st] assms(6)])
  moreover have "silent s (moved s t sh fs r)" using assms(2) by (simp add: silent_def quiet_def)
  ultimately show ?thesis using st by (simp add: good_step_def)
qed

lemma quiet_same [simp]: "quiet s (fglob s)"
  by (simp add: quiet_def)

lemma quiet_flush [simp]: "quiet s (fflush (fglob s) a)"
  by (simp add: quiet_def fflush_def)

lemma quiet_flush_desc [simp]: "quiet s (fflush_desc (fglob s) d)"
  by (simp add: quiet_def fflush_desc_def)

lemma quiet_flush_private [simp]: "quiet s (fflush_private (fglob s) d)"
  by (simp add: quiet_def fflush_private_def)

lemma quiet_set_private:
  assumes "d \<in> set (fstarted s)" and "CleanPtr v = CleanPtr (privateAddress (fdesc s d))" and "IsCondCASDescriptorPtr v"
  shows "quiet s (set_private (fglob s) d v)"
  using assms by (simp add: quiet_def set_private_def)

lemma quiet_private:
  assumes "fasas_inv s" and "d \<in> set (fstarted s)"
  shows "quiet s ((fglob s)\<lparr>fmem := (fmem (fglob s))(getPrivateAddress (fdesc s d) := v)\<rparr>)"
  using inv_parts(2) [OF assms] by (auto simp: quiet_def getPrivateAddress_clean good_desc_def)

text \<open>\<open>persistSuccStatus\<close>: quiet, and when it returns the status bit is durable.\<close>

lemma status_step:
  assumes inv: "fasas_inv s" and d: "d \<in> set (fstarted s)" and ok: "status_ok s d k"
    and step: "persistSuccStatus_step d k (fglob s) = (k', sh)"
  shows "quiet s sh"
    "case k' of None \<Rightarrow> durable_flag (moved s t sh fs r) d | Some j \<Rightarrow> status_ok (moved s t sh fs r) d j"
proof -
  have gd: "good_desc s d" by (rule inv_parts(2) [OF inv d])
  have "quiet s sh \<and> (case k' of None \<Rightarrow> durable_flag (moved s t sh fs r) d
      | Some j \<Rightarrow> status_ok (moved s t sh fs r) d j)"
  proof (cases k)
    case SLoad
    then show ?thesis using step by (auto simp: status_ok_def getPrivateAddress_clean)
  next
    case (SCheck c)
    then show ?thesis using step ok gd by (auto simp: status_ok_def good_desc_def decided_flag_def)
  next
    case (SCas c)
    show ?thesis
    proof (cases "privateAddress (fdesc s d) = c")
      case True
      then have c: "IsCleanPtr c" using ok SCas by (simp add: status_ok_def IsCleanPtr_iff)
      have v: "CleanPtr (c OR StatusFlg) = c" "IsCondCASDescriptorPtr (c OR StatusFlg)"
        using c by (simp_all add: fasas_flags)
      have "quiet s (set_private (fglob s) d (c OR StatusFlg))"
        by (rule quiet_set_private) (use d v c True in simp_all)
      then show ?thesis using step SCas True v(2)
        by (auto simp: status_ok_def decided_flag_def set_private_def)
    next
      case False
      then have "decided_flag s d" using gd ok SCas by (auto simp: good_desc_def status_ok_def)
      then show ?thesis using step SCas False by (auto simp: status_ok_def decided_flag_def)
    qed
  next
    case STest
    then show ?thesis using step ok private_value_set_never [of "fdesc s d"]
      by (auto simp: status_ok_def decided_flag_def)
  next
    case SFlush
    then have "k' = None" "sh = fflush_private (fglob s) d" using step by simp_all
    then show ?thesis using ok SFlush
      by (simp add: status_ok_def decided_flag_def durable_flag_def) (simp add: fflush_private_def)
  qed
  then show "quiet s sh"
    "case k' of None \<Rightarrow> durable_flag (moved s t sh fs r) d | Some j \<Rightarrow> status_ok (moved s t sh fs r) d j"
    by blast+
qed

text \<open>\<open>changeShareValueWithoutFlush\<close>, executed by the frame \<open>f\<close> that becomes \<open>fs\<close>.\<close>

lemma share_step:
  assumes inv: "fasas_inv s" and d: "d \<in> set (fstarted s)" "\<not> before_install s d" "durable_flag s d"
    and step: "changeShareValueWithoutFlush_step d k (fglob s) = (k', sh)"
    and fs: "no_install s fs" "wf_stack fs" "owner fs = owner (fstacks s t) \<or> owner fs = None"
    and frames: "stable s (moved s t sh fs r) \<Longrightarrow> (k' = None \<Longrightarrow> \<not> installed (moved s t sh fs r) d) \<Longrightarrow>
      \<forall>f \<in> set fs. f \<in> set (fstacks s t) \<or> frame_ok (moved s t sh fs r) f"
  shows "good_step s (moved s t sh fs r)"
proof -
  have gd: "good_desc s d" by (rule inv_parts(2) [OF inv d(1)])
  show ?thesis
  proof (cases "k = WCas \<and> installed s d")
    case False
    then have sh: "sh = fglob s" "k' = None \<Longrightarrow> \<not> installed s d"
      using step by (cases k; auto simp: fcas_def installed_def split: if_splits)+
    have "installed (moved s t sh fs r) d = installed s d" by (simp add: installed_def sh(1))
    then show ?thesis using sh fs frames by (intro quiet_good [OF inv]) auto
  next
    case True
    let ?s = "moved s t sh fs r"
    have sh: "sh = (fglob s)\<lparr>fmem := (fmem (fglob s))(faddr s d := w_new_value (fdesc s d))\<rparr>" "k' = None"
      using True step by (auto simp: fcas_def installed_def)
    have clean: "IsCleanPtr (w_new_value (fdesc s d))" using gd by (simp add: good_desc_def)
    have k: "keeps s ?s" by (rule write_keeps [OF inv d(1) fs(1) sh(1)]) (simp add: clean)
    then have st: "stable s ?s" by (simp add: keeps_def)
    have "\<not> installed ?s d"
      using clean fdescptr_tests(3) [of d] gd by (auto simp: installed_def sh(1) good_desc_def)
    then have "fasas_inv ?s" using inv_moved [OF inv k fs(2) frames [OF st] fs(3)] by blast
    moreover have "removes s ?s d" using d True by (simp add: removes_def sh(1))
    ultimately show ?thesis using st unfolding good_step_def by blast
  qed
qed

lemma Help_step:
  assumes inv: "fasas_inv s" and stack: "fstacks s t = Help d k # fs"
  shows "good_step s (fframe_step s t (Help d k) fs)"
proof -
  note ok = inv_stack [OF inv stack]
  have d: "d \<in> set (fstarted s)" "\<not> before_install s d" using ok(2) by simp_all
  obtain k' sh where step: "helpProcess_step d k (fglob s) = (k', sh)" by force
  define fs' where "fs' = (case k' of None \<Rightarrow> fs | Some j \<Rightarrow> Help d j # fs)"
  have s': "fframe_step s t (Help d k) fs = moved s t sh fs' (fresults s)"
    by (simp add: fframe_step_def step moved_def fs'_def split: option.splits)
  have sub: "f \<in> set (fstacks s t) \<or> (\<exists>j. k' = Some j \<and> f = Help d j)" if "f \<in> set fs'" for f
    using that by (auto simp: fs'_def stack split: option.splits)
  have ni: "no_install s fs'" unfolding no_install_def
    using sub by (fastforce simp: before_install_def)
  have wf: "wf_stack fs'" and own: "owner fs' = owner (fstacks s t)"
    using ok(1) by (auto simp: fs'_def stack owner_def split: option.splits elim!: wf_stack.elims)
  have stf: "d \<in> set (fstarted s) \<and> \<not> before_install (moved s t sh fs' (fresults s)) d \<and>
      (durable_flag s d \<longrightarrow> durable_flag (moved s t sh fs' (fresults s)) d)"
    if "stable s (moved s t sh fs' (fresults s))"
    using that d by (auto simp: stable_def)
  have fr: "\<forall>f \<in> set fs'. f \<in> set (fstacks s t) \<or> frame_ok (moved s t sh fs' (fresults s)) f"
    if "\<And>j. k' = Some j \<Longrightarrow> frame_ok (moved s t sh fs' (fresults s)) (Help d j)"
    using sub that by blast
  show ?thesis unfolding s'
  proof (cases k)
    case (HShare w)
    then obtain w' where w: "changeShareValueWithoutFlush_step d w (fglob s) = (w', sh)" "k' = map_option HShare w'"
      using step by (cases "changeShareValueWithoutFlush_step d w (fglob s)") auto
    have dur: "durable_flag s d" using ok(2) HShare by simp
    show "good_step s (moved s t sh fs' (fresults s))"
    proof (rule share_step [OF inv d dur w(1) ni wf])
      assume "stable s (moved s t sh fs' (fresults s))"
      from stf [OF this] show "\<forall>f \<in> set fs'. f \<in> set (fstacks s t) \<or> frame_ok (moved s t sh fs' (fresults s)) f"
        using dur w(2) by (intro fr; cases w') auto
    qed (simp add: own)
  next
    case (HStatus j)
    then obtain j' where j: "persistSuccStatus_step d j (fglob s) = (j', sh)"
      "k' = Some (case j' of None \<Rightarrow> HTest2 | Some i \<Rightarrow> HStatus i)"
      using step by (cases "persistSuccStatus_step d j (fglob s)") (auto split: option.splits)
    have so: "status_ok s d j" using ok(2) HStatus by simp
    note st = status_step(1) [OF inv d(1) so j(1)]
      status_step(2) [OF inv d(1) so j(1), where t = t and fs = fs' and r = "fresults s"]
    show "good_step s (moved s t sh fs' (fresults s))"
    proof (rule quiet_good [OF inv st(1) ni wf])
      assume "stable s (moved s t sh fs' (fresults s))"
      from stf [OF this] show "\<forall>f \<in> set fs'. f \<in> set (fstacks s t) \<or> frame_ok (moved s t sh fs' (fresults s)) f"
        using st(2) j(2) by (intro fr) (auto split: option.splits)
    qed (simp add: own)
  qed (use own fr stf step ok(2) in \<open>auto intro!: quiet_good [OF inv _ ni wf] split: if_splits\<close>)
qed

lemma Read_step:
  assumes inv: "fasas_inv s" and stack: "fstacks s t = Read a k # fs"
  shows "good_step s (fframe_step s t (Read a k) fs)"
proof -
  note ok = inv_stack [OF inv stack]
  have a: "a \<in> set (fvars s)" and k: "k = FLoad" using ok(2) by simp_all
  have fs: "fs = []" using ok(1) by (auto elim: wf_stack.elims)
  show ?thesis
  proof (cases "IsCleanPtr (fmem (fglob s) a)")
    case True
    then have "fframe_step s t (Read a k) fs = moved s t (fglob s) [] ((t, ReadResult a (fmem (fglob s) a)) # fresults s)"
      by (simp add: fframe_step_def k fs Let_def read_checked_def moved_def)
    then show ?thesis
      by (simp only:) (rule quiet_good [OF inv], simp_all add: no_install_def owner_def)
  next
    case False
    then obtain d where d: "d \<in> set (fstarted s)" "fmem (fglob s) a = fdescptr d" "\<not> before_install s d"
      using inv_parts(1) [OF inv a] by (auto simp: good_var_def)
    then have gd: "good_desc s d" using inv_parts(2) [OF inv] by blast
    then have "fframe_step s t (Read a k) fs = moved s t (fglob s) [Help d HTest, Read a FLoad] (fresults s)"
      using fdescptr_tests [of d] by (simp add: fframe_step_def k fs Let_def d(2) moved_def good_desc_def)
    moreover have "\<not> before_install (moved s t sh [Help d HTest, Read a FLoad] r) d" for sh r
      using before_install_moved [of s "[Help d HTest, Read a FLoad]"] d(3) by (auto simp: no_install_def)
    ultimately show ?thesis using d a
      by (simp only:) (rule quiet_good [OF inv], simp_all add: no_install_def owner_def stack fs)
  qed
qed

text \<open>The steps of \<open>process\<close>.\<close>

lemma Proc_install:
  assumes inv: "fasas_inv s" and stack: "fstacks s t = [Proc d PInstall]"
  shows "good_step s (fframe_step s t (Proc d PInstall) [])"
proof -
  note ok = inv_stack [OF inv stack]
  have d: "d \<in> set (fstarted s)" using ok(2) by simp
  have gd: "good_desc s d" by (rule inv_parts(2) [OF inv d])
  have bi: "before_install s d" using stack by (auto simp: before_install_def intro!: exI [of _ t])
  let ?a = "faddr s d"
  let ?v = "fmem (fglob s) ?a" and ?old = "w_old_value (fdesc s d)"
  have oldc: "IsCleanPtr ?old" using gd by (simp add: good_desc_def)
  have past: "\<not> before_install (moved s t sh [Proc d pc] r) d" if "pc \<noteq> PInstall" "pc \<noteq> PFlushDesc" for sh pc r
    by (rule past_install [OF inv stack]) (use that in auto)
  show ?thesis
  proof (cases "IsMwCASDescriptorPtr ?v")
    case True
    then have nc: "\<not> IsCleanPtr ?v" "?v \<noteq> ?old" using clean_no_flags(1) oldc by metis+
    have "?a \<in> set (fvars s)" using gd by (simp add: good_desc_def)
    then obtain e where e: "e \<in> set (fstarted s)" "?v = fdescptr e" "\<not> before_install s e"
      using inv_parts(1) [OF inv] nc(1) by (auto simp: good_var_def)
    have "CleanPtr ?v = e" using inv_parts(2) [OF inv e(1)] fdescptr_tests(2) e(2) by (simp add: good_desc_def)
    then have s': "fframe_step s t (Proc d PInstall) [] =
        moved s t (fglob s) [Help e HTest, Proc d PInstall] (fresults s)"
      using True nc by (simp add: fframe_step_def fcas_def Let_def moved_def)
    have ni: "no_install s [Help e HTest, Proc d PInstall]" using bi by (auto simp: no_install_def)
    have "\<not> before_install (moved s t sh [Help e HTest, Proc d PInstall] r) e" for sh r
      using before_install_moved [OF ni] e(3) by blast
    then show ?thesis unfolding s'
      by (intro quiet_good [OF inv _ ni]) (use d e(1) in \<open>simp_all add: owner_def stack\<close>)
  next
    case False
    show ?thesis
    proof (cases "?v = ?old")
      case True
      define sh where "sh = (fglob s)\<lparr>fmem := (fmem (fglob s))(?a := fdescptr d)\<rparr>"
      have s': "fframe_step s t (Proc d PInstall) [] = moved s t sh [Proc d PFlush] (fresults s)"
        using True False by (simp add: fframe_step_def fcas_def Let_def moved_def sh_def)
      have np: "\<not> before_install (moved s t sh [Proc d PFlush] (fresults s)) d" by (rule past) simp_all
      have k: "keeps s (moved s t sh [Proc d PFlush] (fresults s))"
        by (rule write_keeps [OF inv d _ sh_def]) (use bi np in \<open>simp_all add: no_install_def\<close>)
      have "fasas_inv (moved s t sh [Proc d PFlush] (fresults s))"
        by (rule inv_moved [OF inv k]) (use d np in \<open>simp_all add: owner_def stack\<close>)
      moreover have "installs s (moved s t sh [Proc d PFlush] (fresults s)) d"
        using d bi np True by (simp add: installs_def sh_def)
      ultimately show ?thesis using k unfolding s' good_step_def keeps_def by blast
    next
      case ne: False
      have s': "fframe_step s t (Proc d PInstall) [] = moved s t (fglob s) [Proc d (PCleanup False)] (fresults s)"
        using ne False by (simp add: fframe_step_def fcas_def Let_def moved_def)
      show ?thesis unfolding s'
        by (intro quiet_good [OF inv]) (use d past in \<open>simp_all add: owner_def stack no_install_def\<close>)
    qed
  qed
qed

lemma Proc_step:
  assumes inv: "fasas_inv s" and stack: "fstacks s t = Proc d pc # fs"
  shows "good_step s (fframe_step s t (Proc d pc) fs)"
proof -
  note ok = inv_stack [OF inv stack]
  have fs: "fs = []" using ok(1) by (auto elim: wf_stack.elims)
  have d: "d \<in> set (fstarted s)" using ok(2) by simp
  have gd: "good_desc s d" by (rule inv_parts(2) [OF inv d])
  have past: "\<not> before_install (moved s t sh [Proc d pc'] r) d" if "pc' \<noteq> PInstall" "pc' \<noteq> PFlushDesc" for sh pc' r
    by (rule past_install [OF inv stack [unfolded fs]]) (use that in auto)
  have go: "good_step s (moved s t sh [Proc d pc'] r)"
    if "quiet s sh" "pc' \<noteq> PFlushDesc" "pc' = PInstall \<Longrightarrow> pc = PFlushDesc"
      "stable s (moved s t sh [Proc d pc'] r) \<Longrightarrow> frame_ok (moved s t sh [Proc d pc'] r) (Proc d pc')" for sh pc' r
  proof (rule quiet_good [OF inv that(1)])
    show "no_install s [Proc d pc']"
      using that(2,3) stack by (auto simp: no_install_def before_install_def intro!: exI [of _ t])
  qed (use that(4) in \<open>simp_all add: owner_def stack fs\<close>)
  have stf: "(durable_flag s d \<longrightarrow> durable_flag s' d) \<and> (\<not> before_install s d \<longrightarrow> \<not> installed s d \<longrightarrow> \<not> installed s' d)"
    if "stable s s'" for s'
    using that d by (auto simp: stable_def)
  show ?thesis
  proof (cases pc)
    case PInstall
    then show ?thesis using Proc_install [OF inv] stack fs by simp
  next
    case (PStatus k)
    then obtain k' sh where j: "persistSuccStatus_step d k (fglob s) = (k', sh)" by force
    have so: "status_ok s d k" using ok(2) PStatus by simp
    define pc' where "pc' = (case k' of None \<Rightarrow> PShare WLoad | Some i \<Rightarrow> PStatus i)"
    have s': "fframe_step s t (Proc d pc) fs = moved s t sh [Proc d pc'] (fresults s)"
      by (simp add: fframe_step_def PStatus j moved_def fs pc'_def split: option.splits)
    note st = status_step(1) [OF inv d so j]
      status_step(2) [OF inv d so j, where t = t and fs = "[Proc d pc']" and r = "fresults s"]
    show ?thesis unfolding s'
      by (rule go [OF st(1)]) (use st(2) d past in \<open>auto simp: pc'_def split: option.splits\<close>)
  next
    case (PShare k)
    then obtain k' sh where j: "changeShareValueWithoutFlush_step d k (fglob s) = (k', sh)" by force
    have o: "\<not> before_install s d" "durable_flag s d" using ok(2) PShare by simp_all
    define pc' where "pc' = (case k' of None \<Rightarrow> PStore | Some i \<Rightarrow> PShare i)"
    have s': "fframe_step s t (Proc d pc) fs = moved s t sh [Proc d pc'] (fresults s)"
      by (simp add: fframe_step_def PShare j moved_def fs pc'_def split: option.splits)
    have ne: "pc' \<noteq> PInstall" "pc' \<noteq> PFlushDesc" by (auto simp: pc'_def split: option.splits)
    show ?thesis unfolding s'
    proof (rule share_step [OF inv d o j])
      show "\<forall>f \<in> set [Proc d pc']. f \<in> set (fstacks s t) \<or> frame_ok (moved s t sh [Proc d pc'] (fresults s)) f"
        if "stable s (moved s t sh [Proc d pc'] (fresults s))"
          "k' = None \<Longrightarrow> \<not> installed (moved s t sh [Proc d pc'] (fresults s)) d"
        using that d o past [OF ne] stf [OF that(1)] by (auto simp: pc'_def split: option.splits)
    qed (use ne in \<open>simp_all add: no_install_def owner_def stack fs\<close>)
  next
    case PMark
    let ?c = "getPrivateAddress (fdesc s d)"
    have q: "quiet s (set_private (fglob s) d (?c OR StatusFlg OR IsPrivateValueSetFlg))"
      by (rule quiet_set_private [OF d])
        (simp_all add: fasas_flags getPrivateAddress_clean or.assoc [symmetric])
    have s': "fframe_step s t (Proc d pc) fs =
        moved s t (set_private (fglob s) d (?c OR StatusFlg OR IsPrivateValueSetFlg)) [Proc d PMarkFlush] (fresults s)"
      by (simp add: fframe_step_def PMark moved_def fs)
    show ?thesis unfolding s' by (rule go [OF q]) (use ok(2) PMark d past stf in auto)
  next
    case (PCleanup b)
    have "fframe_step s t (Proc d pc) fs = moved s t (fglob s) [] ((t, ProcResult d b) # fresults s)"
      by (simp add: fframe_step_def PCleanup moved_def fs)
    then show ?thesis by (simp only:) (rule quiet_good [OF inv], simp_all add: no_install_def owner_def)
  next
    case PFlushDesc
    have s': "fframe_step s t (Proc d pc) fs = moved s t (fflush_desc (fglob s) d) [Proc d PInstall] (fresults s)"
      by (simp add: fframe_step_def PFlushDesc moved_def fs)
    show ?thesis unfolding s' by (rule go) (use d PFlushDesc in simp_all)
  next
    case PFlush
    have s': "fframe_step s t (Proc d pc) fs =
        moved s t (fflush (fglob s) (faddr s d)) [Proc d (PStatus SLoad)] (fresults s)"
      by (simp add: fframe_step_def PFlush moved_def fs)
    show ?thesis unfolding s' by (rule go) (use d past in \<open>simp_all add: status_ok_def\<close>)
  next
    case PStore
    have s': "fframe_step s t (Proc d pc) fs = moved s t
        ((fglob s)\<lparr>fmem := (fmem (fglob s))(getPrivateAddress (fdesc s d) := private_value (fdesc s d))\<rparr>)
        [Proc d PStoreFlush] (fresults s)"
      by (simp add: fframe_step_def PStore moved_def fs)
    show ?thesis unfolding s' by (rule go [OF quiet_private [OF inv d]]) (use ok(2) PStore d past stf in auto)
  next
    case PStoreFlush
    have s': "fframe_step s t (Proc d pc) fs =
        moved s t (fflush (fglob s) (getPrivateAddress (fdesc s d))) [Proc d PMark] (fresults s)"
      by (simp add: fframe_step_def PStoreFlush moved_def fs)
    show ?thesis unfolding s' by (rule go) (use ok(2) PStoreFlush d past stf in auto)
  next
    case PMarkFlush
    have s': "fframe_step s t (Proc d pc) fs =
        moved s t (fflush_private (fglob s) d) [Proc d (PCleanup True)] (fresults s)"
      by (simp add: fframe_step_def PMarkFlush moved_def fs)
    show ?thesis unfolding s' by (rule go) (use ok(2) PMarkFlush d past stf in auto)
  qed
qed

section \<open>All events\<close>

definition fstep :: "fsys \<Rightarrow> fsys \<Rightarrow> bool" where
  "fstep s s' \<longleftrightarrow> (\<exists>e. fexec e s = Some s')"

definition finit :: "fsys \<Rightarrow> bool" where
  "finit s \<longleftrightarrow> (\<forall>t. fstacks s t = []) \<and> fstarted s = [] \<and> fresults s = [] \<and> faborted s = None \<and>
     (\<forall>a \<in> set (fvars s). IsCleanPtr (fmem (fglob s) a)) \<and>
     (\<forall>d. privateAddress (fdesc s d) = 0 \<and> privateAddress (fpdescs (fglob s) d) = 0)"

lemma finit_inv: "finit s \<Longrightarrow> fasas_inv s"
  by (auto simp: finit_def fasas_inv_def good_var_def owner_def fresh_durable_def decided_flag_def durable_flag_def
      IsCondCASDescriptorPtr_def)

lemma start_good:
  assumes inv: "fasas_inv s" and idle: "fstacks s t = []" and may: "fmay_start s d a old new op priv"
  shows "good_step s (fstart s t d a old new op priv)"
proof -
  let ?s = "fstart s t d a old new op priv"
  have d: "d \<notin> set (fstarted s)" using may by (simp add: fmay_start_def)
  have other: "fdesc ?s e = fdesc s e" if "e \<in> set (fstarted s)" for e using d that by (auto simp: fstart_def)
  have bi: "before_install ?s e \<longleftrightarrow> before_install s e" if "e \<in> set (fstarted s)" for e
  proof -
    have ne: "e \<noteq> d" using d that by auto
    have "Proc e k \<in> set (fstacks ?s u) \<longleftrightarrow> Proc e k \<in> set (fstacks s u)" for k u
      using ne idle by (auto simp: fstart_def)
    then show ?thesis by (simp add: before_install_def)
  qed
  have st: "stable s ?s"
    unfolding stable_def using other bi by (auto simp: fstart_def decided_flag_def durable_flag_def installed_def)
  have fresh: "fresh_durable s" using inv by (simp add: fasas_inv_def)
  have gv: "good_var ?s x" if "x \<in> set (fvars s)" for x
    using inv_parts(1) [OF inv that] other bi by (auto simp: good_var_def fstart_def)
  have gd: "good_desc ?s e" if "e \<in> set (fstarted ?s)" for e
  proof (cases "e = d")
    case True
    then show ?thesis
      using may fresh d by (auto simp: good_desc_def fmay_start_def fstart_def addSharedWord_def setPrivateAddress_def
          setOpType_def decided_flag_def durable_flag_def fresh_durable_def)
  next
    case False
    then have e: "e \<in> set (fstarted s)" using that by (simp add: fstart_def)
    then show ?thesis using inv_parts(2) [OF inv e] other [OF e]
      by (simp add: good_desc_def decided_flag_def durable_flag_def) (simp add: fstart_def)
  qed
  have "fresh_durable ?s" using fresh d by (auto simp: fresh_durable_def decided_flag_def durable_flag_def fstart_def)
  moreover have fr: "wf_stack (fstacks ?s u) \<and> (\<forall>f \<in> set (fstacks ?s u). frame_ok ?s f)" for u
  proof (cases "u = t")
    case True
    then show ?thesis by (simp add: fstart_def)
  next
    case False
    then have "fstacks ?s u = fstacks s u" by (simp add: fstart_def)
    moreover have "wf_stack (fstacks s u) \<and> (\<forall>f \<in> set (fstacks s u). frame_ok s f)"
      using inv unfolding fasas_inv_def by blast
    ultimately show ?thesis using frame_ok_stable [OF st] by auto
  qed
  moreover have "u = u'" if "owner (fstacks ?s u) = Some e" "owner (fstacks ?s u') = Some e" for u u' e
  proof -
    have nod: "owner (fstacks s v) \<noteq> Some d" for v
    proof
      assume o: "owner (fstacks s v) = Some d"
      then obtain pc where "Proc d pc \<in> set (fstacks s v)"
        by (auto simp: owner_def split: if_splits fframe.splits) (metis last_in_set)
      moreover have "\<forall>f \<in> set (fstacks s v). frame_ok s f" using inv unfolding fasas_inv_def by blast
      ultimately show False using d by auto
    qed
    have "owner (fstacks ?s v) = (if v = t then Some d else owner (fstacks s v))" for v
      by (simp add: fstart_def owner_def)
    then show ?thesis using that nod inv unfolding fasas_inv_def by (metis option.inject)
  qed
  moreover have "faborted ?s = None" using inv by (simp add: fasas_inv_def fstart_def)
  moreover have "fvars ?s = fvars s" by (simp add: fstart_def)
  ultimately have "fasas_inv ?s" using gv gd unfolding fasas_inv_def by auto
  moreover have "silent s ?s" by (simp add: silent_def fstart_def)
  ultimately show ?thesis using st by (simp add: good_step_def)
qed

lemma moved_same: "s\<lparr>fglob := sh\<rparr> = moved s t sh (fstacks s t) (fresults s)"
  by (simp add: moved_def)

lemma evict_good:
  assumes "fasas_inv s" and "quiet s sh"
  shows "good_step s (s\<lparr>fglob := sh\<rparr>)"
  unfolding moved_same [where t = 0]
proof (rule quiet_good [OF assms])
  show "no_install s (fstacks s 0)" by (auto simp: no_install_def before_install_def)
  show "wf_stack (fstacks s 0)" using assms(1) unfolding fasas_inv_def by blast
qed simp_all

lemma fexec_good:
  assumes inv: "fasas_inv s" and step: "fstep s s'"
  shows "good_step s s'"
proof -
  obtain e where e: "fexec e s = Some s'" using step by (auto simp: fstep_def)
  have na: "faborted s = None" using inv by (simp add: fasas_inv_def)
  show ?thesis
  proof (cases e)
    case (FRun t)
    then obtain f fs where f: "fstacks s t = f # fs" "s' = fframe_step s t f fs"
      using e na by (auto simp: fexec_def split: list.splits)
    then show ?thesis using Proc_step [OF inv] Help_step [OF inv] Read_step [OF inv] by (cases f) auto
  next
    case (FStart t d a old new op priv)
    then show ?thesis using e na start_good [OF inv] by (auto simp: fexec_def split: if_splits)
  next
    case (FStartRead t a)
    then have a: "fstacks s t = []" "a \<in> set (fvars s)" "s' = moved s t (fglob s) [Read a FLoad] (fresults s)"
      using e na by (auto simp: fexec_def moved_def split: if_splits)
    show ?thesis unfolding a(3)
      by (rule quiet_good [OF inv]) (use a(1,2) in \<open>simp_all add: no_install_def owner_def\<close>)
  next
    case (FEvict a)
    then have "s' = s\<lparr>fglob := fflush (fglob s) a\<rparr>" using e na by (simp add: fexec_def)
    then show ?thesis using evict_good [OF inv] by simp
  next
    case (FEvictDesc d)
    then have "s' = s\<lparr>fglob := fflush_desc (fglob s) d\<rparr>" using e na by (simp add: fexec_def)
    then show ?thesis using evict_good [OF inv] by simp
  qed
qed

interpretation fa: invariant_system finit fstep fasas_inv
proof
  show "fasas_inv s" if "finit s" for s by (rule finit_inv [OF that])
  show "fasas_inv s'" if "fasas_inv s" "fstep s s'" for s s'
    using fexec_good [OF that] by (simp add: good_step_def)
qed

end
