(* ===== verification/Fasas_Theorems.thy ===== *)
theory Fasas_Theorems
  imports Fasas_Inv
begin

text \<open>
  The properties of the fetch-and-store-and-store operations: atomicity on the shared words and the
  order of the status bit, at most one effect per operation, what reads return, what one operation
  does when it runs alone, and what recovery does with a decided operation.
\<close>

abbreviation freachable :: "fsys \<Rightarrow> bool" where
  "freachable s \<equiv> reach finit fstep s"

text \<open>The value of a shared word: under a descriptor it is still the old one.\<close>

definition fabs :: "fsys \<Rightarrow> u64 \<Rightarrow> u64" where
  "fabs s a = (let v = fmem (fglob s) a in
     if IsMwCASDescriptorPtr v then w_old_value (fdesc s (CleanPtr v)) else v)"

lemma fabs_cases:
  assumes "fasas_inv s" and "a \<in> set (fvars s)"
  obtains (clean) "IsCleanPtr (fmem (fglob s) a)" "fabs s a = fmem (fglob s) a"
    | (desc) d where "d \<in> set (fstarted s)" "fmem (fglob s) a = fdescptr d" "faddr s d = a"
        "\<not> before_install s d" "fabs s a = w_old_value (fdesc s d)"
proof -
  from inv_parts(1) [OF assms] consider "IsCleanPtr (fmem (fglob s) a)"
    | d where "d \<in> set (fstarted s)" "fmem (fglob s) a = fdescptr d" "faddr s d = a" "\<not> before_install s d"
    by (auto simp: good_var_def)
  then show thesis
  proof cases
    case 1
    then show thesis using clean by (simp add: fabs_def Let_def)
  next
    case (2 d)
    have "IsCleanPtr d" using inv_parts(2) [OF assms(1) 2(1)] by (simp add: good_desc_def)
    then show thesis using desc [OF 2] fdescptr_tests [of d] 2(2) by (simp add: fabs_def Let_def)
  qed
qed

lemma fabs_same:
  assumes "fasas_inv s" and "stable s s'" and "a \<in> set (fvars s)" and "fmem (fglob s') a = fmem (fglob s) a"
  shows "fabs s' a = fabs s a"
proof (rule fabs_cases [OF assms(1,3)])
  fix d assume d: "d \<in> set (fstarted s)" "fmem (fglob s) a = fdescptr d" "fabs s a = w_old_value (fdesc s d)"
  have "IsCleanPtr d" using inv_parts(2) [OF assms(1) d(1)] by (simp add: good_desc_def)
  then show ?thesis using assms(2,4) d fdescptr_tests [of d] by (simp add: fabs_def Let_def stable_def)
qed (use assms(4) in \<open>simp add: fabs_def Let_def\<close>)

section \<open>Properties\<close>

text \<open>
  C26: Atomicity. In every interleaving of operations, helpers, reads and cache evictions, a step leaves the
  value of every shared word unchanged, or it completes exactly one operation: the word of an
  installed descriptor goes from its old to its new value, all other words stay, and at that moment
  the success bit of the operation is already durable.
\<close>

theorem fasas_atomic:
  assumes "freachable s" and "fstep s s'"
  shows "(\<forall>a \<in> set (fvars s). fabs s' a = fabs s a) \<or>
    (\<exists>d \<in> set (fstarted s). installed s d \<and> \<not> installed s' d \<and> durable_flag s d \<and>
       fabs s (faddr s d) = w_old_value (fdesc s d) \<and>
       (\<forall>a \<in> set (fvars s). fabs s' a = ((fabs s)(faddr s d := w_new_value (fdesc s d))) a))"
proof -
  have inv: "fasas_inv s" by (rule fa.reach_inv [OF assms(1)])
  have good: "fasas_inv s'" "stable s s'" "silent s s' \<or> (\<exists>d. installs s s' d) \<or> (\<exists>d. removes s s' d)"
    using fexec_good [OF inv assms(2)] by (simp_all add: good_step_def)
  note same = fabs_same [OF inv good(2)]
  from good(3) consider "silent s s'" | d where "installs s s' d" | d where "removes s s' d" by blast
  then show ?thesis
  proof cases
    case 1
    then show ?thesis using same by (simp add: silent_def)
  next
    case (2 d)
    have d: "d \<in> set (fstarted s)" using 2 by (simp add: installs_def)
    note gd = inv_parts(2) [OF inv d]
    have v: "fmem (fglob s) (faddr s d) = w_old_value (fdesc s d)"
      "fmem (fglob s') = (fmem (fglob s))(faddr s d := fdescptr d)"
      using 2 by (simp_all add: installs_def)
    have "w_old_value (fdesc s' d) = w_old_value (fdesc s d)" using good(2) d by (simp add: stable_def)
    then have "fabs s' (faddr s d) = w_old_value (fdesc s d)"
      using fdescptr_tests [of d] gd by (simp add: fabs_def Let_def v(2) good_desc_def)
    moreover have "fabs s (faddr s d) = w_old_value (fdesc s d)"
      using gd by (simp add: fabs_def Let_def v(1) good_desc_def)
    ultimately have "fabs s' a = fabs s a" if "a \<in> set (fvars s)" for a
      using same [OF that] v(2) by (cases "a = faddr s d") auto
    then show ?thesis by blast
  next
    case (3 d)
    have d: "d \<in> set (fstarted s)" "installed s d" "durable_flag s d" using 3 by (simp_all add: removes_def)
    have v: "fmem (fglob s') = (fmem (fglob s))(faddr s d := w_new_value (fdesc s d))"
      using 3 by (simp add: removes_def)
    note gd = inv_parts(2) [OF inv d(1)]
    have new: "IsCleanPtr (w_new_value (fdesc s d))" "IsCleanPtr d" using gd by (simp_all add: good_desc_def)
    have "faddr s' d = faddr s d" using good(2) d(1) by (simp add: stable_def)
    then have "\<not> installed s' d" using v new fdescptr_tests(3) by (auto simp: installed_def)
    moreover have "fabs s (faddr s d) = w_old_value (fdesc s d)"
      using d(2) new(2) fdescptr_tests [of d] by (simp add: fabs_def Let_def installed_def)
    moreover have "fabs s' a = ((fabs s)(faddr s d := w_new_value (fdesc s d))) a" if "a \<in> set (fvars s)" for a
      using same [OF that] v new(1) by (cases "a = faddr s d") (auto simp: fabs_def Let_def)
    ultimately show ?thesis using d by blast
  qed
qed

definition fsample :: fsys where
  "fsample = \<lparr>fglob = \<lparr>fmem = (\<lambda>_. 0), fnvm = (\<lambda>_. 0), fdescs = (\<lambda>_. (new_FASASDescriptor 0)),
       fpdescs = (\<lambda>_. (new_FASASDescriptor 0))\<rparr>, fstacks = (\<lambda>_. []), fstarted = [], fvars = [512],
     fresults = [], faborted = None\<rparr>"

text \<open>Thread 0 starts a fetch-store-store of 512 from 0 to 7 with its result at 640.\<close>

definition fsample_start :: "fevent list" where
  "fsample_start = [FStart 0 4096 512 0 7 FASASOp 640]"

lemma fsample_init: "finit fsample"
  by (simp add: finit_def fsample_def new_FASASDescriptor_def IsCleanPtr_def)

lemma fexec_all_reach: "freachable s \<Longrightarrow> fexec_all es s = Some s' \<Longrightarrow> freachable s'"
proof (induction es arbitrary: s)
  case (Cons e es)
  then obtain s1 where s1: "fexec e s = Some s1" "fexec_all es s1 = Some s'" by (auto split: option.splits)
  then have "fstep s s1" by (auto simp: fstep_def)
  then show ?case using Cons.IH [OF reach_step] Cons.prems(1) s1(2) by blast
qed simp

text \<open>The state before and after the step that removes the descriptor from the shared word.\<close>

definition fbefore :: "fsys option" where
  "fbefore = fexec_all (fsample_start @ replicate 9 (FRun 0)) fsample"

theorem fasas_atomic_witness:
  "\<exists>s s'. fbefore = Some s \<and> fexec (FRun 0) s = Some s' \<and> fabs s 512 = 0 \<and> fabs s' 512 = 7 \<and> durable_flag s 4096"
proof -
  have e: "map_option (\<lambda>s. (fabs s 512, fvars s, fstarted s, faddr s 4096, w_new_value (fdesc s 4096),
      map_option (\<lambda>s'. fabs s' 512) (fexec (FRun 0) s))) fbefore = Some (0, [512], [4096], 512, 7, Some 7)"
    by code_simp
  then obtain s s' where s: "fbefore = Some s" "fexec (FRun 0) s = Some s'" "fabs s 512 = 0" "fabs s' 512 = 7"
    "fvars s = [512]" "fstarted s = [4096]"
    by auto
  have "freachable s"
    using fexec_all_reach [OF reach_init [where init = finit, OF fsample_init]] s(1) by (simp add: fbefore_def)
  moreover have "fstep s s'" using s(2) by (auto simp: fstep_def)
  ultimately have "durable_flag s 4096" using fasas_atomic [of s s'] s(3-6) by auto
  then show ?thesis using s by blast
qed

text \<open>
  C27: An operation takes effect at most once. After its owner has passed the point of installation and
  the descriptor is not in its word, it never enters the word again, whatever late helpers do; and
  the owner reports success only in such a state, with the success bit durable.
\<close>

theorem fasas_once:
  assumes "freachable s" and "d \<in> set (fstarted s)"
  shows "(\<not> before_install s d \<longrightarrow> \<not> installed s d \<longrightarrow> fstep\<^sup>*\<^sup>* s s' \<longrightarrow> \<not> installed s' d) \<and>
    (Proc d (PCleanup True) \<in> set (fstacks s t) \<longrightarrow>
       \<not> before_install s d \<and> \<not> installed s d \<and> durable_flag s d)"
proof (intro conjI impI)
  have inv: "fasas_inv s" by (rule fa.reach_inv [OF assms(1)])
  have st: "stable x y" if "fasas_inv x" "fstep x y" for x y
    using fexec_good [OF that] by (simp add: good_step_def)
  define R where "R x y \<longleftrightarrow> set (fstarted x) \<subseteq> set (fstarted y) \<and> (\<forall>d \<in> set (fstarted x).
      \<not> before_install x d \<and> \<not> installed x d \<longrightarrow> \<not> before_install y d \<and> \<not> installed y d)" for x y
  assume "\<not> before_install s d" "\<not> installed s d" "fstep\<^sup>*\<^sup>* s s'"
  moreover have "R s s'" if "fstep\<^sup>*\<^sup>* s s'"
  proof (rule fa.steps_rel [OF _ _ _ inv that])
    show "R x y" if "fasas_inv x" "fstep x y" for x y using st [OF that] by (auto simp: R_def stable_def)
  qed (auto simp: R_def)
  ultimately show "\<not> installed s' d" using assms(2) by (auto simp: R_def)
next
  have inv: "fasas_inv s" by (rule fa.reach_inv [OF assms(1)])
  assume "Proc d (PCleanup True) \<in> set (fstacks s t)"
  then have "frame_ok s (Proc d (PCleanup True))" using inv unfolding fasas_inv_def by blast
  then show "\<not> before_install s d" "\<not> installed s d" "durable_flag s d" by simp_all
qed

theorem fasas_once_witness:
  "\<exists>s. fexec_all (fsample_start @ replicate 14 (FRun 0)) fsample = Some s \<and>
     Proc 4096 (PCleanup True) \<in> set (fstacks s 0) \<and> \<not> installed s 4096 \<and> durable_flag s 4096"
proof -
  have "map_option (\<lambda>s. (Proc 4096 (PCleanup True) \<in> set (fstacks s 0), fstarted s))
      (fexec_all (fsample_start @ replicate 14 (FRun 0)) fsample) = Some (True, [4096])" by code_simp
  then obtain s where s: "fexec_all (fsample_start @ replicate 14 (FRun 0)) fsample = Some s"
    "Proc 4096 (PCleanup True) \<in> set (fstacks s 0)" "fstarted s = [4096]" by auto
  have "freachable s" by (rule fexec_all_reach [OF reach_init [where init = finit, OF fsample_init] s(1)])
  then show ?thesis using fasas_once [of s 4096 s 0] s by auto
qed

text \<open>
  Reading a shared word. No check ever fires; a step of a read either returns the value of the
  word or starts to help the operation whose descriptor it found, and no flag bit reaches the caller.
\<close>

theorem fasas_read:
  assumes "freachable s" and "fstacks s t = Read a k # fs"
  shows "faborted s = None \<and>
    (fframe_step s t (Read a k) fs =
       s\<lparr>fstacks := (fstacks s)(t := []), fresults := (t, ReadResult a (fabs s a)) # fresults s\<rparr> \<and> IsCleanPtr (fabs s a) \<or>
     (\<exists>d \<in> set (fstarted s). fmem (fglob s) a = fdescptr d \<and> faddr s d = a \<and>
       fframe_step s t (Read a k) fs = s\<lparr>fstacks := (fstacks s)(t := [Help d HTest, Read a FLoad])\<rparr>))"
proof -
  have inv: "fasas_inv s" by (rule fa.reach_inv [OF assms(1)])
  note ok = inv_stack [OF inv assms(2)]
  have a: "a \<in> set (fvars s)" and k: "k = FLoad" using ok(2) by simp_all
  have fs: "fs = []" using ok(1) by (auto elim: wf_stack.elims)
  have na: "faborted s = None" using inv by (simp add: fasas_inv_def)
  show ?thesis
  proof (rule fabs_cases [OF inv a])
    assume "IsCleanPtr (fmem (fglob s) a)" "fabs s a = fmem (fglob s) a"
    then show ?thesis using na by (simp add: fframe_step_def k fs Let_def read_checked_def)
  next
    fix d assume d: "d \<in> set (fstarted s)" "fmem (fglob s) a = fdescptr d" "faddr s d = a"
    have "IsCleanPtr d" "d \<noteq> 0" using inv_parts(2) [OF inv d(1)] by (simp_all add: good_desc_def)
    then show ?thesis using na d fdescptr_tests [of d] by (auto simp: fframe_step_def k fs Let_def)
  qed
qed

theorem fasas_read_witness:
  "\<exists>s. fexec_all [FStartRead 0 512] fsample = Some s \<and> fstacks s 0 = [Read 512 FLoad] \<and> IsCleanPtr (fabs s 512)"
proof -
  have "map_option (\<lambda>s. (fstacks s 0, IsMwCASDescriptorPtr (fmem (fglob s) 512))) (fexec_all [FStartRead 0 512] fsample) =
      Some ([Read 512 FLoad], False)" by code_simp
  then obtain s where s: "fexec_all [FStartRead 0 512] fsample = Some s" "fstacks s 0 = [Read 512 FLoad]"
    "\<not> IsMwCASDescriptorPtr (fmem (fglob s) 512)" by auto
  have r: "freachable s" by (rule fexec_all_reach [OF reach_init [where init = finit, OF fsample_init] s(1)])
  have "fmem (fglob s) 512 \<noteq> fdescptr d" if "d \<in> set (fstarted s)" for d
    using s(3) inv_parts(2) [OF fa.reach_inv [OF r] that] fdescptr_tests(1) by (auto simp: good_desc_def)
  then show ?thesis using fasas_read [OF r s(2)] s by auto
qed

fun process_alone :: "nat \<Rightarrow> u64 \<Rightarrow> fpc \<Rightarrow> fshared \<Rightarrow> (bool \<times> fshared) option" where
  "process_alone 0 d pc sh = None"
| "process_alone (Suc n) d pc sh =
     (case process_step d pc sh of
        FGoto pc' sh' \<Rightarrow> process_alone n d pc' sh'
      | FHelp d' pc' sh' \<Rightarrow> None
      | FReturn b sh' \<Rightarrow> Some (b, sh'))"

lemma process_alone_numeral [simp]:
  "process_alone (numeral k) d pc sh =
     (case process_step d pc sh of
        FGoto pc' sh' \<Rightarrow> process_alone (pred_numeral k) d pc' sh'
      | FHelp d' pc' sh' \<Rightarrow> None
      | FReturn b sh' \<Rightarrow> Some (b, sh'))"
  by (simp add: numeral_eq_Suc)

text \<open>
  One operation alone. Without interference \<open>process\<close> ends within 15 steps. If the shared word holds
  the old value, it succeeds: the shared word gets the new value, the private word 1, the given value or
  the old value according to the kind of the operation, and both status bits are set and durable.
  If the word holds another value without flags, it fails and memory is unchanged.
\<close>

theorem fasas_alone:
  assumes "IsCleanPtr d" and "privateAddress w = p" and "IsCleanPtr p" and "p \<noteq> w_address w" and "fdescs sh d = w"
    and "IsCleanPtr (w_old_value w)"
  shows "(fmem sh (w_address w) = w_old_value w \<longrightarrow> (\<exists>sh'. process_alone 15 d PFlushDesc sh = Some (True, sh') \<and>
      fmem sh' = (fmem sh)(w_address w := w_new_value w, p := private_value w) \<and>
      fnvm sh' p = private_value w \<and>
      privateAddress (fpdescs sh' d) = p OR StatusFlg OR IsPrivateValueSetFlg)) \<and>
    (fmem sh (w_address w) \<noteq> w_old_value w \<longrightarrow> IsCleanPtr (fmem sh (w_address w)) \<longrightarrow>
      (\<exists>sh'. process_alone 15 d PFlushDesc sh = Some (False, sh') \<and> fmem sh' = fmem sh))"
proof -
  have c: "CleanPtr p = p" "getPrivateAddress w = p" "\<And>q. getPrivateAddress (w\<lparr>privateAddress := p OR StatusFlg\<rparr>) = p"
    using assms(2,3) by (simp_all add: getPrivateAddress_clean fasas_flags)
  have pv: "private_value (w\<lparr>privateAddress := q\<rparr>) = private_value w" for q by (simp add: private_value_def)
  have nomw: "\<not> IsMwCASDescriptorPtr (w_old_value w)" using assms(6) by simp
  note steps = fcas_def fflush_def fflush_desc_def fflush_private_def set_private_def private_value_set_never
  show ?thesis
    using assms(1-5) nomw c pv by (auto simp: steps Let_def)
qed

theorem fasas_alone_witness:
  "\<exists>sh'. process_alone 15 4096 PFlushDesc
      ((fglob fsample)\<lparr>fdescs := (\<lambda>_. setPrivateAddress (addSharedWord (new_FASASDescriptor 0) 512 0 7) 640)\<rparr>) = Some (True, sh') \<and>
    fmem sh' 512 = 7 \<and> fmem sh' 640 = 0"
proof -
  let ?w = "setPrivateAddress (addSharedWord (new_FASASDescriptor 0) 512 0 7) 640"
  let ?sh = "(fglob fsample)\<lparr>fdescs := (\<lambda>_. ?w)\<rparr>"
  have h: "IsCleanPtr 4096" "IsCleanPtr 640" "IsCleanPtr 0" "private_value ?w = 0" by code_simp+
  have w: "privateAddress ?w = 640" "w_address ?w = 512" "w_old_value ?w = 0" "w_new_value ?w = 7"
    "fmem ?sh 512 = 0" "fdescs ?sh 4096 = ?w"
    by (simp_all add: setPrivateAddress_def addSharedWord_def fsample_def)
  show ?thesis using fasas_alone [of 4096 ?w 640 ?sh] h w by auto
qed

text \<open>
  C28: Recovery ignores decided operations. The status that \<open>getStatus\<close> returns is 0 or the single bit
  \<open>StatusFlg\<close>, and \<open>recoverForFASAS\<close> compares it with 1; so for an operation whose success bit is durable
  the routine changes nothing, neither the private word nor the pointer in the shared word.
\<close>

theorem fasas_recovery_skips_success:
  assumes "IsCondCASDescriptorPtr (privateAddress d)"
  shows "recoverForFASAS (getStatus d) self d m = m"
proof -
  have "getStatus d \<noteq> FailedStatus" using assms by (simp add: getStatus_failed)
  then show ?thesis using status_never_succ [of d] by (simp add: recoverForFASAS_def Let_def)
qed

text \<open>An operation that returned success, a crash, and recovery: the shared word still holds the pointer.\<close>

theorem fasas_recovery_skips_success_witness:
  "\<exists>s m. fexec_all (fsample_start @ replicate 15 (FRun 0)) fsample = Some s \<and>
     fresults s = [(0, ProcResult 4096 True)] \<and> fabs s 512 = 7 \<and>
     recover_fasas 0 [(4096, fpdescs (fglob s) 4096)] (fnvm (fglob s)) = Inr m \<and> m 512 = fdescptr 4096"
proof -
  have "map_option (\<lambda>s. (fresults s, fabs s 512, fnvm (fglob s) 512 = fdescptr 4096,
      opType (fpdescs (fglob s) 4096) = 0, privateAddress (fpdescs (fglob s) 4096) = 0,
      IsCondCASDescriptorPtr (privateAddress (fpdescs (fglob s) 4096))))
      (fexec_all (fsample_start @ replicate 15 (FRun 0)) fsample) =
      Some ([(0, ProcResult 4096 True)], 7, True, False, False, True)" by code_simp
  then obtain s where s: "fexec_all (fsample_start @ replicate 15 (FRun 0)) fsample = Some s"
    "fresults s = [(0, ProcResult 4096 True)]" "fabs s 512 = 7" "fnvm (fglob s) 512 = fdescptr 4096"
    "opType (fpdescs (fglob s) 4096) \<noteq> 0" "privateAddress (fpdescs (fglob s) 4096) \<noteq> 0"
    "IsCondCASDescriptorPtr (privateAddress (fpdescs (fglob s) 4096))"
    by auto
  have "recover_fasas 0 [(4096, fpdescs (fglob s) 4096)] (fnvm (fglob s)) = Inr (fnvm (fglob s))"
    using s(5,6) fasas_recovery_skips_success [OF s(7)] by simp
  then show ?thesis using s(1-4) by blast
qed

end
