(* ===== verification/Dlist.thy ===== *)
theory Dlist
  imports Mwcas_Abs
begin

text \<open>
  The data of the doubly linked lists of \<open>src/src/double-linked-list\<close>: nodes, the list object with
  its two sentinels, the deleted mark of a link, and the sanity check. A node at address \<open>n\<close> keeps
  \<open>prev\<close> in the word at \<open>n\<close>, \<open>next\<close> in the word at \<open>n + 8\<close> and \<open>payload_size\<close> in the word at
  \<open>n + 16\<close>, so that its links are target words of the MwCAS. The lemmas relate a memory to the
  sequence of the nodes linked in it; both list implementations are verified against them.
\<close>

section \<open>Nodes and links\<close>

type_synonym heap = "u64 \<Rightarrow> u64"

definition kNodeDeleted :: u64 where "kNodeDeleted = push_bit 60 1"

definition is_marked :: "u64 \<Rightarrow> bool" where
  "is_marked p \<longleftrightarrow> p AND kNodeDeleted \<noteq> 0"

definition unmark :: "u64 \<Rightarrow> u64" where
  "unmark p = p AND NOT kNodeDeleted"

definition mark :: "u64 \<Rightarrow> u64" where
  "mark p = p OR kNodeDeleted"

definition prev_field :: "u64 \<Rightarrow> u64" where "prev_field n = n"

definition next_field :: "u64 \<Rightarrow> u64" where "next_field n = n + 8"

definition DListNode :: "heap \<Rightarrow> u64 \<Rightarrow> u64 \<Rightarrow> u64 \<Rightarrow> u32 \<Rightarrow> heap" where
  "DListNode m this p n s =
     m(prev_field this := p, next_field this := n, this + 16 := ucast s)"

text \<open>\<open>Allocator::Allocate\<close> belongs to the caller's environment: \<open>alloc\<close> maps a size to an address.\<close>

definition NewNode :: "(nat \<Rightarrow> u64) \<Rightarrow> heap \<Rightarrow> u64 \<Rightarrow> u64 \<Rightarrow> u32 \<Rightarrow> u64 \<times> heap" where
  "NewNode alloc m prev next payload_size =
     (let node = alloc (64 + unat payload_size) in (node, DListNode m node prev next payload_size))"

record idlist =
  head :: u64
  tail :: u64
  sync_method :: nat

definition kSyncMwCAS :: nat where "kSyncMwCAS = 1"
definition kSyncCAS :: nat where "kSyncCAS = 2"

definition new_IDList :: "heap \<Rightarrow> u64 \<Rightarrow> u64 \<Rightarrow> nat \<Rightarrow> idlist \<times> heap" where
  "new_IDList m hd_addr tl_addr sync =
     (\<lparr>head = hd_addr, tail = tl_addr, sync_method = sync\<rparr>,
      DListNode (DListNode m hd_addr 0 tl_addr 0) tl_addr hd_addr 0 0)"

section \<open>The sanity check\<close>

text \<open>
  \<open>SingleThreadSanityCheck\<close>; the loop is bounded by \<open>fuel\<close> and gives \<open>None\<close> when it runs out. With
  \<open>PMEM\<close> the check removes the dirty bits of the links it visits.
\<close>

definition clean_links :: "heap \<Rightarrow> u64 \<Rightarrow> heap" where
  "clean_links m n =
     m(next_field n := ClearDirty (m (next_field n)), prev_field n := ClearDirty (m (prev_field n)))"

fun sanity_loop :: "nat \<Rightarrow> idlist \<Rightarrow> heap \<Rightarrow> u64 \<Rightarrow> u64 \<Rightarrow> heap checked option" where
  "sanity_loop 0 l m prev node = None"
| "sanity_loop (Suc fuel) l m prev node =
     (let m' = clean_links m node in
      if node = 0 then Some (Inl ''null dlist node'')
      else if m' (next_field prev) \<noteq> node \<or> m' (prev_field node) \<noteq> prev
      then Some (Inl ''node.prev does not match prev.next'')
      else if m' (next_field node) \<noteq> 0 \<and> m' (next_field (m' (next_field node))) \<noteq> tail l
      then sanity_loop fuel l m' node (m' (next_field node))
      else Some (Inr m'))"

definition SingleThreadSanityCheck :: "nat \<Rightarrow> idlist \<Rightarrow> heap \<Rightarrow> heap checked option" where
  "SingleThreadSanityCheck fuel l m =
     (if m (prev_field (head l)) \<noteq> 0 then Some (Inl ''head.prev does not point to null'')
      else if m (next_field (head l)) = 0 then Some (Inl ''head.next is null'')
      else if m (prev_field (tail l)) = 0 then Some (Inl ''tail.prev is null'')
      else if m (next_field (tail l)) \<noteq> 0 then Some (Inl ''tail.next does not point to null'')
      else (let m' = m(next_field (head l) := ClearDirty (m (next_field (head l)))) in
            sanity_loop fuel l m' (head l) (m' (next_field (head l)))))"

section \<open>Marks\<close>

lemma kNodeDeleted_exp: "kNodeDeleted = 2 ^ 60"
  by (simp only: kNodeDeleted_def push_bit_of_1)

lemma bit_kNodeDeleted [flag_simps]: "bit kNodeDeleted n \<longleftrightarrow> n = 60"
  by (simp only: kNodeDeleted_exp bit_exp_iff) auto

lemma is_marked_bit [flag_defs]: "is_marked p \<longleftrightarrow> bit p 60"
  unfolding is_marked_def kNodeDeleted_exp by (rule and_exp_neq_0_iff)

lemma bit_unmark [flag_simps]: "bit (unmark p) n \<longleftrightarrow> bit p n \<and> n \<noteq> 60"
  using bit_imp_le_length [of p n] by (auto simp: unmark_def bit_simps flag_simps)

lemma bit_mark [flag_simps]: "bit (mark p) n \<longleftrightarrow> bit p n \<or> n = 60"
  by (auto simp: mark_def bit_simps flag_simps)

lemma mark_simps [simp]:
  "is_marked (mark p)" "\<not> is_marked (unmark p)" "unmark (mark p) = unmark p"
  "\<not> is_marked p \<Longrightarrow> unmark p = p" "is_marked p \<Longrightarrow> mark p = p"
  "mark (unmark p) = mark p" "IsCleanPtr (mark p) \<longleftrightarrow> IsCleanPtr p"
  "IsCleanPtr p \<Longrightarrow> IsCleanPtr (unmark p)"
  "IsDirtyPtr (unmark p) \<longleftrightarrow> IsDirtyPtr p" "IsDirtyPtr (mark p) \<longleftrightarrow> IsDirtyPtr p"
  "is_marked (ClearDirty p) \<longleftrightarrow> is_marked p"
  by (auto simp: word_eq_bits flag_simps flag_defs)

lemma not_marked_0 [simp]: "\<not> is_marked 0" by (simp add: flag_defs)

lemma is_marked_OR_dirty [simp]: "is_marked (p OR kDirtyFlag) \<longleftrightarrow> is_marked p"
  by (simp add: flag_defs flag_simps bit_or_iff)

lemma unmark_neq: "is_marked p \<Longrightarrow> \<not> is_marked q \<Longrightarrow> p \<noteq> q" by auto

lemma field_inj [simp]:
  "next_field a = next_field b \<longleftrightarrow> a = b" "prev_field a = prev_field b \<longleftrightarrow> a = b"
  by (simp_all add: next_field_def prev_field_def)

section \<open>Addresses of nodes\<close>

text \<open>
  What the allocator guarantees of the nodes of a list and of the sentinels: they are distinct
  objects, so that no \<open>next\<close> word of one is the \<open>prev\<close> word of another, at non-null addresses
  whose four highest bits are zero.
\<close>

definition node_space :: "u64 list \<Rightarrow> bool" where
  "node_space ns \<longleftrightarrow> distinct ns \<and>
     list_all (\<lambda>n. n \<noteq> 0 \<and> IsCleanPtr n \<and> \<not> is_marked n \<and> next_field n \<notin> set ns) ns"

lemma node_spaceD:
  assumes "node_space ns" and "n \<in> set ns"
  shows "n \<noteq> 0" "IsCleanPtr n" "\<not> is_marked n" "m \<in> set ns \<Longrightarrow> next_field m \<noteq> prev_field n"
    "m \<in> set ns \<Longrightarrow> prev_field n \<noteq> next_field m"
  using assms by (auto simp: node_space_def list_all_iff prev_field_def)

lemma node_space_mono:
  assumes "node_space ns" and "set ms \<subseteq> set ns" and "distinct ms"
  shows "node_space ms"
  using assms by (auto simp: node_space_def list_all_iff)

section \<open>Linked sequences\<close>

text \<open>\<open>linked m [a, b, c, \<dots>]\<close>: each node's \<open>next\<close> is the following one, whose \<open>prev\<close> leads back.\<close>

fun linked :: "heap \<Rightarrow> u64 list \<Rightarrow> bool" where
  "linked m (a # b # xs) \<longleftrightarrow> m (next_field a) = b \<and> m (prev_field b) = a \<and> linked m (b # xs)"
| "linked m _ \<longleftrightarrow> True"

lemma linked_split:
  "linked m (xs @ a # b # ys) \<longleftrightarrow>
     linked m (xs @ [a]) \<and> m (next_field a) = b \<and> m (prev_field b) = a \<and> linked m (b # ys)"
proof (induction xs)
  case Nil
  then show ?case by simp
next
  case (Cons x xs)
  then show ?case by (cases xs) auto
qed

lemma linked_frame:
  assumes "\<And>x. x \<in> set (butlast xs) \<Longrightarrow> m' (next_field x) = m (next_field x)"
    and "\<And>x. x \<in> set (tl xs) \<Longrightarrow> m' (prev_field x) = m (prev_field x)"
  shows "linked m' xs \<longleftrightarrow> linked m xs"
  using assms by (induction m xs rule: linked.induct) auto

lemma linked_frame_front:
  assumes "linked m (xs @ [a])" and "\<And>x. x \<in> set xs \<Longrightarrow> m' (next_field x) = m (next_field x)"
    and "\<And>x. x \<in> set (xs @ [a]) \<Longrightarrow> m' (prev_field x) = m (prev_field x)"
  shows "linked m' (xs @ [a])"
proof -
  have "set (tl (xs @ [a])) \<subseteq> set (xs @ [a])" by (cases xs) auto
  then show ?thesis using linked_frame [of "xs @ [a]" m' m] assms by auto
qed

lemma linked_frame_back:
  assumes "linked m (b # ys)" and "\<And>x. x \<in> set (b # ys) \<Longrightarrow> m' (next_field x) = m (next_field x)"
    and "\<And>x. x \<in> set ys \<Longrightarrow> m' (prev_field x) = m (prev_field x)"
  shows "linked m' (b # ys)"
proof -
  have "x \<in> set (butlast (b # ys)) \<Longrightarrow> x \<in> set (b # ys)" for x by (rule in_set_butlastD)
  then show ?thesis using linked_frame [of "b # ys" m' m] assms by (metis list.sel(3))
qed

text \<open>A whole list: the sentinels around the interior nodes, null links at the ends.\<close>

definition chain :: "idlist \<Rightarrow> u64 list \<Rightarrow> u64 list" where
  "chain l ns = head l # ns @ [tail l]"

definition is_list :: "idlist \<Rightarrow> heap \<Rightarrow> u64 list \<Rightarrow> bool" where
  "is_list l m ns \<longleftrightarrow> node_space (chain l ns) \<and> linked m (chain l ns) \<and>
     m (prev_field (head l)) = 0 \<and> m (next_field (tail l)) = 0"

lemma is_listD:
  assumes "is_list l m ns"
  shows "node_space (chain l ns)" "distinct (chain l ns)" "linked m (chain l ns)"
    "m (prev_field (head l)) = 0" "m (next_field (tail l)) = 0"
  using assms by (simp_all add: is_list_def node_space_def)

lemma chain_split_at:
  assumes "a \<in> set (chain l ns)" and "a \<noteq> tail l"
  obtains xs b ys where "chain l ns = xs @ a # b # ys"
proof -
  obtain xs zs where s: "chain l ns = xs @ a # zs" using assms(1) by (meson split_list)
  have "last (chain l ns) = tail l" by (simp add: chain_def)
  then have "zs \<noteq> []" using s assms(2) by auto
  then obtain b ys where "zs = b # ys" by (cases zs) auto
  then show thesis using that s by blast
qed

lemma chain_split_before:
  assumes "b \<in> set (chain l ns)" and "b \<noteq> head l"
  obtains xs a ys where "chain l ns = xs @ a # b # ys"
proof -
  obtain zs ys where s: "chain l ns = zs @ b # ys" using assms(1) by (meson split_list)
  have "hd (chain l ns) = head l" by (simp add: chain_def)
  then have "zs \<noteq> []" using s assms(2) by auto
  then obtain xs a where "zs = xs @ [a]" by (cases zs rule: rev_cases) auto
  then show thesis using that s by simp
qed

text \<open>Neighbours of an adjacent pair inside the chain.\<close>

lemma chain_adjacent:
  assumes "chain l ns = xs @ a # b # ys"
  obtains us vs where "ns = us @ vs" "xs @ [a] = head l # us" "b # ys = vs @ [tail l]"
proof -
  have e: "head l # ns @ [tail l] = (xs @ [a]) @ (b # ys)" using assms by (simp add: chain_def)
  obtain us where us: "xs @ [a] = head l # us"
    using e by (cases xs) auto
  obtain vs where vs: "b # ys = vs @ [tail l]"
    using arg_cong [OF e, of last] by (cases "b # ys" rule: rev_cases) auto
  have "ns = us @ vs" using e unfolding us vs by simp
  then show thesis using that us vs by blast
qed

lemma chain_ends:
  assumes "chain l ns = xs @ a # b # ys"
  shows "head l \<in> set (xs @ [a])" "tail l \<in> set (b # ys)"
proof -
  obtain us vs where "xs @ [a] = head l # us" "b # ys = vs @ [tail l]"
    using chain_adjacent [OF assms] by metis
  then show "head l \<in> set (xs @ [a])" "tail l \<in> set (b # ys)"
    by (metis list.set_intros(1), metis in_set_conv_decomp)
qed

text \<open>The interior nodes are determined by the memory.\<close>

lemma linked_unique:
  assumes "linked m (a # xs @ [t])" and "linked m (a # ys @ [t])"
    and "t \<notin> set xs" and "t \<notin> set ys"
  shows "xs = ys"
  using assms
proof (induction xs arbitrary: a ys)
  case Nil
  then show ?case by (cases ys) auto
next
  case (Cons x xs)
  then show ?case by (cases ys) auto
qed

lemma is_list_unique: "is_list l m ns \<Longrightarrow> is_list l m ns' \<Longrightarrow> ns = ns'"
  using linked_unique [of m "head l" ns "tail l" ns'] is_listD(2,3) [of l m ns] is_listD(2,3) [of l m ns']
  by (simp add: chain_def)

section \<open>Linking and unlinking a node\<close>

lemma link_node:
  assumes l: "is_list l m ns" and c: "chain l ns = xs @ a # b # ys"
    and n: "node_space (n # chain l ns)" "m (prev_field n) = a" "m (next_field n) = b"
    and ns': "chain l ns' = xs @ a # n # b # ys"
  shows "is_list l (m(next_field a := n, prev_field b := n)) ns'"
proof -
  let ?m = "m(next_field a := n, prev_field b := n)"
  have d: "distinct (n # xs @ a # b # ys)" using n(1) c by (simp add: node_space_def)
  have mem: "set (chain l ns) = insert a (insert b (set xs \<union> set ys))" using c by auto
  have nf: "next_field x \<noteq> prev_field b" "prev_field x \<noteq> next_field a"
    if "x \<in> insert n (set (chain l ns))" for x
    using node_spaceD(4) [OF n(1), of b x] node_spaceD(5) [OF n(1), of x a] that mem by auto
  have lk: "linked m (xs @ [a])" "linked m (b # ys)"
    using is_listD(3) [OF l] c by (auto simp: linked_split)
  have "linked ?m (xs @ [a])"
    using d nf mem by (intro linked_frame_front [OF lk(1)]) auto
  moreover have "linked ?m (b # ys)"
    using d nf mem by (intro linked_frame_back [OF lk(2)]) auto
  moreover have "?m (next_field a) = n" "?m (prev_field n) = a" "?m (next_field n) = b"
    "?m (prev_field b) = n"
    using n(2,3) nf [of n] nf [of a] d mem by auto
  ultimately have "linked ?m (chain l ns')"
    unfolding ns' using linked_split [of ?m "xs" a n "b # ys"] by simp
  moreover have "head l \<noteq> b" "tail l \<noteq> a"
    using chain_ends [OF c] d by auto
  then have "?m (prev_field (head l)) = 0" "?m (next_field (tail l)) = 0"
    using is_listD(4,5) [OF l] nf [of "head l"] nf [of "tail l"] by (auto simp: chain_def)
  moreover have "node_space (chain l ns')"
    using d by (intro node_space_mono [OF n(1)]) (auto simp: ns' mem)
  ultimately show ?thesis by (simp add: is_list_def)
qed

text \<open>
  Unlinking marks the \<open>next\<close> link of the node; what else the memory holds of that node does not
  matter to the remaining list.
\<close>

lemma unlink_node:
  assumes l: "is_list l m ns" and c: "chain l ns = xs @ a # n # b # ys"
    and ns': "chain l ns' = xs @ a # b # ys"
  shows "is_list l (m(next_field a := b, prev_field b := a, next_field n := v)) ns'"
proof -
  let ?m = "m(next_field a := b, prev_field b := a, next_field n := v)"
  have d: "distinct (xs @ a # n # b # ys)" using is_listD(2) [OF l] c by simp
  have mem: "set (chain l ns) = insert a (insert n (insert b (set xs \<union> set ys)))" using c by auto
  have nf: "next_field x \<noteq> prev_field b" "prev_field x \<noteq> next_field a" "prev_field x \<noteq> next_field n"
    if "x \<in> set (chain l ns)" for x
    using node_spaceD(4) [OF is_listD(1) [OF l], of b x] node_spaceD(5) [OF is_listD(1) [OF l], of x]
      that mem by auto
  have "linked m ((xs @ [a]) @ n # b # ys)" using is_listD(3) [OF l] c by simp
  then have lk: "linked m (xs @ [a])" "linked m (b # ys)"
    using linked_split [of m xs a n "b # ys"] by simp_all
  have "linked ?m (xs @ [a])"
    using d nf mem by (intro linked_frame_front [OF lk(1)]) auto
  moreover have "linked ?m (b # ys)"
    using d nf mem by (intro linked_frame_back [OF lk(2)]) auto
  ultimately have "linked ?m (chain l ns')"
    unfolding ns' linked_split using d nf [of a] nf [of b] mem by auto
  moreover have "head l \<noteq> b" "head l \<noteq> n" "tail l \<noteq> a" "tail l \<noteq> n"
    using chain_ends [OF c] chain_ends [of l ns "xs @ [a]" n b ys] c d by auto
  then have "?m (prev_field (head l)) = 0" "?m (next_field (tail l)) = 0"
    using is_listD(4,5) [OF l] nf [of "head l"] nf [of "tail l"] by (auto simp: chain_def)
  moreover have "node_space (chain l ns')"
    using d by (intro node_space_mono [OF is_listD(1) [OF l]]) (auto simp: ns' mem)
  ultimately show ?thesis by (simp add: is_list_def)
qed

text \<open>Filling in a node that is not linked.\<close>

lemma fill_node:
  assumes l: "is_list l m ns" and sp: "node_space (n # chain l ns)"
  shows "is_list l (m(prev_field n := v, next_field n := v')) ns"
proof -
  let ?m = "m(prev_field n := v, next_field n := v')"
  have same: "?m (next_field x) = m (next_field x)" "?m (prev_field x) = m (prev_field x)"
    if "x \<in> set (chain l ns)" for x
  proof -
    have "x \<noteq> n" using that sp by (auto simp: node_space_def)
    then show "?m (next_field x) = m (next_field x)" "?m (prev_field x) = m (prev_field x)"
      using node_spaceD(4) [OF sp, of n x] node_spaceD(5) [OF sp, of x n] that by auto
  qed
  have "linked ?m (chain l ns) \<longleftrightarrow> linked m (chain l ns)"
  proof (rule linked_frame)
    fix x
    show "?m (next_field x) = m (next_field x)" if "x \<in> set (butlast (chain l ns))"
      by (rule same(1) [OF in_set_butlastD [OF that]])
    show "?m (prev_field x) = m (prev_field x)" if "x \<in> set (tl (chain l ns))"
      using list.set_sel(2) [of "chain l ns" x] that by (intro same(2)) (auto simp: chain_def)
  qed
  then show ?thesis
    using l same(2) [of "head l"] same(1) [of "tail l"] by (simp add: is_list_def chain_def)
qed

section \<open>Positions in the list\<close>

lemma split_between: "h # us @ vs @ [t] =
    butlast (h # us) @ last (h # us) # hd (vs @ [t]) # tl (vs @ [t])"
proof -
  have "h # us = butlast (h # us) @ [last (h # us)]" by simp
  moreover have "vs @ [t] = hd (vs @ [t]) # tl (vs @ [t])" by simp
  ultimately show ?thesis by (metis append.assoc append_Cons append_Nil)
qed

lemma chain_between:
  "chain l (us @ vs) = butlast (head l # us) @ last (head l # us) # hd (vs @ [tail l]) # tl (vs @ [tail l])"
  unfolding chain_def using split_between [of "head l" us vs] by simp

lemma chain_insert:
  "chain l (us @ n # vs) =
     butlast (head l # us) @ last (head l # us) # n # hd (vs @ [tail l]) # tl (vs @ [tail l])"
  unfolding chain_def using split_between [of "head l" us "n # vs"] by simp

lemma ends_mem: "last (h # us) \<in> insert h (set us)" "hd (vs @ [t]) \<in> insert t (set vs)"
  using last_in_set [of "h # us"] hd_in_set [of "vs @ [t]"] by auto

text \<open>What the links of a position say, and that no link of the list is marked or dirty.\<close>

lemma is_list_between:
  assumes "is_list l m (us @ vs)"
  shows "m (next_field (last (head l # us))) = hd (vs @ [tail l])"
    "m (prev_field (hd (vs @ [tail l]))) = last (head l # us)"
  using is_listD(3) [OF assms] unfolding chain_between [of l us vs] linked_split by blast+

lemma is_list_next:
  assumes "is_list l m ns" and "x \<in> set (chain l ns)" and "x \<noteq> tail l"
  shows "m (next_field x) \<in> set (chain l ns)"
proof -
  obtain xs b ys where c: "chain l ns = xs @ x # b # ys" by (rule chain_split_at [OF assms(2,3)])
  then show ?thesis using is_listD(3) [OF assms(1)] by (simp add: linked_split)
qed

lemma is_list_prev:
  assumes "is_list l m ns" and "x \<in> set (chain l ns)" and "x \<noteq> head l"
  shows "m (prev_field x) \<in> set (chain l ns)"
proof -
  obtain xs a ys where c: "chain l ns = xs @ a # x # ys" by (rule chain_split_before [OF assms(2,3)])
  then show ?thesis using is_listD(3) [OF assms(1)] by (simp add: linked_split)
qed

lemma is_list_unmarked:
  assumes "is_list l m ns" and "x \<in> set (chain l ns)"
  shows "\<not> is_marked (m (next_field x))" "\<not> is_marked (m (prev_field x))"
proof -
  note node = node_spaceD(3) [OF is_listD(1) [OF assms(1)]]
  show "\<not> is_marked (m (next_field x))"
    using is_listD(5) [OF assms(1)] node is_list_next [OF assms] by (cases "x = tail l") auto
  show "\<not> is_marked (m (prev_field x))"
    using is_listD(4) [OF assms(1)] node is_list_prev [OF assms] by (cases "x = head l") auto
qed

end
