(* ===== verification/Dlist_Mwcas.thy ===== *)
theory Dlist_Mwcas
  imports Dlist Mwcas_Safety
begin

text \<open>
  \<open>MwCASDList\<close> (\<open>src/src/double-linked-list\<close>), the list whose links change by MwCAS only, as a
  concurrent machine: any number of threads run \<open>InsertBefore\<close>, \<open>InsertAfter\<close>, \<open>Delete\<close>, \<open>GetNext\<close>
  and \<open>GetPrev\<close>, one memory access per step. The memory is the one the application sees
  (\<open>abs_mem\<close> of the MwCAS machine) and a call of \<open>MwCAS\<close> is one atomic step of \<open>mwcas_spec\<close>, which is
  what the refinement theorem of the MwCAS gives; it may also fail without reason, as the real
  operation may. Plain loads that bypass \<open>GetValue\<close> may see a descriptor pointer instead of the value.
\<close>

section \<open>The operations\<close>

datatype dpc =
    DIdle
  | IBStart u64 u64             \<comment> \<open>\<open>InsertBefore(next, node)\<close>\<close>
  | IBPrev u64 u64              \<comment> \<open>read \<open>next->prev\<close>\<close>
  | IBNextNext u64 u64 u64      \<comment> \<open>with \<open>prev\<close>: read \<open>next->next\<close>\<close>
  | IBGetNext u64 u64           \<comment> \<open>\<open>next = GetNext(next)\<close>\<close>
  | IBPrevNext u64 u64 u64      \<comment> \<open>read \<open>prev->next\<close>\<close>
  | IBStore u64 u64 u64         \<comment> \<open>fill in the node\<close>
  | IBCas u64 u64 u64           \<comment> \<open>the MwCAS\<close>
  | IAStart u64 u64             \<comment> \<open>\<open>InsertAfter(prev, node)\<close>\<close>
  | IANext u64 u64              \<comment> \<open>read \<open>prev->next\<close>\<close>
  | IAGetPrev u64 u64           \<comment> \<open>\<open>prev = GetPrev(prev)\<close>\<close>
  | IANextNext u64 u64 u64      \<comment> \<open>with \<open>next\<close>: read \<open>next->next\<close>\<close>
  | IAStore u64 u64 u64
  | IACas u64 u64 u64
  | DelLoop u64                 \<comment> \<open>\<open>Delete(node)\<close>: plain load of \<open>node->next\<close>\<close>
  | DelEnd u64                  \<comment> \<open>a sentinel: check its links\<close>
  | DelPrev u64                 \<comment> \<open>read \<open>node->prev\<close>\<close>
  | DelNext u64 u64             \<comment> \<open>read \<open>node->next\<close>\<close>
  | DelChk1 u64 u64 u64         \<comment> \<open>plain load of \<open>prev->next\<close>\<close>
  | DelChk2 u64 u64 u64         \<comment> \<open>plain load of \<open>next->prev\<close>\<close>
  | DelCas u64 u64 u64
  | NextOf u64                  \<comment> \<open>\<open>GetNext\<close>\<close>
  | PrevOf u64                  \<comment> \<open>\<open>GetPrev\<close>\<close>

datatype dres = Inserted u64 | Deleted u64 | Node u64 u64

datatype doutcome =
    DGoto dpc heap
  | DRet dres heap
  | DAbort string

text \<open>
  What a step cannot know of the rest of the system: the descriptor pointer a plain load finds in
  place of the value, if any, and whether the MwCAS fails although all words match.
\<close>

record weather =
  seen :: "u64 option"
  fails :: bool

definition raw_load :: "weather \<Rightarrow> heap \<Rightarrow> u64 \<Rightarrow> u64" where
  "raw_load w m a =
     (case seen w of Some v \<Rightarrow> if IsCleanPtr v \<or> is_marked v then m a else v | None \<Rightarrow> m a)"

text \<open>\<open>AllocateDescriptor\<close>, the calls of \<open>AddEntry\<close> and \<open>MwCAS\<close>: whether it succeeded, and the memory.\<close>

definition desc_mwcas :: "weather \<Rightarrow> (u64 \<times> u64 \<times> u64) list \<Rightarrow> heap \<Rightarrow> (bool \<times> heap) checked" where
  "desc_mwcas w es m =
     bind_checked (AddEntries 0 (Initialize zero_descriptor) es) (\<lambda>desc.
       Inr (if fails w then (False, m) else mwcas_spec (entries desc) m))"

definition cas_then :: "(bool \<times> heap) checked \<Rightarrow> dres \<Rightarrow> dpc \<Rightarrow> doutcome" where
  "cas_then r res retry =
     (case r of Inl e \<Rightarrow> DAbort e
      | Inr (ok, m') \<Rightarrow> if ok then DRet res m' else DGoto retry m')"

text \<open>
  \<open>ResolveNodePointer\<close> is \<open>GetValue\<close> of the MwCAS, which returns the value the application sees;
  \<open>GetNext\<close> and \<open>GetPrev\<close> strip the deleted mark of the node and of the link.
\<close>

definition ResolveNodePointer :: "heap \<Rightarrow> u64 \<Rightarrow> u64" where
  "ResolveNodePointer m a = m a"

definition MwCASDList_GetNext :: "heap \<Rightarrow> u64 \<Rightarrow> u64" where
  "MwCASDList_GetNext m node = unmark (ResolveNodePointer m (next_field (unmark node)))"

definition MwCASDList_GetPrev :: "heap \<Rightarrow> u64 \<Rightarrow> u64" where
  "MwCASDList_GetPrev m node = unmark (ResolveNodePointer m (prev_field (unmark node)))"

lemmas resolve_defs [simp] = ResolveNodePointer_def MwCASDList_GetNext_def MwCASDList_GetPrev_def

fun MwCASDList_step :: "idlist \<Rightarrow> weather \<Rightarrow> heap \<Rightarrow> dpc \<Rightarrow> doutcome" where
  "MwCASDList_step l w m DIdle = DAbort ''no operation''"
| "MwCASDList_step l w m (IBStart nx node) =
     (if nx = head l then DGoto (IAStart nx node) m else DGoto (IBPrev nx node) m)"
| "MwCASDList_step l w m (IBPrev nx node) =
     (if is_marked nx then DAbort ''invalid prev pointer''
      else DGoto (IBNextNext nx node (m (prev_field nx))) m)"
| "MwCASDList_step l w m (IBNextNext nx node pv) =
     (if is_marked pv \<or> is_marked (m (next_field nx)) then DGoto (IBGetNext nx node) m
      else DGoto (IBPrevNext nx node pv) m)"
| "MwCASDList_step l w m (IBGetNext nx node) =
     DGoto (IBPrev (MwCASDList_GetNext m nx) node) m"
| "MwCASDList_step l w m (IBPrevNext nx node pv) =
     (if is_marked (m (next_field pv)) then DGoto (IBPrev nx node) m
      else DGoto (IBStore nx node pv) m)"
| "MwCASDList_step l w m (IBStore nx node pv) =
     DGoto (IBCas nx node pv) (m(next_field node := nx, prev_field node := pv))"
| "MwCASDList_step l w m (IBCas nx node pv) =
     (if \<not> IsCleanPtr pv then DAbort ''prev is not normal value''
      else if \<not> IsCleanPtr nx then DAbort ''next is not normal value''
      else cas_then (desc_mwcas w
             [(next_field (m (prev_field node)), m (next_field node), node),
              (prev_field nx, m (prev_field node), node)] m)
             (Inserted node) (IBPrev nx node))"
| "MwCASDList_step l w m (IAStart pv node) =
     (if pv = tail l then DGoto (IBStart pv node) m else DGoto (IANext pv node) m)"
| "MwCASDList_step l w m (IANext pv node) =
     (if is_marked pv then DAbort ''invalid prev pointer''
      else if is_marked (m (next_field pv)) then DGoto (IAGetPrev pv node) m
      else DGoto (IANextNext pv node (m (next_field pv))) m)"
| "MwCASDList_step l w m (IAGetPrev pv node) =
     DGoto (IANext (MwCASDList_GetPrev m pv) node) m"
| "MwCASDList_step l w m (IANextNext pv node nx) =
     (if is_marked (m (next_field nx)) then DGoto (IANext pv node) m
      else DGoto (IAStore pv node nx) m)"
| "MwCASDList_step l w m (IAStore pv node nx) =
     (if is_marked nx then DAbort ''deleted prev node''
      else if \<not> IsCleanPtr pv \<or> \<not> IsCleanPtr nx then DAbort ''next is not normal value''
      else DGoto (IACas pv node nx) (m(prev_field node := pv, next_field node := nx)))"
| "MwCASDList_step l w m (IACas pv node nx) =
     cas_then (desc_mwcas w
       [(next_field pv, m (next_field node), node),
        (prev_field (m (next_field node)), m (prev_field node), node)] m)
       (Inserted node) (IANext pv node)"
| "MwCASDList_step l w m (DelLoop node) =
     (if is_marked (raw_load w m (next_field node)) then DRet (Deleted node) m
      else if node = head l \<or> node = tail l then DGoto (DelEnd node) m
      else DGoto (DelPrev node) m)"
| "MwCASDList_step l w m (DelEnd node) =
     (if is_marked (raw_load w m (next_field node)) \<or> is_marked (raw_load w m (prev_field node))
      then DAbort ''invalid next pointer'' else DRet (Deleted node) m)"
| "MwCASDList_step l w m (DelPrev node) = DGoto (DelNext node (m (prev_field node))) m"
| "MwCASDList_step l w m (DelNext node pv) = DGoto (DelChk1 node pv (m (next_field node))) m"
| "MwCASDList_step l w m (DelChk1 node pv nx) =
     (if raw_load w m (next_field pv) \<noteq> node then DGoto (DelLoop node) m
      else DGoto (DelChk2 node pv nx) m)"
| "MwCASDList_step l w m (DelChk2 node pv nx) =
     (if is_marked nx then DAbort ''wild node pointer''
      else if raw_load w m (prev_field nx) \<noteq> node then DGoto (DelLoop node) m
      else DGoto (DelCas node pv nx) m)"
| "MwCASDList_step l w m (DelCas node pv nx) =
     cas_then (desc_mwcas w
       [(next_field pv, node, nx), (prev_field nx, node, pv), (next_field node, nx, mark nx)] m)
       (Deleted node) (DelLoop node)"
| "MwCASDList_step l w m (NextOf node) =
     DRet (Node node (MwCASDList_GetNext m node)) m"
| "MwCASDList_step l w m (PrevOf node) =
     DRet (Node node (MwCASDList_GetPrev m node)) m"

text \<open>An operation that runs alone: nobody interferes, \<open>fuel\<close> bounds the number of steps.\<close>

definition calm :: weather where "calm = \<lparr>seen = None, fails = False\<rparr>"

fun MwCASDList_run :: "nat \<Rightarrow> idlist \<Rightarrow> dpc \<Rightarrow> heap \<Rightarrow> (dres \<times> heap) checked option" where
  "MwCASDList_run 0 l pc m = None"
| "MwCASDList_run (Suc fuel) l pc m =
     (case MwCASDList_step l calm m pc of
        DGoto pc' m' \<Rightarrow> MwCASDList_run fuel l pc' m'
      | DRet r m' \<Rightarrow> Some (Inr (r, m'))
      | DAbort e \<Rightarrow> Some (Inl e))"

section \<open>Threads and executions\<close>

text \<open>
  \<open>used\<close> and \<open>published\<close> record the nodes that have been passed to an insertion and those whose
  insertion took effect; the code keeps neither, they state what the application owes.
\<close>

record dsys =
  dl :: idlist
  dmem :: heap
  dpcs :: "nat \<Rightarrow> dpc"
  used :: "u64 list"
  published :: "u64 list"
  dresults :: "(nat \<times> dres) list"
  dabort :: "string option"

datatype dop = InsertBefore u64 u64 | InsertAfter u64 u64 | Delete u64 | GetNext u64 | GetPrev u64

datatype devent = DStart nat dop | DRun nat weather

fun entry_point :: "dop \<Rightarrow> dpc" where
  "entry_point (InsertBefore nx node) = IBStart nx node"
| "entry_point (InsertAfter pv node) = IAStart pv node"
| "entry_point (Delete node) = DelLoop node"
| "entry_point (GetNext node) = NextOf node"
| "entry_point (GetPrev node) = PrevOf node"

fun new_nodes :: "dop \<Rightarrow> u64 list" where
  "new_nodes (InsertBefore nx node) = [node]"
| "new_nodes (InsertAfter pv node) = [node]"
| "new_nodes _ = []"

fun old_node :: "dop \<Rightarrow> u64" where
  "old_node (InsertBefore nx node) = nx"
| "old_node (InsertAfter pv node) = pv"
| "old_node (Delete node) = node"
| "old_node (GetNext node) = node"
| "old_node (GetPrev node) = node"

text \<open>
  What the application owes: an inserted node is a fresh object, and the node an operation refers
  to is a sentinel or has been inserted (it may be deleted already; the epoch keeps it alive).
\<close>

definition may_call :: "dsys \<Rightarrow> dop \<Rightarrow> bool" where
  "may_call s op \<longleftrightarrow> old_node op \<in> insert (head (dl s)) (insert (tail (dl s)) (set (published s))) \<and>
     node_space (head (dl s) # tail (dl s) # new_nodes op @ used s)"

fun published_by :: "dres \<Rightarrow> u64 list" where
  "published_by (Inserted n) = [n]"
| "published_by _ = []"

definition dexec :: "devent \<Rightarrow> dsys \<Rightarrow> dsys option" where
  "dexec e s =
     (if dabort s \<noteq> None then None else
      case e of
        DStart t op \<Rightarrow>
          if dpcs s t = DIdle \<and> may_call s op
          then Some (s\<lparr>dpcs := (dpcs s)(t := entry_point op), used := new_nodes op @ used s\<rparr>)
          else None
      | DRun t w \<Rightarrow>
          if dpcs s t = DIdle then None else
          Some (case MwCASDList_step (dl s) w (dmem s) (dpcs s t) of
             DGoto pc m \<Rightarrow> s\<lparr>dmem := m, dpcs := (dpcs s)(t := pc)\<rparr>
           | DRet r m \<Rightarrow> s\<lparr>dmem := m, dpcs := (dpcs s)(t := DIdle),
                published := published_by r @ published s, dresults := (t, r) # dresults s\<rparr>
           | DAbort e \<Rightarrow> s\<lparr>dabort := Some e\<rparr>))"

definition dstep :: "dsys \<Rightarrow> dsys \<Rightarrow> bool" where
  "dstep s s' \<longleftrightarrow> (\<exists>e. dexec e s = Some s')"

text \<open>A freshly constructed list.\<close>

definition dinit :: "dsys \<Rightarrow> bool" where
  "dinit s \<longleftrightarrow> (\<exists>m h t. node_space [h, t] \<and> h + 16 \<notin> {t, t + 8} \<and> t + 16 \<notin> {h, h + 8} \<and>
     new_IDList m h t kSyncMwCAS = (dl s, dmem s)) \<and>
     dpcs s = (\<lambda>_. DIdle) \<and> used s = [] \<and> published s = [] \<and> dresults s = [] \<and> dabort s = None"

section \<open>The effect of a MwCAS on distinct words\<close>

definition entry_of :: "u64 \<Rightarrow> u64 \<times> u64 \<times> u64 \<Rightarrow> word_desc" where
  "entry_of self = (\<lambda>(a, v, v'). \<lparr>address = a, old_value = v, new_value = v', ownDesc = self,
     recycle_policy = kRecycleNever\<rparr>)"

lemma AddEntries_set:
  assumes "wf_entries desc" and "count desc + length es \<le> kMaxCount" and "distinct (map fst es)"
    and "\<forall>e \<in> set es. fst e \<notin> address ` set (entries desc)"
  shows "\<exists>desc'. AddEntries d desc es = Inr desc' \<and> wf_entries desc' \<and>
     set (entries desc') = entry_of d ` set es \<union> set (entries desc)"
  using assms
proof (induction es arbitrary: desc)
  case Nil
  then show ?case by simp
next
  case (Cons e es)
  obtain a v v' where e: "e = (a, v, v')" by (cases e)
  have fresh: "a \<notin> address ` set (entries desc)" and room: "count desc < kMaxCount"
    using Cons.prems(2,4) e by auto
  obtain desc1 where d1: "AddEntry d desc a v v' kRecycleNever = Inr (rank_of desc a, desc1)"
      "entries desc1 = insort_key address (entry_of d e) (entries desc)"
      "count desc1 = Suc (count desc)" "length (words desc1) = kMaxCount"
    using AddEntry_fresh [OF Cons.prems(1) room fresh] e by (metis (no_types, lifting) entry_of_def case_prod_conv)
  have wf: "wf_entries desc1"
    using Cons.prems(1) room fresh e d1 sorted_insort_key_strict [of address "entries desc" "entry_of d e"]
    by (simp add: wf_entries_def entry_of_def)
  have "\<exists>desc'. AddEntries d desc1 es = Inr desc' \<and> wf_entries desc' \<and>
     set (entries desc') = entry_of d ` set es \<union> set (entries desc1)"
    using Cons.prems(2-) e d1 wf by (intro Cons.IH) (auto simp: set_insort_key entry_of_def)
  then show ?case using e d1 by (auto simp: set_insort_key)
qed

lemma find_address:
  assumes "wf_entries desc" and "w \<in> set (entries desc)"
  shows "find (\<lambda>x. address x = address w) (entries desc) = Some w"
proof -
  have srt: "sorted_wrt (<) (map address (entries desc))" using assms(1) by (simp add: wf_entries_def)
  have "y = w" if y: "y \<in> set (entries desc)" "address y = address w" for y
  proof -
    obtain i where i: "i < length (entries desc)" "entries desc ! i = y"
      using y(1) by (auto simp: in_set_conv_nth)
    obtain j where j: "j < length (entries desc)" "entries desc ! j = w"
      using assms(2) by (auto simp: in_set_conv_nth)
    have "i = j" by (rule sorted_wrt_nth_eq [OF srt i(1) j(1)]) (simp add: i j y(2))
    then show ?thesis using i(2) j(2) by simp
  qed
  then show ?thesis by (rule find_unique [OF assms(2) refl])
qed

text \<open>The new memory: the entries as updates, in any order since the addresses are distinct.\<close>

definition put_all :: "(u64 \<times> u64 \<times> u64) list \<Rightarrow> heap \<Rightarrow> heap" where
  "put_all es m = fold (\<lambda>(a, v, v') m. m(a := v')) es m"

lemma put_all_at:
  assumes "distinct (map fst es)"
  shows "put_all es m a = (case map_of es a of Some (v, v') \<Rightarrow> v' | None \<Rightarrow> m a)"
  using assms
proof (induction es arbitrary: m)
  case Nil
  then show ?case by (simp add: put_all_def)
next
  case (Cons e es)
  have "map_of es (fst e) = None" using Cons.prems by (simp add: map_of_eq_None_iff)
  then show ?case using Cons by (cases e) (auto simp: put_all_def split: option.split)
qed

lemma apply_words_put_all:
  assumes "wf_entries desc" and "set (entries desc) = entry_of d ` set es" and "distinct (map fst es)"
  shows "apply_words (entries desc) m = put_all es m"
proof
  fix a
  show "apply_words (entries desc) m a = put_all es m a"
  proof (cases "map_of es a")
    case None
    then have "\<forall>w \<in> set (entries desc). address w \<noteq> a"
      using assms(2) by (auto simp: map_of_eq_None_iff entry_of_def image_iff)
    then have "find (\<lambda>w. address w = a) (entries desc) = None" by (auto simp: find_None_iff)
    then show ?thesis using None by (simp add: apply_words_def put_all_at [OF assms(3)])
  next
    case (Some x)
    then obtain v v' where x: "(a, v, v') \<in> set es" "x = (v, v')"
      by (cases x) (auto dest: map_of_SomeD)
    then have "entry_of d (a, v, v') \<in> set (entries desc)" using assms(2) by blast
    from find_address [OF assms(1) this] show ?thesis
      using Some x by (simp add: apply_words_def put_all_at [OF assms(3)] entry_of_def)
  qed
qed

lemma desc_mwcas_spec:
  assumes "length es \<le> kMaxCount" and "distinct (map fst es)"
  shows "desc_mwcas w es m = Inr (if \<not> fails w \<and> list_all (\<lambda>(a, v, v'). m a = v) es
           then (True, put_all es m) else (False, m))"
proof -
  have init: "entries (Initialize zero_descriptor) = []" "count (Initialize zero_descriptor) = 0"
    by (simp_all add: entries_def Initialize_def)
  obtain desc where desc: "AddEntries 0 (Initialize zero_descriptor) es = Inr desc" "wf_entries desc"
      "set (entries desc) = entry_of 0 ` set es"
    using AddEntries_set [OF wf_entries_Initialize, of zero_descriptor es 0] assms init by auto
  have "matches (entries desc) m \<longleftrightarrow> list_all (\<lambda>(a, v, v'). m a = v) es"
    unfolding matches_def list_all_iff desc(3) by (auto simp: entry_of_def)
  then show ?thesis
    using desc(1) apply_words_put_all [OF desc(2,3) assms(2)]
    by (simp add: desc_mwcas_def mwcas_spec_def)
qed

end
