(* ===== verification/Dlist_Inv.thy ===== *)
theory Dlist_Inv
  imports Dlist_Mwcas
begin

text \<open>
  The invariant of the \<open>MwCASDList\<close> machine. A published node is either in the list or deleted; a
  deleted node has its \<open>next\<close> link marked and never changes again, and its links lead to published
  nodes. This is what makes it safe that operations hold on to nodes that others delete.
\<close>

section \<open>The invariant\<close>

definition befores :: "idlist \<Rightarrow> u64 list \<Rightarrow> u64 set" where
  "befores l P = insert (head l) (set P)"

definition afters :: "idlist \<Rightarrow> u64 list \<Rightarrow> u64 set" where
  "afters l P = insert (tail l) (set P)"

definition dead_ok :: "idlist \<Rightarrow> u64 list \<Rightarrow> heap \<Rightarrow> u64 list \<Rightarrow> bool" where
  "dead_ok l P m ns \<longleftrightarrow> (\<forall>x \<in> set P - set ns. is_marked (m (next_field x)) \<and>
     unmark (m (next_field x)) \<in> afters l P \<and> m (prev_field x) \<in> befores l P \<and> m (prev_field x) \<noteq> x)"

definition heap_inv :: "idlist \<Rightarrow> u64 list \<Rightarrow> u64 list \<Rightarrow> heap \<Rightarrow> u64 list \<Rightarrow> bool" where
  "heap_inv l U P m ns \<longleftrightarrow> node_space (head l # tail l # U) \<and> set P \<subseteq> set U \<and>
     is_list l m ns \<and> set ns \<subseteq> set P \<and> dead_ok l P m ns"

text \<open>The node an insertion has not published yet.\<close>

fun owned :: "dpc \<Rightarrow> u64 set" where
  "owned (IBStart nx n) = {n}"
| "owned (IBPrev nx n) = {n}"
| "owned (IBNextNext nx n pv) = {n}"
| "owned (IBGetNext nx n) = {n}"
| "owned (IBPrevNext nx n pv) = {n}"
| "owned (IBStore nx n pv) = {n}"
| "owned (IBCas nx n pv) = {n}"
| "owned (IAStart pv n) = {n}"
| "owned (IANext pv n) = {n}"
| "owned (IAGetPrev pv n) = {n}"
| "owned (IANextNext pv n nx) = {n}"
| "owned (IAStore pv n nx) = {n}"
| "owned (IACas pv n nx) = {n}"
| "owned _ = {}"

text \<open>What a thread knows at each point of its operation.\<close>

fun pc_ok :: "idlist \<Rightarrow> u64 list \<Rightarrow> heap \<Rightarrow> dpc \<Rightarrow> bool" where
  "pc_ok l P m DIdle \<longleftrightarrow> True"
| "pc_ok l P m (IBStart nx n) \<longleftrightarrow> nx \<in> befores l P \<union> afters l P"
| "pc_ok l P m (IBPrev nx n) \<longleftrightarrow> nx \<in> afters l P"
| "pc_ok l P m (IBNextNext nx n pv) \<longleftrightarrow> nx \<in> afters l P \<and> pv \<in> befores l P"
| "pc_ok l P m (IBGetNext nx n) \<longleftrightarrow> nx \<in> set P \<and> is_marked (m (next_field nx))"
| "pc_ok l P m (IBPrevNext nx n pv) \<longleftrightarrow> nx \<in> afters l P \<and> pv \<in> befores l P"
| "pc_ok l P m (IBStore nx n pv) \<longleftrightarrow> nx \<in> afters l P \<and> pv \<in> befores l P"
| "pc_ok l P m (IBCas nx n pv) \<longleftrightarrow> nx \<in> afters l P \<and> pv \<in> befores l P \<and>
     m (prev_field n) = pv \<and> m (next_field n) = nx"
| "pc_ok l P m (IAStart pv n) \<longleftrightarrow> pv \<in> befores l P \<union> afters l P"
| "pc_ok l P m (IANext pv n) \<longleftrightarrow> pv \<in> befores l P"
| "pc_ok l P m (IAGetPrev pv n) \<longleftrightarrow> pv \<in> set P"
| "pc_ok l P m (IANextNext pv n nx) \<longleftrightarrow> nx \<in> afters l P \<and> pv \<in> befores l P"
| "pc_ok l P m (IAStore pv n nx) \<longleftrightarrow> nx \<in> afters l P \<and> pv \<in> befores l P"
| "pc_ok l P m (IACas pv n nx) \<longleftrightarrow> nx \<in> afters l P \<and> pv \<in> befores l P \<and>
     m (prev_field n) = pv \<and> m (next_field n) = nx"
| "pc_ok l P m (DelLoop n) \<longleftrightarrow> n \<in> befores l P \<union> afters l P"
| "pc_ok l P m (DelEnd n) \<longleftrightarrow> n = head l \<or> n = tail l"
| "pc_ok l P m (DelPrev n) \<longleftrightarrow> n \<in> set P"
| "pc_ok l P m (DelNext n pv) \<longleftrightarrow> n \<in> set P \<and> pv \<in> befores l P \<and> pv \<noteq> n"
| "pc_ok l P m (DelChk1 n pv nx) \<longleftrightarrow> n \<in> set P \<and> pv \<in> befores l P \<and> pv \<noteq> n \<and>
     unmark nx \<in> afters l P \<and> (is_marked nx \<longrightarrow> is_marked (m (next_field n)))"
| "pc_ok l P m (DelChk2 n pv nx) \<longleftrightarrow> n \<in> set P \<and> pv \<in> befores l P \<and> pv \<noteq> n \<and> nx \<in> afters l P"
| "pc_ok l P m (DelCas n pv nx) \<longleftrightarrow> n \<in> set P \<and> pv \<in> befores l P \<and> pv \<noteq> n \<and> nx \<in> afters l P"
| "pc_ok l P m (NextOf n) \<longleftrightarrow> n \<in> befores l P \<union> afters l P"
| "pc_ok l P m (PrevOf n) \<longleftrightarrow> n \<in> befores l P \<union> afters l P"

fun res_ok :: "idlist \<Rightarrow> u64 list \<Rightarrow> heap \<Rightarrow> dres \<Rightarrow> bool" where
  "res_ok l P m (Inserted n) \<longleftrightarrow> n \<in> set P"
| "res_ok l P m (Deleted n) \<longleftrightarrow>
     n = head l \<or> n = tail l \<or> n \<in> set P \<and> is_marked (m (next_field n))"
| "res_ok l P m (Node n p) \<longleftrightarrow> True"

definition dinv :: "dsys \<Rightarrow> bool" where
  "dinv s \<longleftrightarrow> (\<exists>ns. heap_inv (dl s) (used s) (published s) (dmem s) ns) \<and>
     (\<forall>t. pc_ok (dl s) (published s) (dmem s) (dpcs s t) \<and>
          owned (dpcs s t) \<subseteq> set (used s) - set (published s)) \<and>
     (\<forall>t t'. t \<noteq> t' \<longrightarrow> owned (dpcs s t) \<inter> owned (dpcs s t') = {}) \<and>
     (\<forall>r \<in> snd ` set (dresults s). res_ok (dl s) (published s) (dmem s) r) \<and> dabort s = None"

section \<open>Facts about nodes\<close>

lemma heap_invD:
  assumes "heap_inv l U P m ns"
  shows "node_space (head l # tail l # U)" "set P \<subseteq> set U" "is_list l m ns" "set ns \<subseteq> set P"
    "dead_ok l P m ns" "head l \<noteq> tail l" "head l \<notin> set P" "tail l \<notin> set P"
  using assms by (auto simp: heap_inv_def node_space_def)

lemma heap_inv_node:
  assumes "heap_inv l U P m ns" and "x \<in> befores l P \<union> afters l P \<union> set U"
  shows "x \<in> set (head l # tail l # U)" "IsCleanPtr x" "\<not> is_marked x" "x \<noteq> 0"
proof -
  show x: "x \<in> set (head l # tail l # U)"
    using assms heap_invD(2) [OF assms(1)] by (auto simp: befores_def afters_def)
  show "IsCleanPtr x" "\<not> is_marked x" "x \<noteq> 0"
    using node_spaceD [OF heap_invD(1) [OF assms(1)] x] by auto
qed

lemma fields_apart:
  assumes "heap_inv l U P m ns" and "x \<in> befores l P \<union> afters l P \<union> set U"
    and "y \<in> befores l P \<union> afters l P \<union> set U"
  shows "next_field x \<noteq> prev_field y" "prev_field y \<noteq> next_field x"
  using node_spaceD(4) [OF heap_invD(1) [OF assms(1)] heap_inv_node(1) [OF assms(1,3)]
      heap_inv_node(1) [OF assms(1,2)]] by simp_all

lemma chain_parts:
  assumes "heap_inv l U P m ns"
  shows "set (chain l ns) \<subseteq> befores l P \<union> afters l P"
    "x \<in> set (chain l ns) \<Longrightarrow> x \<noteq> tail l \<Longrightarrow> x \<in> befores l P"
    "x \<in> set (chain l ns) \<Longrightarrow> x \<noteq> head l \<Longrightarrow> x \<in> afters l P"
  using heap_invD(4) [OF assms] by (auto simp: chain_def befores_def afters_def)

lemma live_next:
  assumes "heap_inv l U P m ns" and "x \<in> set (chain l ns)" and "x \<noteq> tail l"
  obtains xs b ys where "chain l ns = xs @ x # b # ys" "m (next_field x) = b" "m (prev_field b) = x"
    "b \<in> afters l P" "b \<in> set (chain l ns)" "b \<noteq> x" "x \<in> befores l P"
proof -
  obtain xs b ys where c: "chain l ns = xs @ x # b # ys" by (rule chain_split_at [OF assms(2,3)])
  have "b \<noteq> head l" "b \<noteq> x"
    using chain_ends [OF c] is_listD(2) [OF heap_invD(3) [OF assms(1)]] c by auto
  then show thesis
    using that [OF c] is_listD(3) [OF heap_invD(3) [OF assms(1)]] chain_parts [OF assms(1)] c assms(2,3)
    by (auto simp: linked_split)
qed

lemma live_prev:
  assumes "heap_inv l U P m ns" and "x \<in> set (chain l ns)" and "x \<noteq> head l"
  obtains a where "m (prev_field x) = a" "a \<in> befores l P" "a \<noteq> x" "m (next_field a) = x"
proof -
  obtain xs a ys where c: "chain l ns = xs @ a # x # ys" by (rule chain_split_before [OF assms(2,3)])
  have "a \<noteq> tail l" "a \<noteq> x"
    using chain_ends [OF c] is_listD(2) [OF heap_invD(3) [OF assms(1)]] c by auto
  then show thesis
    using that [of a] is_listD(3) [OF heap_invD(3) [OF assms(1)]] chain_parts [OF assms(1)] c
    by (auto simp: linked_split)
qed

lemma next_after:
  assumes "heap_inv l U P m ns" and "x \<in> befores l P"
  shows "unmark (m (next_field x)) \<in> afters l P"
proof (cases "x \<in> set (chain l ns)")
  case True
  have "x \<noteq> tail l" using assms heap_invD(6,8) [OF assms(1)] by (auto simp: befores_def)
  then show ?thesis using live_next [OF assms(1) True] heap_inv_node(3) [OF assms(1)]
    by (metis UnCI mark_simps(4))
next
  case False
  then show ?thesis
    using assms heap_invD(5) [OF assms(1)] by (auto simp: dead_ok_def befores_def chain_def)
qed

lemma prev_before:
  assumes "heap_inv l U P m ns" and "x \<in> afters l P"
  shows "m (prev_field x) \<in> befores l P" "m (prev_field x) \<noteq> x"
proof -
  have "m (prev_field x) \<in> befores l P \<and> m (prev_field x) \<noteq> x"
  proof (cases "x \<in> set (chain l ns)")
    case True
    have "x \<noteq> head l" using assms heap_invD(6,7) [OF assms(1)] by (auto simp: afters_def)
    then show ?thesis using live_prev [OF assms(1) True] by metis
  next
    case False
    then show ?thesis
      using assms heap_invD(5) [OF assms(1)] by (auto simp: dead_ok_def afters_def chain_def)
  qed
  then show "m (prev_field x) \<in> befores l P" "m (prev_field x) \<noteq> x" by simp_all
qed

lemma marked_iff_dead:
  assumes "heap_inv l U P m ns" and "x \<in> befores l P \<union> afters l P"
  shows "is_marked (m (next_field x)) \<longleftrightarrow> x \<in> set P \<and> x \<notin> set ns"
proof (cases "x \<in> set (chain l ns)")
  case True
  have "\<not> is_marked (m (next_field x))"
  proof (cases "x = tail l")
    case True
    then show ?thesis using is_listD(5) [OF heap_invD(3) [OF assms(1)]] by simp
  next
    case False
    then show ?thesis
      using live_next [OF assms(1) True] heap_inv_node(3) [OF assms(1)] by (metis UnCI)
  qed
  then show ?thesis using True heap_invD(7,8) [OF assms(1)] by (auto simp: chain_def)
next
  case False
  then show ?thesis
    using assms heap_invD(5) [OF assms(1)] by (auto simp: dead_ok_def chain_def befores_def afters_def)
qed

text \<open>Two nodes whose links match are neighbours in the list.\<close>

lemma adjacent:
  assumes "heap_inv l U P m ns" and "a \<in> befores l P" and "b \<in> afters l P"
    and "m (next_field a) = b"
  obtains xs ys where "chain l ns = xs @ a # b # ys" "a \<in> set (chain l ns)" "b \<in> set (chain l ns)"
proof -
  have "\<not> is_marked (m (next_field a))" using heap_inv_node(3) [OF assms(1), of b] assms(3,4) by simp
  then have "a \<in> set (chain l ns)"
    using marked_iff_dead [OF assms(1), of a] assms(2) by (auto simp: befores_def chain_def)
  moreover have "a \<noteq> tail l" using assms(2) heap_invD(6,8) [OF assms(1)] by (auto simp: befores_def)
  ultimately show thesis using live_next [OF assms(1)] that assms(4) by metis
qed

section \<open>The changes of the list\<close>

text \<open>
  What a step may do to the memory and to the sequence of the linked nodes: nothing, fill in a
  private node, link a private node between two neighbours, or unlink a node and mark it.
\<close>

inductive change :: "idlist \<Rightarrow> u64 set \<Rightarrow> dres option \<Rightarrow> heap \<Rightarrow> u64 list \<Rightarrow> heap \<Rightarrow> u64 list \<Rightarrow> bool"
  for l :: idlist and own :: "u64 set" where
  quiet: "(\<And>n. r \<noteq> Some (Inserted n)) \<Longrightarrow> change l own r m ns m ns"
| fill: "n \<in> own \<Longrightarrow> change l own None m ns (m(prev_field n := v, next_field n := v')) ns"
| link: "n \<in> own \<Longrightarrow> a = last (head l # us) \<Longrightarrow> b = hd (vs @ [tail l]) \<Longrightarrow>
    m (prev_field n) = a \<Longrightarrow> m (next_field n) = b \<Longrightarrow>
    change l own (Some (Inserted n)) m (us @ vs) (m(next_field a := n, prev_field b := n)) (us @ n # vs)"
| unlink: "a = last (head l # us) \<Longrightarrow> b = hd (vs @ [tail l]) \<Longrightarrow>
    change l own (Some (Deleted n)) m (us @ n # vs)
      (m(next_field a := b, prev_field b := a, next_field n := mark b)) (us @ vs)"

definition pubs :: "dres option \<Rightarrow> u64 list" where
  "pubs r = (case r of Some r' \<Rightarrow> published_by r' | None \<Rightarrow> [])"

definition keeps_marks :: "u64 list \<Rightarrow> heap \<Rightarrow> heap \<Rightarrow> bool" where
  "keeps_marks P m m' \<longleftrightarrow>
     (\<forall>x \<in> set P. is_marked (m (next_field x)) \<longrightarrow> is_marked (m' (next_field x)))"

definition same_fields :: "heap \<Rightarrow> heap \<Rightarrow> u64 \<Rightarrow> bool" where
  "same_fields m m' x \<longleftrightarrow> m' (prev_field x) = m (prev_field x) \<and> m' (next_field x) = m (next_field x)"

lemma pubs_simps [simp]: "pubs None = []" "pubs (Some r) = published_by r"
  by (simp_all add: pubs_def)

lemma between_parts:
  assumes "heap_inv l U P m (us @ vs)"
  shows "last (head l # us) \<in> befores l P" "hd (vs @ [tail l]) \<in> afters l P"
  using heap_invD(4) [OF assms] ends_mem(1) [of "head l" us] ends_mem(2) [of vs "tail l"]
  unfolding befores_def afters_def by auto

text \<open>Deleted nodes are not touched by a change of the links of live nodes.\<close>

lemma dead_ok_frame:
  assumes "dead_ok l P m ns" and "set P \<subseteq> set P'" and "set P' - set ns' \<subseteq> set P - set ns \<union> N"
    and "\<And>x. x \<in> set P - set ns \<Longrightarrow> same_fields m m' x"
    and "\<And>x. x \<in> N \<Longrightarrow> is_marked (m' (next_field x)) \<and> unmark (m' (next_field x)) \<in> afters l P \<and>
        m' (prev_field x) \<in> befores l P \<and> m' (prev_field x) \<noteq> x"
  shows "dead_ok l P' m' ns'"
proof -
  have m: "afters l P \<subseteq> afters l P'" "befores l P \<subseteq> befores l P'"
    using assms(2) by (auto simp: afters_def befores_def)
  show ?thesis
    unfolding dead_ok_def
  proof
    fix x assume "x \<in> set P' - set ns'"
    then consider "x \<in> set P - set ns" | "x \<in> N" using assms(3) by blast
    then show "is_marked (m' (next_field x)) \<and> unmark (m' (next_field x)) \<in> afters l P' \<and>
        m' (prev_field x) \<in> befores l P' \<and> m' (prev_field x) \<noteq> x"
    proof cases
      case 1
      then have "same_fields m m' x" by (rule assms(4))
      then show ?thesis using 1 assms(1) m unfolding dead_ok_def same_fields_def by auto
    next
      case 2
      then show ?thesis using assms(5) m by blast
    qed
  qed
qed

lemma link_inv:
  assumes inv: "heap_inv l U P m (us @ vs)" and n: "n \<in> set U" "n \<notin> set P"
    and ab: "a = last (head l # us)" "b = hd (vs @ [tail l])"
    and f: "m (prev_field n) = a" "m (next_field n) = b"
  shows "heap_inv l U (n # P) (m(next_field a := n, prev_field b := n)) (us @ n # vs)"
proof -
  let ?m = "m(next_field a := n, prev_field b := n)"
  note c = chain_between [of l us vs, folded ab] and c' = chain_insert [of l us n vs, folded ab]
  have sp: "node_space (n # chain l (us @ vs))"
  proof (rule node_space_mono [OF heap_invD(1) [OF inv]])
    show "set (n # chain l (us @ vs)) \<subseteq> set (head l # tail l # U)"
      using heap_invD(2,4) [OF inv] n by (auto simp: chain_def)
    show "distinct (n # chain l (us @ vs))"
      using is_listD(2) [OF heap_invD(3) [OF inv]] heap_invD(1,4) [OF inv] n
      by (auto simp: chain_def node_space_def)
  qed
  have "is_list l ?m (us @ n # vs)" by (rule link_node [OF heap_invD(3) [OF inv] c sp f c'])
  moreover have "dead_ok l (n # P) ?m (us @ n # vs)"
  proof (rule dead_ok_frame [OF heap_invD(5) [OF inv], where N = "{}"])
    fix x assume x: "x \<in> set P - set (us @ vs)"
    have ne: "x \<noteq> a" "x \<noteq> b"
      using x heap_invD(7,8) [OF inv] ends_mem(1) [of "head l" us] ends_mem(2) [of vs "tail l"]
      unfolding ab by auto
    have p: "a \<in> befores l P \<union> afters l P \<union> set U" "b \<in> befores l P \<union> afters l P \<union> set U"
      "x \<in> befores l P \<union> afters l P \<union> set U"
      using between_parts [OF inv] ab x heap_invD(2) [OF inv] by auto
    show "same_fields m ?m x"
      unfolding same_fields_def using ne fields_apart [OF inv p(1,3)] fields_apart [OF inv p(3,2)] by simp
  qed auto
  ultimately show ?thesis
    using heap_invD(1,2,4) [OF inv] n by (auto simp: heap_inv_def)
qed

lemma unlink_inv:
  assumes inv: "heap_inv l U P m (us @ n # vs)"
    and ab: "a = last (head l # us)" "b = hd (vs @ [tail l])"
  shows "heap_inv l U P (m(next_field a := b, prev_field b := a, next_field n := mark b)) (us @ vs)"
proof -
  let ?m = "m(next_field a := b, prev_field b := a, next_field n := mark b)"
  note c = chain_insert [of l us n vs, folded ab] and c' = chain_between [of l us vs, folded ab]
  have d: "distinct (head l # us @ n # vs @ [tail l])"
    using is_listD(2) [OF heap_invD(3) [OF inv]] by (simp add: chain_def)
  have n: "n \<in> set P" using heap_invD(4) [OF inv] by simp
  have anb: "a \<in> befores l P" "b \<in> afters l P" "a \<noteq> n" "b \<noteq> n" "a \<noteq> b"
    using heap_invD(4) [OF inv] ends_mem(1) [of "head l" us] ends_mem(2) [of vs "tail l"] d
    unfolding ab befores_def afters_def by auto
  have apart: "next_field x \<noteq> prev_field b" "prev_field x \<noteq> next_field a" "prev_field x \<noteq> next_field n"
    if "x \<in> befores l P \<union> afters l P \<union> set U" for x
    using that anb n heap_invD(2) [OF inv] fields_apart [OF inv, of x b] fields_apart [OF inv, of a x]
      fields_apart [OF inv, of n x] by auto
  have "is_list l ?m (us @ vs)" by (rule unlink_node [OF heap_invD(3) [OF inv] c c'])
  moreover have "dead_ok l P ?m (us @ vs)"
  proof (rule dead_ok_frame [OF heap_invD(5) [OF inv], where N = "{n}"])
    fix x assume x: "x \<in> set P - set (us @ n # vs)"
    have "x \<noteq> a" "x \<noteq> b" "x \<noteq> n"
      using x heap_invD(7,8) [OF inv] ends_mem(1) [of "head l" us] ends_mem(2) [of vs "tail l"]
      unfolding ab by auto
    then show "same_fields m ?m x"
      unfolding same_fields_def using apart [of x] x by (auto simp: befores_def)
  next
    fix x assume x: "x \<in> {n}"
    have "m (prev_field n) = a" using is_listD(3) [OF heap_invD(3) [OF inv]] c by (simp add: linked_split)
    then show "is_marked (?m (next_field x)) \<and> unmark (?m (next_field x)) \<in> afters l P \<and>
        ?m (prev_field x) \<in> befores l P \<and> ?m (prev_field x) \<noteq> x"
      using x anb apart [of n] n heap_inv_node(3) [OF inv, of b] by (auto simp: befores_def)
  qed (use n in auto)
  ultimately show ?thesis using heap_invD(1,2,4) [OF inv] by (auto simp: heap_inv_def)
qed

lemma fill_inv:
  assumes inv: "heap_inv l U P m ns" and n: "n \<in> set U" "n \<notin> set P"
  shows "heap_inv l U P (m(prev_field n := v, next_field n := v')) ns"
proof -
  let ?m = "m(prev_field n := v, next_field n := v')"
  have sp: "node_space (n # chain l ns)"
  proof (rule node_space_mono [OF heap_invD(1) [OF inv]])
    show "set (n # chain l ns) \<subseteq> set (head l # tail l # U)"
      using heap_invD(2,4) [OF inv] n by (auto simp: chain_def)
    show "distinct (n # chain l ns)"
      using is_listD(2) [OF heap_invD(3) [OF inv]] heap_invD(1,4) [OF inv] n
      by (auto simp: chain_def node_space_def)
  qed
  have "is_list l ?m ns" by (rule fill_node [OF heap_invD(3) [OF inv] sp])
  moreover have "dead_ok l P ?m ns"
  proof (rule dead_ok_frame [OF heap_invD(5) [OF inv], where N = "{}"])
    fix x assume x: "x \<in> set P - set ns"
    then show "same_fields m ?m x"
      using n fields_apart [OF inv, of n x] fields_apart [OF inv, of x n]
      by (auto simp: same_fields_def befores_def)
  qed auto
  ultimately show ?thesis using inv by (simp add: heap_inv_def)
qed

text \<open>The fields outside the published nodes and outside the own node are not touched.\<close>

lemma upd_apart:
  assumes "heap_inv l U P m ns" and "x \<in> befores l P \<union> afters l P \<union> set U"
    and "a \<in> befores l P \<union> afters l P \<union> set U" and "b \<in> befores l P \<union> afters l P \<union> set U"
  shows "(m(next_field a := v, prev_field b := v')) (next_field x) = (if x = a then v else m (next_field x))"
    "(m(next_field a := v, prev_field b := v')) (prev_field x) = (if x = b then v' else m (prev_field x))"
  using fields_apart [OF assms(1,2,4)] fields_apart [OF assms(1,3,2)] by auto

lemma change_inv:
  assumes "change l own r m ns m' ns'" and inv: "heap_inv l U P m ns" and own: "own \<subseteq> set U - set P"
  shows "heap_inv l U (pubs r @ P) m' ns'"
  using assms(1)
proof cases
  case quiet
  then have "pubs r = []" by (cases r; cases "the r") (auto simp: pubs_def)
  then show ?thesis using quiet inv by simp
next
  case (fill n v v')
  then show ?thesis using fill_inv [OF inv, of n v v'] own by (simp add: subset_eq)
next
  case (link n a us b vs)
  then show ?thesis using link_inv [of l U P m us vs n a b] inv own by (auto simp: subset_eq)
next
  case (unlink a us b vs n)
  then show ?thesis using unlink_inv [of l U P m us n vs a b] inv by simp
qed

text \<open>The neighbours of a link that changes are published, and their links were not marked.\<close>

lemma link_live:
  assumes inv: "heap_inv l U P m (us @ vs)" and ab: "a = last (head l # us)" "b = hd (vs @ [tail l])"
  shows "a \<in> befores l P" "b \<in> afters l P" "\<not> is_marked (m (next_field a))"
proof -
  show p: "a \<in> befores l P" "b \<in> afters l P" using between_parts [OF inv] ab by simp_all
  have "m (next_field a) = b"
    using is_listD(3) [OF heap_invD(3) [OF inv]]
    unfolding chain_between [of l us vs, folded ab] linked_split by blast
  then show "\<not> is_marked (m (next_field a))" using heap_inv_node(3) [OF inv, of b] p by simp
qed

lemma unlink_live:
  assumes inv: "heap_inv l U P m (us @ n # vs)" and ab: "a = last (head l # us)" "b = hd (vs @ [tail l])"
  shows "a \<in> befores l P" "b \<in> afters l P" "\<not> is_marked (m (next_field a))" "n \<in> set P"
  using link_live [OF inv ab(1) refl] between_parts(2) [of l U P m "us @ [n]" vs] inv ab heap_invD(4) [OF inv]
  by simp_all

lemma change_keeps_marks:
  assumes "change l own r m ns m' ns'" and inv: "heap_inv l U P m ns" and own: "own \<subseteq> set U - set P"
  shows "keeps_marks P m m'"
  using assms(1)
proof cases
  case quiet
  then show ?thesis by (simp add: keeps_marks_def)
next
  case (fill n v v')
  have "next_field x \<noteq> prev_field n \<and> x \<noteq> n" if "x \<in> set P" for x
    using that fill(4) own fields_apart [OF inv, of x n] by (auto simp: befores_def)
  then show ?thesis using fill by (auto simp: keeps_marks_def)
next
  case (link n a us b vs)
  note live = link_live [OF inv [unfolded link(2)] link(6,7)]
  have "next_field x \<noteq> prev_field b" if "x \<in> set P" for x
    using fields_apart(1) [OF inv, of x b] that live by (simp add: befores_def)
  then show ?thesis using live(3) link(3) by (auto simp: keeps_marks_def)
next
  case (unlink a us b vs n)
  note live = unlink_live [OF inv [unfolded unlink(2)] unlink(5,6)]
  have "next_field x \<noteq> prev_field b" if "x \<in> set P" for x
    using fields_apart(1) [OF inv, of x b] that live by (simp add: befores_def)
  then show ?thesis using live(3) unlink(3) by (auto simp: keeps_marks_def)
qed

lemma change_keeps_private:
  assumes "change l own r m ns m' ns'" and inv: "heap_inv l U P m ns" and own: "own \<subseteq> set U - set P"
    and x: "x \<in> set U - set P - own"
  shows "same_fields m m' x"
  using assms(1)
proof cases
  case quiet
  then show ?thesis by (simp add: same_fields_def)
next
  case (fill n v v')
  then have "x \<noteq> n" "n \<in> set U" using x own by auto
  then show ?thesis
    using fill x fields_apart [OF inv, of x n] fields_apart [OF inv, of n x] by (auto simp: same_fields_def)
next
  case (link n a us b vs)
  note live = link_live [OF inv [unfolded link(2)] link(6,7)]
  have "x \<noteq> a \<and> x \<noteq> b"
    using live x heap_invD(1) [OF inv] by (auto simp: befores_def afters_def node_space_def)
  then show ?thesis
    using upd_apart [OF inv, of x a b n n] live x link(3) by (auto simp: same_fields_def)
next
  case (unlink a us b vs n)
  note live = unlink_live [OF inv [unfolded unlink(2)] unlink(5,6)]
  have "x \<noteq> a \<and> x \<noteq> b \<and> x \<noteq> n"
    using live x heap_invD(1) [OF inv] by (auto simp: befores_def afters_def node_space_def)
  moreover have "prev_field x \<noteq> next_field n"
    using fields_apart [OF inv, of n x] live(4) x by (auto simp: befores_def)
  ultimately show ?thesis
    using upd_apart [OF inv, of x a b b a] live x unlink(3) by (auto simp: same_fields_def)
qed

lemma pc_ok_stable:
  assumes "pc_ok l P m pc" and "set P \<subseteq> set P'" and "keeps_marks P m m'"
    and "\<And>x. x \<in> owned pc \<Longrightarrow> same_fields m m' x"
  shows "pc_ok l P' m' pc"
  using assms by (cases pc) (auto simp: befores_def afters_def keeps_marks_def same_fields_def)

lemma res_ok_stable:
  assumes "res_ok l P m r" and "set P \<subseteq> set P'" and "keeps_marks P m m'"
  shows "res_ok l P' m' r"
  using assms by (cases r) (auto simp: keeps_marks_def)

end
