(* ===== verification/Dlist_Theorems.thy ===== *)
theory Dlist_Theorems
  imports Dlist_Inv
begin

text \<open>
  The theorems on \<open>MwCASDList\<close>: every step of every interleaving keeps the list well linked and
  changes it, if at all, by the insertion or the deletion of one node; no check fires and no
  deleted or null node is dereferenced; results mean what they say for ever.
\<close>

section \<open>One step\<close>

definition good :: "idlist \<Rightarrow> u64 list \<Rightarrow> heap \<Rightarrow> u64 list \<Rightarrow> dpc \<Rightarrow> doutcome \<Rightarrow> bool" where
  "good l P m ns pc out \<longleftrightarrow>
     (case out of
        DGoto pc' m' \<Rightarrow> change l (owned pc) None m ns m' ns \<and> pc_ok l P m' pc' \<and> owned pc' = owned pc
      | DRet r m' \<Rightarrow> (\<exists>ns'. change l (owned pc) (Some r) m ns m' ns') \<and>
          res_ok l (published_by r @ P) m' r
      | DAbort e \<Rightarrow> False)"

lemma good_stay:
  assumes "pc_ok l P m pc'" and "owned pc' = owned pc"
  shows "good l P m ns pc (DGoto pc' m)"
  using assms by (simp add: good_def change.quiet)

lemma good_return:
  assumes "res_ok l P m r" and "published_by r = []"
  shows "good l P m ns pc (DRet r m)"
proof -
  have "r \<noteq> Inserted n" for n using assms(2) by auto
  then show ?thesis using assms by (auto simp: good_def intro!: exI [of _ ns] change.quiet)
qed

lemma good_insert:
  assumes inv: "heap_inv l U P m ns" and pn: "pv \<in> befores l P" "nx \<in> afters l P"
    and n: "m (prev_field n) = pv" "m (next_field n) = nx" "owned pc = {n}"
    and retry: "pc_ok l P m retry" "owned retry = {n}"
  shows "good l P m ns pc
    (cas_then (desc_mwcas w [(next_field pv, nx, n), (prev_field nx, pv, n)] m) (Inserted n) retry)"
proof -
  have ap: "next_field pv \<noteq> prev_field nx" using fields_apart [OF inv, of pv nx] pn by simp
  note spec = desc_mwcas_spec [of "[(next_field pv, nx, n), (prev_field nx, pv, n)]" w m]
  show ?thesis
  proof (cases "\<not> fails w \<and> m (next_field pv) = nx \<and> m (prev_field nx) = pv")
    case True
    then have "m (next_field pv) = nx" by simp
    then obtain xs ys where c: "chain l ns = xs @ pv # nx # ys" by (rule adjacent [OF inv pn])
    then obtain us vs where uv: "ns = us @ vs" "xs @ [pv] = head l # us" "nx # ys = vs @ [tail l]"
      by (rule chain_adjacent)
    have "pv = last (head l # us)" "nx = hd (vs @ [tail l])"
      using uv(2,3) by (metis last_snoc, metis list.sel(1))
    then have "change l {n} (Some (Inserted n)) m ns (m(next_field pv := n, prev_field nx := n)) (us @ n # vs)"
      using n unfolding uv(1) by (intro change.link) simp_all
    then show ?thesis
      using True spec ap n(3) by (auto simp: good_def cas_then_def put_all_def kMaxCount_def)
  next
    case False
    then show ?thesis
      using spec ap retry n(3) by (auto simp: cas_then_def kMaxCount_def intro!: good_stay)
  qed
qed

lemma good_delete:
  assumes inv: "heap_inv l U P m ns" and pn: "pv \<in> befores l P" "nx \<in> afters l P"
    and n: "n \<in> set P" "pv \<noteq> n" "owned pc = {}"
    and retry: "pc_ok l P m retry" "owned retry = {}"
  shows "good l P m ns pc
    (cas_then (desc_mwcas w
      [(next_field pv, n, nx), (prev_field nx, n, pv), (next_field n, nx, mark nx)] m) (Deleted n) retry)"
proof -
  have nb: "n \<in> befores l P" "n \<in> afters l P" using n(1) by (simp_all add: befores_def afters_def)
  have ap: "next_field pv \<noteq> prev_field nx" "next_field n \<noteq> prev_field nx"
    using fields_apart [OF inv, of pv nx] fields_apart [OF inv, of n nx] pn nb by auto
  note spec = desc_mwcas_spec
    [of "[(next_field pv, n, nx), (prev_field nx, n, pv), (next_field n, nx, mark nx)]" w m]
  show ?thesis
  proof (cases "\<not> fails w \<and> m (next_field pv) = n \<and> m (prev_field nx) = n \<and> m (next_field n) = nx")
    case True
    then have t: "m (next_field pv) = n" "m (next_field n) = nx" by simp_all
    obtain xs ys where c: "chain l ns = xs @ pv # n # ys" by (rule adjacent [OF inv pn(1) nb(2) t(1)])
    have "chain l ns = (xs @ [pv]) @ n # ys" using c by simp
    moreover obtain xs' ys' where c': "chain l ns = xs' @ n # nx # ys'"
      by (rule adjacent [OF inv nb(1) pn(2) t(2)])
    moreover have "distinct (chain l ns)" by (rule is_listD(2) [OF heap_invD(3) [OF inv]])
    ultimately have e: "ys = nx # ys'" "xs' = xs @ [pv]"
      by (metis append_Cons_eq_iff distinct_append distinct.simps(2) not_distinct_conv_prefix)+
    obtain us ws where uv: "ns = us @ ws" "xs @ [pv] = head l # us" "n # ys = ws @ [tail l]"
      by (rule chain_adjacent [OF c])
    have "n \<noteq> tail l" using n(1) heap_invD(8) [OF inv] by auto
    then obtain vs where ws: "ws = n # vs" "ys = vs @ [tail l]" using uv(3) by (cases ws) auto
    have "pv = last (head l # us)" "nx = hd (vs @ [tail l])"
      using uv(2) e ws by (metis last_snoc, metis list.sel(1))
    then have "change l {} (Some (Deleted n)) m ns
        (m(next_field pv := nx, prev_field nx := pv, next_field n := mark nx)) (us @ vs)"
      unfolding uv(1) ws(1) by (intro change.unlink) simp_all
    then show ?thesis
      using True spec ap n by (auto simp: good_def cas_then_def put_all_def kMaxCount_def)
  next
    case False
    then show ?thesis
      using spec ap n retry by (auto simp: cas_then_def kMaxCount_def intro!: good_stay)
  qed
qed

text \<open>A plain load that sees a marked link sees the real one.\<close>

lemma raw_load_marked:
  "is_marked (raw_load w m a) \<Longrightarrow> is_marked (m a)"
  by (auto simp: raw_load_def split: option.splits if_splits)

lemma raw_load_node:
  "IsCleanPtr n \<Longrightarrow> raw_load w m a = n \<Longrightarrow> m a = n"
  by (auto simp: raw_load_def split: option.splits if_splits)

lemma step_good:
  assumes inv: "heap_inv l U P m ns" and ok: "pc_ok l P m pc" and own: "owned pc \<subseteq> set U - set P"
    and pc: "pc \<noteq> DIdle"
  shows "good l P m ns pc (MwCASDList_step l w m pc)"
proof -
  note node = heap_inv_node [OF inv]
  show ?thesis
  proof (cases pc)
    case DIdle
    then show ?thesis using pc by simp
  next
    case (IBStart nx n)
    then show ?thesis using ok by (auto simp: befores_def afters_def intro!: good_stay)
  next
    case (IBPrev nx n)
    then show ?thesis using ok node(3) [of nx] prev_before [OF inv, of nx] by (auto intro!: good_stay)
  next
    case (IBNextNext nx n pv)
    then show ?thesis
      using ok node(3) [of pv] marked_iff_dead [OF inv, of nx] by (auto intro!: good_stay)
  next
    case (IBGetNext nx n)
    then show ?thesis
      using ok node(3) [of nx] next_after [OF inv, of nx] by (auto simp: befores_def intro!: good_stay)
  next
    case (IBPrevNext nx n pv)
    then show ?thesis using ok by (auto intro!: good_stay)
  next
    case (IBStore nx n pv)
    have "prev_field n \<noteq> next_field n" using fields_apart [OF inv, of n n] own IBStore by auto
    then show ?thesis
      using ok change.fill [of n "{n}" l m ns pv nx] unfolding IBStore
      by (simp add: good_def fun_upd_twist)
  next
    case (IBCas nx n pv)
    then show ?thesis
      using ok node(2) [of pv] node(2) [of nx] good_insert [OF inv, of pv nx n pc "IBPrev nx n" w] by simp
  next
    case (IAStart pv n)
    then show ?thesis using ok by (auto simp: befores_def afters_def intro!: good_stay)
  next
    case (IANext pv n)
    then show ?thesis
      using ok node(3) [of pv] marked_iff_dead [OF inv, of pv] next_after [OF inv, of pv]
      by (auto intro!: good_stay)
  next
    case (IAGetPrev pv n)
    then have "pv \<in> afters l P" using ok by (simp add: afters_def)
    then show ?thesis
      using IAGetPrev node(3) [of pv] prev_before [OF inv, of pv] node(3) [of "m (prev_field pv)"]
      by (auto intro!: good_stay)
  next
    case (IANextNext pv n nx)
    then show ?thesis using ok by (auto intro!: good_stay)
  next
    case (IAStore pv n nx)
    have "prev_field n \<noteq> next_field n" using fields_apart [OF inv, of n n] own IAStore by auto
    then show ?thesis
      using ok node(2,3) [of nx] node(2) [of pv] change.fill [of n "{n}" l m ns pv nx] unfolding IAStore
      by (simp add: good_def)
  next
    case (IACas pv n nx)
    then show ?thesis
      using ok good_insert [OF inv, of pv nx n pc "IANext pv n" w] by simp
  next
    case (DelLoop n)
    then show ?thesis
      using ok raw_load_marked [of w m "next_field n"] marked_iff_dead [OF inv, of n]
      by (auto simp: befores_def afters_def intro!: good_stay good_return)
  next
    case (DelEnd n)
    have "\<not> is_marked (m (next_field n))" "\<not> is_marked (m (prev_field n))"
    proof -
      show "\<not> is_marked (m (next_field n))"
        using ok DelEnd marked_iff_dead [OF inv, of n] heap_invD(7,8) [OF inv]
        by (auto simp: befores_def afters_def)
      show "\<not> is_marked (m (prev_field n))"
        using ok DelEnd is_listD(4) [OF heap_invD(3) [OF inv]] prev_before(1) [OF inv, of "tail l"]
          node(3) [of "m (prev_field (tail l))"] by (auto simp: afters_def)
    qed
    then show ?thesis
      using ok DelEnd raw_load_marked [of w m] by (auto intro!: good_return)
  next
    case (DelPrev n)
    then have "n \<in> afters l P" using ok by (simp add: afters_def)
    then show ?thesis using ok DelPrev prev_before [OF inv, of n] by (auto intro!: good_stay)
  next
    case (DelNext n pv)
    then have "n \<in> befores l P" using ok by (simp add: befores_def)
    then show ?thesis using ok DelNext next_after [OF inv, of n] by (auto intro!: good_stay)
  next
    case (DelChk1 n pv nx)
    then have n: "n \<in> afters l P" "IsCleanPtr n" "pv \<in> befores l P"
      using ok node(2) [of n] by (simp_all add: afters_def)
    have "\<not> is_marked nx" if "raw_load w m (next_field pv) = n"
    proof -
      have "m (next_field pv) = n" by (rule raw_load_node [OF n(2) that])
      then have "n \<in> set (chain l ns)" using adjacent [OF inv n(3,1)] by blast
      then show ?thesis
        using ok DelChk1 marked_iff_dead [OF inv, of n] heap_invD(7,8) [OF inv]
        by (auto simp: chain_def befores_def)
    qed
    then show ?thesis using ok DelChk1 by (auto simp: befores_def intro!: good_stay)
  next
    case (DelChk2 n pv nx)
    then show ?thesis using ok node(3) [of nx] by (auto simp: befores_def intro!: good_stay)
  next
    case (DelCas n pv nx)
    then show ?thesis
      using ok good_delete [OF inv, of pv nx n pc "DelLoop n" w] by (simp add: befores_def)
  next
    case (NextOf n)
    then show ?thesis by (auto intro!: good_return)
  next
    case (PrevOf n)
    then show ?thesis by (auto intro!: good_return)
  qed
qed

section \<open>The invariant holds\<close>

lemma new_list_empty:
  assumes "node_space [h, t]" and "t + 16 \<notin> {h, h + 8}" and "new_IDList m h t k = (l, m')"
  shows "is_list l m' []" "head l = h" "tail l = t"
proof -
  have l: "l = \<lparr>head = h, tail = t, sync_method = k\<rparr>"
    "m' = DListNode (DListNode m h 0 t 0) t h 0 0"
    using assms(3) by (auto simp: new_IDList_def)
  then show ht: "head l = h" "tail l = t" by simp_all
  note sp = node_spaceD [OF assms(1)]
  have ne: "next_field h \<noteq> prev_field t" "next_field t \<noteq> prev_field h" "h \<noteq> t"
    "prev_field h \<noteq> next_field h" "prev_field t \<noteq> next_field t" "next_field h \<noteq> h + 16"
    "prev_field h \<noteq> h + 16"
    "t + 16 \<noteq> prev_field h" "t + 16 \<noteq> next_field h" "t + 16 \<noteq> prev_field t" "t + 16 \<noteq> next_field t"
    using sp(4) [of t h] sp(4) [of h t] assms(1,2)
    by (auto simp: node_space_def prev_field_def next_field_def)
  then show "is_list l m' []"
    using assms(1) ht by (simp add: is_list_def chain_def l DListNode_def)
qed

lemma dinv_init:
  assumes "dinit s"
  shows "dinv s"
proof -
  obtain m h t where s: "node_space [h, t]" "t + 16 \<notin> {h, h + 8}"
    "new_IDList m h t kSyncMwCAS = (dl s, dmem s)"
    using assms by (auto simp: dinit_def)
  note e = new_list_empty [OF s]
  have "heap_inv (dl s) [] [] (dmem s) []" using e s(1) by (simp add: heap_inv_def dead_ok_def)
  then show ?thesis using assms by (auto simp: dinv_def dinit_def)
qed

lemma heap_inv_used:
  assumes "heap_inv l U P m ns" and "node_space (head l # tail l # ns' @ U)"
  shows "heap_inv l (ns' @ U) P m ns"
  using assms by (auto simp: heap_inv_def)

lemma dinv_start:
  assumes inv: "dinv s" and t: "dpcs s t = DIdle" and may: "may_call s op"
  shows "dinv (s\<lparr>dpcs := (dpcs s)(t := entry_point op), used := new_nodes op @ used s\<rparr>)"
proof -
  obtain ns where h: "heap_inv (dl s) (used s) (published s) (dmem s) ns"
    using inv by (auto simp: dinv_def)
  have sp: "node_space (head (dl s) # tail (dl s) # new_nodes op @ used s)"
    and old: "old_node op \<in> befores (dl s) (published s) \<union> afters (dl s) (published s)"
    using may by (auto simp: may_call_def befores_def afters_def)
  have "pc_ok (dl s) (published s) (dmem s) (entry_point op)" using old by (cases op) auto
  moreover have o: "owned (entry_point op) = set (new_nodes op)" by (cases op) auto
  have fresh: "set (new_nodes op) \<inter> set (used s) = {}" using sp by (auto simp: node_space_def)
  moreover have "owned (dpcs s t') \<subseteq> set (used s) - set (published s)" for t'
    using inv by (auto simp: dinv_def)
  ultimately show ?thesis
    using inv heap_inv_used [OF h sp] o heap_invD(2) [OF h]
    unfolding dinv_def by (auto simp: subset_eq disjoint_iff)
qed

text \<open>A step of thread \<open>t\<close> that changes the memory as \<open>change\<close> allows keeps the others' knowledge.\<close>

lemma dinv_change:
  assumes inv: "dinv s" and h: "heap_inv (dl s) (used s) (published s) (dmem s) ns"
    and ch: "change (dl s) (owned (dpcs s t)) r (dmem s) ns m' ns'"
    and pc': "pc_ok (dl s) (pubs r @ published s) m' pc'"
      "owned pc' \<subseteq> owned (dpcs s t) - set (pubs r)"
    and p: "set (pubs r) \<subseteq> owned (dpcs s t)"
    and res: "\<forall>x \<in> snd ` set rs. res_ok (dl s) (pubs r @ published s) m' x"
  shows "dinv (s\<lparr>dmem := m', dpcs := (dpcs s)(t := pc'), published := pubs r @ published s,
      dresults := rs @ dresults s\<rparr>)"
proof -
  let ?P = "pubs r @ published s"
  have own: "owned (dpcs s t') \<subseteq> set (used s) - set (published s)" for t'
    using inv by (simp add: dinv_def)
  have disj: "owned (dpcs s t) \<inter> owned (dpcs s t') = {}" if "t' \<noteq> t" for t'
    using inv that by (metis dinv_def)
  note keep = change_keeps_marks [OF ch h own]
  have "pc_ok (dl s) ?P m' (dpcs s t')" if "t' \<noteq> t" for t'
  proof (rule pc_ok_stable [OF _ _ keep])
    show "pc_ok (dl s) (published s) (dmem s) (dpcs s t')" using inv by (simp add: dinv_def)
    show "same_fields (dmem s) m' x" if x: "x \<in> owned (dpcs s t')" for x
      using x own [of t'] disj [OF \<open>t' \<noteq> t\<close>] by (intro change_keeps_private [OF ch h own]) blast
  qed simp
  moreover have "\<forall>x \<in> snd ` set (dresults s). res_ok (dl s) ?P m' x"
    using inv res_ok_stable [OF _ _ keep, of "dl s" _ ?P] by (auto simp: dinv_def)
  moreover have "heap_inv (dl s) (used s) ?P m' ns'" by (rule change_inv [OF ch h own])
  moreover have "owned (dpcs s t') \<inter> set ?P = {}" if "t' \<noteq> t" for t'
    using p disj [OF that] own [of t'] by auto
  moreover have "\<forall>t1 t2. t1 \<noteq> t2 \<longrightarrow> owned (((dpcs s)(t := pc')) t1) \<inter> owned (((dpcs s)(t := pc')) t2) = {}"
    using pc'(2) inv unfolding dinv_def by (auto simp: disjoint_iff)
  ultimately show ?thesis
    using pc' res inv own unfolding dinv_def by (auto simp: subset_eq disjoint_iff)
qed

lemma dinv_step:
  assumes inv: "dinv s" and "dstep s s'"
  shows "dinv s'"
proof -
  obtain e where e: "dexec e s = Some s'" using assms(2) by (auto simp: dstep_def)
  have ab: "dabort s = None" using inv by (simp add: dinv_def)
  show ?thesis
  proof (cases e)
    case (DStart t op)
    then show ?thesis using e dinv_start [OF inv] by (auto simp: dexec_def split: if_splits)
  next
    case (DRun t w)
    then have pc: "dpcs s t \<noteq> DIdle" using e ab by (auto simp: dexec_def split: if_splits)
    obtain ns where h: "heap_inv (dl s) (used s) (published s) (dmem s) ns"
      using inv by (auto simp: dinv_def)
    have g: "good (dl s) (published s) (dmem s) ns (dpcs s t) (MwCASDList_step (dl s) w (dmem s) (dpcs s t))"
      using inv by (intro step_good [OF h _ _ pc]) (simp_all add: dinv_def)
    show ?thesis
    proof (cases "MwCASDList_step (dl s) w (dmem s) (dpcs s t)")
      case (DGoto pc' m')
      then have "s' = s\<lparr>dmem := m', dpcs := (dpcs s)(t := pc')\<rparr>"
        using e DRun pc ab by (simp add: dexec_def)
      then show ?thesis
        using g DGoto dinv_change [OF inv h, of t None m' ns pc' "[]"] by (simp add: good_def)
    next
      case (DRet r m')
      then obtain ns' where ch: "change (dl s) (owned (dpcs s t)) (Some r) (dmem s) ns m' ns'"
        and ro: "res_ok (dl s) (published_by r @ published s) m' r" using g by (auto simp: good_def)
      have "set (published_by r) \<subseteq> owned (dpcs s t)" using ch by cases (cases r; auto)+
      moreover have "s' = s\<lparr>dmem := m', dpcs := (dpcs s)(t := DIdle),
          published := published_by r @ published s, dresults := (t, r) # dresults s\<rparr>"
        using e DRun pc ab DRet by (simp add: dexec_def)
      ultimately show ?thesis
        using ro dinv_change [OF inv h ch, of DIdle "[(t, r)]"] by simp
    next
      case (DAbort m)
      then show ?thesis using g by (simp add: good_def)
    qed
  qed
qed

interpretation dlm: invariant_system dinit dstep dinv
  by unfold_locales (auto intro: dinv_init dinv_step)

section \<open>What a step does to the list\<close>

text \<open>
  The specification of a step: the sequence of nodes stays, or it changes in the step in which an
  insertion or a deletion returns. An insertion puts the node between the neighbours it had read; a
  deletion that changes nothing refers to a sentinel or to a node that is no longer in the list.
\<close>

definition list_effect :: "dsys \<Rightarrow> dsys \<Rightarrow> u64 list \<Rightarrow> u64 list \<Rightarrow> bool" where
  "list_effect s s' ns ns' \<longleftrightarrow>
     (ns' = ns \<and> (dresults s' = dresults s \<or>
        (\<exists>t r. dresults s' = (t, r) # dresults s \<and> published_by r = [] \<and>
          (\<forall>n. r = Deleted n \<longrightarrow> n \<notin> set ns)))) \<or>
     (\<exists>t n us vs pv nx. dresults s' = (t, Inserted n) # dresults s \<and> ns = us @ vs \<and> ns' = us @ n # vs \<and>
        n \<notin> set ns \<and> dpcs s t \<in> {IBCas nx n pv, IACas pv n nx} \<and>
        pv = last (head (dl s) # us) \<and> nx = hd (vs @ [tail (dl s)])) \<or>
     (\<exists>t n us vs. dresults s' = (t, Deleted n) # dresults s \<and> ns = us @ n # vs \<and> ns' = us @ vs)"

lemma returns_inserted:
  assumes "MwCASDList_step l w m pc = DRet (Inserted n) m'"
  obtains nx pv where "pc \<in> {IBCas nx n pv, IACas pv n nx}"
  using assms that by (cases pc) (auto simp: cas_then_def split: if_splits sum.splits)

lemma run_effect:
  assumes inv: "dinv s" and e: "dexec (DRun t w) s = Some s'"
    and h: "heap_inv (dl s) (used s) (published s) (dmem s) ns"
  shows "\<exists>ns'. is_list (dl s) (dmem s') ns' \<and> list_effect s s' ns ns'"
proof -
  have ab: "dabort s = None" using inv by (simp add: dinv_def)
  then have pc: "dpcs s t \<noteq> DIdle" using e by (auto simp: dexec_def split: if_splits)
  have ok: "pc_ok (dl s) (published s) (dmem s) (dpcs s t)"
    and own: "owned (dpcs s t) \<subseteq> set (used s) - set (published s)" using inv by (simp_all add: dinv_def)
  have g: "good (dl s) (published s) (dmem s) ns (dpcs s t) (MwCASDList_step (dl s) w (dmem s) (dpcs s t))"
    by (rule step_good [OF h ok own pc])
  show ?thesis
  proof (cases "MwCASDList_step (dl s) w (dmem s) (dpcs s t)")
    case (DGoto pc' m')
    then have ch: "change (dl s) (owned (dpcs s t)) None (dmem s) ns m' ns" using g by (simp add: good_def)
    have "is_list (dl s) m' ns" by (rule heap_invD(3) [OF change_inv [OF ch h own]])
    then show ?thesis
      using e pc ab DGoto by (auto simp: dexec_def list_effect_def intro!: exI [of _ ns])
  next
    case (DRet r m')
    then obtain ns' where ch: "change (dl s) (owned (dpcs s t)) (Some r) (dmem s) ns m' ns'"
      and ro: "res_ok (dl s) (published_by r @ published s) m' r" using g by (auto simp: good_def)
    note h' = change_inv [OF ch h own]
    have s': "dmem s' = m'" "dresults s' = (t, r) # dresults s" using e pc ab DRet by (auto simp: dexec_def)
    have "list_effect s s' ns ns'"
      using ch
    proof cases
      case quiet
      then have p: "published_by r = []" by (cases r) auto
      have "n \<notin> set ns" if "r = Deleted n" for n
        using that ro p quiet heap_invD(4,7,8) [OF h] marked_iff_dead [OF h, of n] by (auto simp: befores_def)
      then show ?thesis using quiet s' p by (auto simp: list_effect_def)
    next
      case (link n a us b vs)
      obtain nx pv where c: "dpcs s t \<in> {IBCas nx n pv, IACas pv n nx}"
        using returns_inserted DRet link(1) by (metis option.inject)
      then have "pv = a" "nx = b" "n \<notin> set ns"
        using ok link own heap_invD(4) [OF h] by auto
      then show ?thesis using link s'(2) c unfolding list_effect_def by blast
    next
      case (unlink a us b vs n)
      then show ?thesis using s'(2) unfolding list_effect_def by blast
    qed
    then show ?thesis using heap_invD(3) [OF h'] s'(1) by auto
  next
    case (DAbort m)
    then show ?thesis using g by (simp add: good_def)
  qed
qed

lemma step_effect:
  assumes inv: "dinv s" and "dstep s s'" and l: "is_list (dl s) (dmem s) ns"
  shows "\<exists>ns'. is_list (dl s') (dmem s') ns' \<and> list_effect s s' ns ns'" "dl s' = dl s"
proof -
  obtain e where e: "dexec e s = Some s'" using assms(2) by (auto simp: dstep_def)
  show dl: "dl s' = dl s"
    using e by (auto simp: dexec_def split: devent.splits if_splits doutcome.splits)
  obtain ns0 where h0: "heap_inv (dl s) (used s) (published s) (dmem s) ns0"
    using inv by (auto simp: dinv_def)
  then have h: "heap_inv (dl s) (used s) (published s) (dmem s) ns"
    using is_list_unique [OF heap_invD(3) [OF h0] l] by simp
  show "\<exists>ns'. is_list (dl s') (dmem s') ns' \<and> list_effect s s' ns ns'"
  proof (cases e)
    case (DStart t op)
    then show ?thesis
      using e l by (auto simp: dexec_def list_effect_def split: if_splits)
  next
    case (DRun t w)
    then show ?thesis using run_effect [OF inv _ h] e dl by simp
  qed
qed

section \<open>Contents and results\<close>

definition inserted :: "dsys \<Rightarrow> u64 set" where
  "inserted s = {n. Inserted n \<in> snd ` set (dresults s)}"

definition deleted :: "dsys \<Rightarrow> u64 set" where
  "deleted s = {n. Deleted n \<in> snd ` set (dresults s)}"

definition dinv_contents :: "dsys \<Rightarrow> bool" where
  "dinv_contents s \<longleftrightarrow> dinv s \<and> (\<exists>ns. is_list (dl s) (dmem s) ns \<and> set ns = inserted s - deleted s)"

lemma deleted_published:
  assumes "dinv s" and "n \<in> deleted s"
  shows "n = head (dl s) \<or> n = tail (dl s) \<or> n \<in> set (published s)"
proof -
  have "res_ok (dl s) (published s) (dmem s) (Deleted n)"
    using assms unfolding dinv_def deleted_def by blast
  then show ?thesis by auto
qed

lemma effect_contents:
  assumes inv: "dinv s" and l: "is_list (dl s) (dmem s) ns" and c: "set ns = inserted s - deleted s"
    and eff: "list_effect s s' ns ns'"
  shows "set ns' = inserted s' - deleted s'"
proof -
  from eff consider
    (quiet) "ns' = ns" "dresults s' = dresults s"
  | (ret) t r where "ns' = ns" "dresults s' = (t, r) # dresults s" "published_by r = []"
      "\<forall>n. r = Deleted n \<longrightarrow> n \<notin> set ns"
  | (ins) t n us vs nx pv where "dresults s' = (t, Inserted n) # dresults s" "ns = us @ vs"
      "ns' = us @ n # vs" "dpcs s t \<in> {IBCas nx n pv, IACas pv n nx}"
  | (del) t n us vs where "dresults s' = (t, Deleted n) # dresults s" "ns = us @ n # vs" "ns' = us @ vs"
    unfolding list_effect_def by blast
  then show ?thesis
  proof cases
    case quiet
    then show ?thesis using c by (simp add: inserted_def deleted_def)
  next
    case ret
    then show ?thesis using c by (cases r) (auto simp: inserted_def deleted_def)
  next
    case ins
    have "owned (dpcs s t) \<subseteq> set (used s) - set (published s)" using inv by (simp add: dinv_def)
    then have "n \<in> set (used s) - set (published s)" using ins(4) by auto
    moreover obtain ns0 where "heap_inv (dl s) (used s) (published s) (dmem s) ns0"
      using inv by (auto simp: dinv_def)
    ultimately have "n \<notin> deleted s"
      using deleted_published [OF inv, of n] heap_invD(1) by (fastforce simp: node_space_def)
    then show ?thesis using ins c by (auto simp: inserted_def deleted_def)
  next
    case del
    have "n \<notin> set us \<union> set vs" using is_listD(2) [OF l] del by (simp add: chain_def)
    then show ?thesis using del c by (auto simp: inserted_def deleted_def)
  qed
qed

interpretation dlc: invariant_system dinit dstep dinv_contents
proof unfold_locales
  fix s assume i: "dinit s"
  then obtain m h t where "node_space [h, t]" "t + 16 \<notin> {h, h + 8}"
    "new_IDList m h t kSyncMwCAS = (dl s, dmem s)"
    by (auto simp: dinit_def)
  then have "is_list (dl s) (dmem s) []" by (rule new_list_empty)
  then show "dinv_contents s"
    using i dinv_init [OF i] by (auto simp: dinv_contents_def dinit_def inserted_def deleted_def)
next
  fix s s' assume i: "dinv_contents s" and st: "dstep s s'"
  then obtain ns where l: "dinv s" "is_list (dl s) (dmem s) ns" "set ns = inserted s - deleted s"
    by (auto simp: dinv_contents_def)
  from step_effect(1) [OF l(1) st l(2)] obtain ns' where
    "is_list (dl s') (dmem s') ns'" "list_effect s s' ns ns'" by blast
  then show "dinv_contents s'"
    using effect_contents [OF l] dinv_step [OF l(1) st] by (auto simp: dinv_contents_def)
qed

section \<open>Sample executions\<close>

fun dexec_all :: "devent list \<Rightarrow> dsys \<Rightarrow> dsys option" where
  "dexec_all [] s = Some s"
| "dexec_all (e # es) s = (case dexec e s of None \<Rightarrow> None | Some s' \<Rightarrow> dexec_all es s')"

lemma dexec_all_reach:
  assumes "reach dinit dstep s" and "dexec_all es s = Some s'"
  shows "reach dinit dstep s'"
  using assms
proof (induction es arbitrary: s)
  case Nil
  then show ?case by simp
next
  case (Cons e es)
  then obtain s1 where "dexec e s = Some s1" "dexec_all es s1 = Some s'" by (auto split: option.splits)
  moreover from this have "dstep s s1" unfolding dstep_def by blast
  ultimately show ?case using Cons.IH [of s1] reach_step [OF Cons.prems(1)] by blast
qed

definition sample_list :: dsys where
  "sample_list = (let lm = new_IDList (\<lambda>_. 0) 256 320 kSyncMwCAS in
     \<lparr>dl = fst lm, dmem = snd lm, dpcs = (\<lambda>_. DIdle), used = [], published = [], dresults = [],
      dabort = None\<rparr>)"

lemma sample_node_space: "node_space [256, 320]" by code_simp

lemma dsample_init: "reach dinit dstep sample_list"
proof (rule reach_init)
  show "dinit sample_list"
    unfolding dinit_def sample_list_def Let_def using sample_node_space
    by (intro conjI exI [of _ "\<lambda>_. 0"] exI [of _ 256] exI [of _ 320]) simp_all
qed

text \<open>
  Thread 1 has prepared an insertion after the head when thread 0 inserts at the same place; thread
  1 has to try again, and thread 2 deletes the first node.
\<close>

definition sample_insert :: "devent list" where
  "sample_insert = DStart 0 (InsertBefore 320 512) # DStart 1 (InsertAfter 256 640) #
     replicate 4 (DRun 1 calm) @ replicate 5 (DRun 0 calm)"

definition sample_delete :: "devent list" where
  "sample_delete = DRun 0 calm # replicate 5 (DRun 1 calm) @
     DStart 2 (Delete 512) # replicate 6 (DRun 2 calm)"

lemma sample_insert_runs:
  "map_option (\<lambda>s. dmem s 264) (dexec_all sample_insert sample_list) = Some 320"
  "map_option (\<lambda>s. dmem s 264) (dexec_all (sample_insert @ [DRun 0 calm]) sample_list) = Some 512"
  by code_simp+

lemma sample_delete_runs:
  "map_option dresults (dexec_all (sample_insert @ sample_delete) sample_list) =
     Some [(2, Deleted 512), (1, Inserted 640), (0, Inserted 512)]"
  by code_simp

lemma dexec_all_append:
  "dexec_all (xs @ ys) s = (case dexec_all xs s of None \<Rightarrow> None | Some s' \<Rightarrow> dexec_all ys s')"
  by (induction xs arbitrary: s) (auto split: option.splits)




lemma distinct_one: "distinct xs \<Longrightarrow> set xs = {x} \<Longrightarrow> xs = [x]"
  by (metis distinct_card card_1_singleton_iff length_0_conv length_Suc_conv list.set_intros(1)
      One_nat_def card.insert singletonD)


text \<open>
  No check of the list operations fires in a reachable state and no marked node pointer is
  followed.
\<close>

theorem dlist_no_abort:
  assumes "reach dinit dstep s"
  shows "dabort s = None"
  using dlm.reach_inv [OF assms] by (simp add: dinv_def)

theorem dlist_no_abort_witness:
  "\<exists>s. reach dinit dstep s \<and> length (dresults s) = 3 \<and> dabort s = None"
proof -
  obtain s where s: "dexec_all (sample_insert @ sample_delete) sample_list = Some s"
      "length (dresults s) = 3"
    using sample_delete_runs by auto
  have "reach dinit dstep s" by (rule dexec_all_reach [OF dsample_init s(1)])
  then show ?thesis using dlist_no_abort s(2) by blast
qed

end
