(* ===== verification/Dlist_Spec.thy ===== *)
theory Dlist_Spec
  imports Dlist_Mwcas
begin

text \<open>
  What the operations of a doubly linked list mean when one thread runs them: insertions and
  deletions as operations on the sequence of the interior nodes, the positions at which they take
  effect, and the contract of an implementation as a locale, with the lemma that a sequence of
  operations computes the sequence of their meanings. Both list classes are instances.
\<close>

section \<open>Positions\<close>

definition bare :: "u64 \<Rightarrow> bool" where
  "bare p \<longleftrightarrow> \<not> is_marked p \<and> \<not> IsDirtyPtr p"

lemma bareD [simp]: "bare p \<Longrightarrow> \<not> is_marked p" "bare p \<Longrightarrow> \<not> IsDirtyPtr p"
  by (simp_all add: bare_def)

lemma chain_plain:
  assumes "node_space ns" and "x \<in> set ns"
  shows "bare x" "x \<noteq> 0" "IsCleanPtr x"
  using node_spaceD [OF assms] by (simp_all add: bare_def)

text \<open>A position of the list and a node to be inserted there.\<close>

definition gap :: "idlist \<Rightarrow> heap \<Rightarrow> u64 list \<Rightarrow> u64 list \<Rightarrow> u64 \<Rightarrow> u64 \<Rightarrow> u64 \<Rightarrow> bool" where
  "gap l m us vs a n b \<longleftrightarrow> is_list l m (us @ vs) \<and> node_space (n # chain l (us @ vs)) \<and>
     a = last (head l # us) \<and> b = hd (vs @ [tail l])"

lemma gapD:
  assumes "gap l m us vs a n b"
  shows "m (next_field a) = b" "m (prev_field b) = a"
    "bare a" "bare n" "bare b" "a \<noteq> 0" "b \<noteq> 0" "a \<noteq> b" "n \<noteq> a" "n \<noteq> b" "b \<noteq> head l" "a \<noteq> tail l"
    "\<not> is_marked (m (next_field b))" "\<not> is_marked (m (prev_field a))"
    "x \<in> {a, n, b} \<Longrightarrow> y \<in> {a, n, b} \<Longrightarrow> next_field x \<noteq> prev_field y"
    "x \<in> {a, n, b} \<Longrightarrow> y \<in> {a, n, b} \<Longrightarrow> prev_field y \<noteq> next_field x"
proof -
  have l: "is_list l m (us @ vs)" and sp: "node_space (n # chain l (us @ vs))"
    and ab: "a = last (head l # us)" "b = hd (vs @ [tail l])"
    using assms by (simp_all add: gap_def)
  note c = chain_between [of l us vs, folded ab]
  have mem: "a \<in> set (chain l (us @ vs))" "b \<in> set (chain l (us @ vs))" unfolding c by simp_all
  have d: "distinct (n # chain l (us @ vs))" using sp by (simp add: node_space_def)
  show "m (next_field a) = b" "m (prev_field b) = a"
    using is_list_between [OF l] ab by simp_all
  show "bare a" "bare n" "bare b" "a \<noteq> 0" "b \<noteq> 0"
    using chain_plain [OF sp] mem by simp_all
  show "a \<noteq> b" "n \<noteq> a" "n \<noteq> b" using d unfolding c by auto
  show "b \<noteq> head l" "a \<noteq> tail l" using chain_ends [OF c] d unfolding c by auto
  show "\<not> is_marked (m (next_field b))" "\<not> is_marked (m (prev_field a))"
    using is_list_unmarked [OF l] mem by simp_all
  show "next_field x \<noteq> prev_field y" "prev_field y \<noteq> next_field x"
    if "x \<in> {a, n, b}" "y \<in> {a, n, b}"
    using node_spaceD(4) [OF sp, of y x] that mem by auto
qed

lemma gap_linked:
  assumes g: "gap l m us vs a n b"
  shows "is_list l (m(prev_field n := a, next_field n := b, next_field a := n, prev_field b := n)) (us @ n # vs)"
proof -
  have l: "is_list l m (us @ vs)" and sp: "node_space (n # chain l (us @ vs))"
    and ab: "a = last (head l # us)" "b = hd (vs @ [tail l])"
    using g by (simp_all add: gap_def)
  show ?thesis
    using gapD(9,10) [OF g] gapD(15) [OF g, of n n]
    by (intro link_node [OF fill_node [OF l sp] chain_between [of l us vs, folded ab] sp _ _
          chain_insert [of l us n vs, folded ab]]) auto
qed

lemma gap_fill: "gap l m us vs a n b \<Longrightarrow> gap l (m(prev_field n := a, next_field n := b)) us vs a n b"
  using fill_node [of l m "us @ vs" n a b] by (simp add: gap_def)

section \<open>Operations on sequences\<close>

text \<open>Where an operation takes effect, as an operation on the sequence of the interior nodes.\<close>

fun list_op :: "idlist \<Rightarrow> dop \<Rightarrow> u64 list \<Rightarrow> u64 list" where
  "list_op l (InsertBefore nx n) ns =
     (if nx = head l then n # ns else takeWhile (\<lambda>x. x \<noteq> nx) ns @ n # dropWhile (\<lambda>x. x \<noteq> nx) ns)"
| "list_op l (InsertAfter pv n) ns =
     (if pv = tail l then ns @ [n] else if pv = head l then n # ns
      else takeWhile (\<lambda>x. x \<noteq> pv) ns @ pv # n # List.tl (dropWhile (\<lambda>x. x \<noteq> pv) ns))"
| "list_op l (Delete n) ns = removeAll n ns"
| "list_op l _ ns = ns"

lemma before_position:
  assumes "distinct (chain l ns)" and "nx \<in> set (chain l ns)" and "nx \<noteq> head l"
  obtains us vs where "ns = us @ vs" "nx = hd (vs @ [tail l])"
    "list_op l (InsertBefore nx n) ns = us @ n # vs"
proof (rule that)
  show "ns = takeWhile (\<lambda>x. x \<noteq> nx) ns @ dropWhile (\<lambda>x. x \<noteq> nx) ns" by simp
  show "nx = hd (dropWhile (\<lambda>x. x \<noteq> nx) ns @ [tail l])"
  proof (cases "nx \<in> set ns")
    case True
    then have "dropWhile (\<lambda>x. x \<noteq> nx) ns \<noteq> []" by (simp add: dropWhile_eq_Nil_conv)
    then show ?thesis using True hd_dropWhile [of "\<lambda>x. x \<noteq> nx" ns] by (auto simp: hd_append)
  next
    case False
    then have dw: "dropWhile (\<lambda>x. x \<noteq> nx) ns = []" by (auto simp: dropWhile_eq_Nil_conv)
    show ?thesis unfolding dw using False assms(2,3) by (simp add: chain_def)
  qed
qed (use assms(3) in simp)

lemma after_position:
  assumes "distinct (chain l ns)" and "pv \<in> set (chain l ns)" and "pv \<noteq> tail l"
  obtains us vs where "ns = us @ vs" "pv = last (head l # us)"
    "list_op l (InsertAfter pv n) ns = us @ n # vs"
proof (cases "pv = head l")
  case True
  then show thesis using that [of "[]" ns] assms(3) by simp
next
  case False
  let ?w = "dropWhile (\<lambda>x. x \<noteq> pv) ns"
  have "?w \<noteq> []" using assms(2,3) False by (auto simp: chain_def dropWhile_eq_Nil_conv)
  then have "?w = pv # List.tl ?w" using hd_dropWhile [of "\<lambda>x. x \<noteq> pv" ns] by (cases ?w) auto
  then have "takeWhile (\<lambda>x. x \<noteq> pv) ns @ pv # List.tl ?w = ns"
    using takeWhile_dropWhile_id [of "\<lambda>x. x \<noteq> pv" ns] by argo
  then have "ns = (takeWhile (\<lambda>x. x \<noteq> pv) ns @ [pv]) @ List.tl ?w" by simp
  then show thesis by (rule that) (use False assms(3) in simp_all)
qed

text \<open>When an operation may be called: its node is in the list, a new node is a fresh object.\<close>

definition op_ok :: "idlist \<Rightarrow> u64 list \<Rightarrow> dop \<Rightarrow> bool" where
  "op_ok l ns op \<longleftrightarrow> old_node op \<in> set (chain l ns) \<and> node_space (new_nodes op @ chain l ns)"

fun ops_ok :: "idlist \<Rightarrow> u64 list \<Rightarrow> dop list \<Rightarrow> bool" where
  "ops_ok l ns [] \<longleftrightarrow> True"
| "ops_ok l ns (op # ops) \<longleftrightarrow> op_ok l ns op \<and> ops_ok l (list_op l op ns) ops"

fun run_ops :: "(dop \<Rightarrow> 's \<Rightarrow> 's checked option) \<Rightarrow> dop list \<Rightarrow> 's \<Rightarrow> 's checked option" where
  "run_ops run [] s = Some (Inr s)"
| "run_ops run (op # ops) s =
     (case run op s of Some (Inr s') \<Rightarrow> run_ops run ops s' | r \<Rightarrow> r)"

section \<open>The contract of an implementation\<close>

locale sequential_list =
  fixes l :: idlist and rep :: "'s \<Rightarrow> u64 list \<Rightarrow> bool" and run :: "dop \<Rightarrow> 's \<Rightarrow> 's checked option"
  assumes run_ok: "rep s ns \<Longrightarrow> op_ok l ns op \<Longrightarrow>
      \<exists>s'. run op s = Some (Inr s') \<and> rep s' (list_op l op ns)"
begin

lemma run_ops_ok:
  assumes "rep s ns" and "ops_ok l ns ops"
  shows "\<exists>s'. run_ops run ops s = Some (Inr s') \<and> rep s' (fold (list_op l) ops ns)"
  using assms
proof (induction ops arbitrary: s ns)
  case Nil
  then show ?case by simp
next
  case (Cons op ops)
  then obtain s1 where "run op s = Some (Inr s1)" "rep s1 (list_op l op ns)" using run_ok by fastforce
  then show ?case using Cons.IH [of s1] Cons.prems(2) by simp
qed

end

end
