(* ===== verification/Dlist_Cas.thy ===== *)
theory Dlist_Cas
  imports Dlist_Spec
begin

text \<open>
  \<open>CASDList\<close> (\<open>src/src/double-linked-list\<close>), the list whose links change by single-word CAS, in the
  build with \<open>PMEM\<close>: the operations as one thread runs them without interference, every loop with
  its retry branches and bounded by fuel (\<open>None\<close> when it runs out). A link that has been stored with
  the dirty bit may not have reached NVRAM; whoever reads it flushes it and clears the bit. The
  memory is therefore a pair of images. \<open>backoff\<close> only lets time pass.
\<close>

section \<open>Memory\<close>

record pmem =
  vis :: heap
  dur :: heap

type_synonym 'a run = "('a \<times> pmem) checked option"

definition bind_run :: "'a run \<Rightarrow> ('a \<Rightarrow> pmem \<Rightarrow> 'b run) \<Rightarrow> 'b run" where
  "bind_run r f = (case r of None \<Rightarrow> None | Some (Inl e) \<Rightarrow> Some (Inl e) | Some (Inr (x, s)) \<Rightarrow> f x s)"

definition ret :: "'a \<Rightarrow> pmem \<Rightarrow> 'a run" where
  "ret x s = Some (Inr (x, s))"

definition raw_check :: "bool \<Rightarrow> string \<Rightarrow> 'a run \<Rightarrow> 'a run" where
  "raw_check b msg k = (if b then k else Some (Inl msg))"

definition CompareExchange64Ptr :: "pmem \<Rightarrow> u64 \<Rightarrow> u64 \<Rightarrow> u64 \<Rightarrow> u64 \<times> pmem" where
  "CompareExchange64Ptr s a newv comparand =
     (vis s a, if vis s a = comparand then s\<lparr>vis := (vis s)(a := newv)\<rparr> else s)"

definition flush_field :: "pmem \<Rightarrow> u64 \<Rightarrow> pmem" where
  "flush_field s a = s\<lparr>dur := (dur s)(a := vis s a)\<rparr>"

text \<open>The payload follows the node: \<open>payload_size\<close> bytes from \<open>GetPayload\<close>.\<close>

definition GetPayload :: "u64 \<Rightarrow> u64" where
  "GetPayload node = node + 64"

definition flush_payload :: "pmem \<Rightarrow> u64 \<Rightarrow> pmem" where
  "flush_payload s node =
     s\<lparr>dur := (\<lambda>a. if a - GetPayload node < ucast (ucast (vis s (node + 16)) :: u32) then vis s a else dur s a)\<rparr>"

definition ReadPersist :: "pmem \<Rightarrow> u64 \<Rightarrow> u64 \<times> pmem" where
  "ReadPersist s a =
     (let node_ptr = vis s a in
      (ClearDirty node_ptr,
       if IsDirtyPtr node_ptr
       then snd (CompareExchange64Ptr (flush_field s a) a (ClearDirty node_ptr) node_ptr) else s))"

definition DereferenceNodePointer :: "pmem \<Rightarrow> u64 \<Rightarrow> u64 \<times> pmem" where
  "DereferenceNodePointer s a = (case ReadPersist s a of (p, s') \<Rightarrow> (unmark p, s'))"

section \<open>The operations\<close>

fun MarkNodePointer :: "nat \<Rightarrow> idlist \<Rightarrow> pmem \<Rightarrow> u64 \<Rightarrow> unit run" where
  "MarkNodePointer 0 l s a = None"
| "MarkNodePointer (Suc fuel) l s a =
     raw_check (a \<noteq> next_field (head l)) ''cannot mark head node's next pointer'' (
       let node_ptr = vis s a in
       if is_marked node_ptr then ret () s
       else case CompareExchange64Ptr s a (mark node_ptr OR kDirtyFlag) node_ptr of (r, s') \<Rightarrow>
         if r = node_ptr then ret () s' else MarkNodePointer fuel l s' a)"

fun CorrectPrev_loop :: "nat \<Rightarrow> idlist \<Rightarrow> pmem \<Rightarrow> u64 \<Rightarrow> u64 \<Rightarrow> u64 \<Rightarrow> u64 run" where
  "CorrectPrev_loop 0 l s prev node last_link = None"
| "CorrectPrev_loop (Suc fuel) l s prev node last_link =
     (case ReadPersist s (prev_field node) of (link1, s1) \<Rightarrow>
      if is_marked link1 then raw_check (\<not> IsDirtyPtr prev) ''dirty prev pointer'' (ret prev s1)
      else (let prev_cleared = unmark prev in
       case ReadPersist s1 (next_field prev_cleared) of (prev_next, s2) \<Rightarrow>
       if is_marked prev_next then
         (if last_link \<noteq> 0 then
            bind_run (MarkNodePointer fuel l s2 (prev_field prev_cleared)) (\<lambda>_ s3.
              CorrectPrev_loop fuel l
                (snd (CompareExchange64Ptr s3 (next_field last_link) (unmark prev_next OR kDirtyFlag) prev))
                last_link node 0)
          else (case ReadPersist s2 (prev_field prev_cleared) of (prev', s3) \<Rightarrow>
            raw_check (prev' \<noteq> 0) ''invalid prev pointer'' (CorrectPrev_loop fuel l s3 prev' node 0)))
       else if prev_next \<noteq> node then CorrectPrev_loop fuel l s2 prev_next node prev_cleared
       else (case CompareExchange64Ptr s2 (prev_field node) (unmark prev OR kDirtyFlag) link1 of (r, s3) \<Rightarrow>
         if r = link1 then
           (case ReadPersist s3 (prev_field prev_cleared) of (prev_cleared_prev, s4) \<Rightarrow>
            if is_marked prev_cleared_prev then CorrectPrev_loop fuel l s4 prev node last_link
            else raw_check (\<not> IsDirtyPtr prev) ''dirty prev pointer'' (ret prev s4))
         else CorrectPrev_loop fuel l s3 prev node last_link)))"

definition CorrectPrev :: "nat \<Rightarrow> idlist \<Rightarrow> pmem \<Rightarrow> u64 \<Rightarrow> u64 \<Rightarrow> u64 run" where
  "CorrectPrev fuel l s prev node =
     raw_check (\<not> is_marked node) ''node has deleted mark'' (
     raw_check (\<not> IsDirtyPtr node) ''dirty node pointer'' (
       CorrectPrev_loop fuel l s prev node 0))"

fun CASDList_GetNext :: "nat \<Rightarrow> idlist \<Rightarrow> pmem \<Rightarrow> u64 \<Rightarrow> u64 run" where
  "CASDList_GetNext 0 l s node = None"
| "CASDList_GetNext (Suc fuel) l s node =
     (if node = tail l then ret 0 s else
      raw_check (node \<noteq> 0) ''null current node'' (
      case DereferenceNodePointer s (next_field node) of (nx, s1) \<Rightarrow>
      raw_check (nx \<noteq> 0) ''null next pointer in list'' (
      raw_check (\<not> IsDirtyPtr nx) ''dirty pointer'' (
      case ReadPersist s1 (next_field nx) of (next_next, s2) \<Rightarrow>
      if is_marked next_next then
        (case ReadPersist s2 (next_field node) of (node_next, s3) \<Rightarrow>
         if node_next \<noteq> mark nx then
           bind_run (MarkNodePointer fuel l s3 (prev_field nx)) (\<lambda>_ s4.
             CASDList_GetNext fuel l
               (snd (CompareExchange64Ptr s4 (next_field node) (unmark (next_next OR kDirtyFlag)) nx)) node)
         else CASDList_GetNext fuel l s3 nx)
      else ret nx s2))))"

fun CASDList_GetPrev :: "nat \<Rightarrow> idlist \<Rightarrow> pmem \<Rightarrow> u64 \<Rightarrow> u64 run" where
  "CASDList_GetPrev 0 l s node = None"
| "CASDList_GetPrev (Suc fuel) l s node =
     (if node = head l then ret 0 s else
      raw_check (node \<noteq> 0) ''null current node'' (
      case DereferenceNodePointer s (prev_field node) of (prev, s1) \<Rightarrow>
      raw_check (prev \<noteq> 0) ''null prev pointer in list'' (
      raw_check (\<not> IsDirtyPtr prev) ''dirty pointer'' (
      case ReadPersist s1 (next_field prev) of (prev_next, s2) \<Rightarrow>
      case ReadPersist s2 (next_field node) of (nx, s3) \<Rightarrow>
      if prev_next = node \<and> \<not> is_marked nx then ret prev s3
      else if is_marked nx then
        bind_run (CASDList_GetNext fuel l s3 node) (\<lambda>node' s4. CASDList_GetPrev fuel l s4 node')
      else bind_run (CorrectPrev fuel l s3 prev node) (\<lambda>_ s4. CASDList_GetPrev fuel l s4 node)))))"

text \<open>Storing and flushing the two links of the node before it becomes visible.\<close>

definition set_links :: "pmem \<Rightarrow> u64 \<Rightarrow> u64 \<Rightarrow> u64 \<Rightarrow> pmem" where
  "set_links s node prev nx =
     (let s' = s\<lparr>vis := (vis s)(prev_field node := unmark prev, next_field node := unmark nx)\<rparr> in
      flush_field (flush_field s' (prev_field node)) (next_field node))"

fun InsertBefore_loop :: "nat \<Rightarrow> idlist \<Rightarrow> pmem \<Rightarrow> u64 \<Rightarrow> u64 \<Rightarrow> unit run" where
  "InsertBefore_loop 0 l s nx node = None"
| "InsertBefore_loop (Suc fuel) l s nx node =
     (case DereferenceNodePointer s (prev_field nx) of (prev, s1) \<Rightarrow>
      case ReadPersist s1 (next_field nx) of (next_next, s2) \<Rightarrow>
      if is_marked next_next then
        bind_run (CASDList_GetNext fuel l s2 nx) (\<lambda>nx' s3.
          raw_check (\<not> IsDirtyPtr nx') ''dirty next pointer'' (
          bind_run (CorrectPrev fuel l s3 prev nx') (\<lambda>prev' s4.
            raw_check (\<not> IsDirtyPtr prev') ''dirty prev pointer'' (
              InsertBefore_loop fuel l s4 nx' node))))
      else (let s3 = set_links s2 node prev nx; expected = unmark nx in
        case CompareExchange64Ptr s3 (next_field prev) node expected of (r, s4) \<Rightarrow>
        if r = expected then
          raw_check (prev \<noteq> 0) ''invalid prev pointer'' (
            bind_run (CorrectPrev fuel l s4 prev nx) (\<lambda>_ s5. ret () s5))
        else bind_run (CorrectPrev fuel l s4 prev nx) (\<lambda>_ s5. InsertBefore_loop fuel l s5 nx node)))"

fun mark_prev_loop :: "nat \<Rightarrow> pmem \<Rightarrow> u64 \<Rightarrow> u64 run" where
  "mark_prev_loop 0 s node = None"
| "mark_prev_loop (Suc fuel) s node =
     (case ReadPersist s (prev_field node) of (node_prev, s1) \<Rightarrow>
      if is_marked node_prev then ret node_prev s1
      else case CompareExchange64Ptr s1 (prev_field node) (mark node_prev OR kDirtyFlag) node_prev of (r, s2) \<Rightarrow>
        if r = node_prev then ret node_prev s2 else mark_prev_loop fuel s2 node)"

fun Delete_loop :: "nat \<Rightarrow> idlist \<Rightarrow> pmem \<Rightarrow> u64 \<Rightarrow> unit run" where
  "Delete_loop 0 l s node = None"
| "Delete_loop (Suc fuel) l s node =
     (case ReadPersist s (next_field node) of (node_next, s1) \<Rightarrow>
      if is_marked node_next then ret () s1
      else case CompareExchange64Ptr s1 (next_field node) (mark node_next OR kDirtyFlag) node_next of (r, s2) \<Rightarrow>
        if r = node_next then
          bind_run (mark_prev_loop fuel s2 node) (\<lambda>node_prev s3.
            raw_check (node_prev \<noteq> 0) ''invalid node_prev pointer'' (
            raw_check (\<not> is_marked (vis s3 (next_field (head l)))) ''invalid next pointer'' (
              bind_run (CorrectPrev fuel l s3 (unmark node_prev) node_next) (\<lambda>_ s4. ret () s4))))
        else Delete_loop fuel l s2 node)"

definition CASDList_Delete :: "nat \<Rightarrow> idlist \<Rightarrow> pmem \<Rightarrow> u64 \<Rightarrow> unit run" where
  "CASDList_Delete fuel l s node =
     raw_check (\<not> IsDirtyPtr node) ''dirty node pointer'' (
     if node = head l \<or> node = tail l then
       raw_check (\<not> is_marked (vis s (next_field node))) ''invalid next pointer'' (
       raw_check (\<not> is_marked (vis s (prev_field node))) ''invalid next pointer'' (ret () s))
     else Delete_loop fuel l s node)"

definition insert_checks :: "string \<Rightarrow> u64 \<Rightarrow> u64 \<Rightarrow> unit run \<Rightarrow> unit run" where
  "insert_checks msg at node k =
     raw_check (\<not> is_marked at) msg (
     raw_check (\<not> IsDirtyPtr node) ''dirty node pointer'' (
     raw_check (\<not> IsDirtyPtr at) ''dirty next pointer'' k))"

text \<open>
  \<open>InsertBefore\<close> and \<open>InsertAfter\<close> call each other at the sentinels and when the node to insert after
  has been deleted; the parameter \<open>ib\<close> of the latter's parts is that call of the former.
\<close>

fun InsertAfter_loop :: "(pmem \<Rightarrow> u64 \<Rightarrow> u64 \<Rightarrow> unit run) \<Rightarrow> nat \<Rightarrow> idlist \<Rightarrow> pmem \<Rightarrow> u64 \<Rightarrow> u64 \<Rightarrow> unit run" where
  "InsertAfter_loop ib 0 l s prev node = None"
| "InsertAfter_loop ib (Suc fuel) l s prev node =
     (case ReadPersist s (next_field prev) of (prev_next, s1) \<Rightarrow>
      let s2 = set_links s1 node prev prev_next; expected = unmark prev_next in
      case CompareExchange64Ptr s2 (next_field prev) node expected of (r, s3) \<Rightarrow>
      if r = expected then
        raw_check (prev_next \<noteq> 0) ''invalid prev_next pointer'' (
          bind_run (CorrectPrev fuel l s3 prev prev_next) (\<lambda>_ s4. ret () s4))
      else if is_marked prev_next then
        bind_run (CASDList_Delete fuel l s3 node) (\<lambda>_ s4. ib s4 prev node)
      else InsertAfter_loop ib fuel l s3 prev node)"

definition InsertAfter_body :: "(pmem \<Rightarrow> u64 \<Rightarrow> u64 \<Rightarrow> unit run) \<Rightarrow> nat \<Rightarrow> idlist \<Rightarrow> pmem \<Rightarrow> u64 \<Rightarrow> u64 \<Rightarrow> unit run" where
  "InsertAfter_body ib fuel l s prev node =
     insert_checks ''invalid prev pointer state'' prev node (
       if prev = tail l then ib s prev node
       else InsertAfter_loop ib fuel l (flush_payload s node) prev node)"

fun CASDList_InsertBefore :: "nat \<Rightarrow> idlist \<Rightarrow> pmem \<Rightarrow> u64 \<Rightarrow> u64 \<Rightarrow> unit run" where
  "CASDList_InsertBefore 0 l s nx node = None"
| "CASDList_InsertBefore (Suc fuel) l s nx node =
     insert_checks ''invalid next pointer state'' nx node (
       if nx = head l
       then InsertAfter_body (\<lambda>s' at n. CASDList_InsertBefore fuel l s' at n) fuel l s nx node
       else InsertBefore_loop fuel l (flush_payload s node) nx node)"

definition CASDList_InsertAfter :: "nat \<Rightarrow> idlist \<Rightarrow> pmem \<Rightarrow> u64 \<Rightarrow> u64 \<Rightarrow> unit run" where
  "CASDList_InsertAfter fuel l s prev node =
     InsertAfter_body (\<lambda>s' at n. CASDList_InsertBefore fuel l s' at n) fuel l s prev node"

section \<open>Reading links\<close>

text \<open>The memory without its dirty bits, which is what the operations see.\<close>

definition links :: "pmem \<Rightarrow> heap" where
  "links s = (\<lambda>a. ClearDirty (vis s a))"

lemma links_at: "links s a = ClearDirty (vis s a)" by (simp add: links_def)

lemma run_simps [simp]:
  "bind_run (ret x s) f = f x s" "bind_run None f = None" "bind_run (Some (Inl e)) f = Some (Inl e)"
  "raw_check True msg k = k" "raw_check False msg k = Some (Inl msg)"
  "ret x s = ret y s' \<longleftrightarrow> x = y \<and> s = s'"
  by (simp_all add: bind_run_def ret_def raw_check_def)

text \<open>
  The state after a read and after a store, and how links and dirty bits are affected: the rules
  by which the operations are executed symbolically.
\<close>

definition after_read :: "pmem \<Rightarrow> u64 \<Rightarrow> pmem" where
  "after_read s a = snd (ReadPersist s a)"

definition put_link :: "pmem \<Rightarrow> u64 \<Rightarrow> u64 \<Rightarrow> pmem" where
  "put_link s a v = s\<lparr>vis := (vis s)(a := v)\<rparr>"

definition clean_at :: "pmem \<Rightarrow> u64 \<Rightarrow> bool" where
  "clean_at s a \<longleftrightarrow> \<not> IsDirtyPtr (vis s a)"

lemma after_read_vis: "vis (after_read s a) = (vis s)(a := links s a)"
  by (auto simp: after_read_def ReadPersist_def Let_def CompareExchange64Ptr_def flush_field_def links_at)

lemma ReadPersist_eq [simp]: "ReadPersist s a = (links s a, after_read s a)"
  by (simp add: ReadPersist_def after_read_def links_at Let_def)

lemma Dereference_eq [simp]: "DereferenceNodePointer s a = (unmark (links s a), after_read s a)"
  by (simp add: DereferenceNodePointer_def)

lemma after_read_simps [simp]:
  "links (after_read s a) = links s" "clean_at (after_read s a) a"
  "clean_at s b \<Longrightarrow> clean_at (after_read s a) b"
proof -
  show "links (after_read s a) = links s"
    by (rule ext) (simp add: links_at after_read_vis)
  show "clean_at (after_read s a) a" by (simp add: clean_at_def after_read_vis links_at)
  show "clean_at (after_read s a) b" if "clean_at s b"
    using that by (simp add: clean_at_def after_read_vis links_at)
qed

lemma marked_vis: "is_marked (vis s a) \<longleftrightarrow> is_marked (links s a)"
  by (simp add: links_at)

lemma put_link_simps [simp]:
  "links (put_link s a v) = (links s)(a := ClearDirty v)"
  "clean_at (put_link s a v) b \<longleftrightarrow> (if b = a then \<not> IsDirtyPtr v else clean_at s b)"
  by (auto simp: links_def put_link_def clean_at_def)

lemma flush_simps [simp]:
  "links (flush_field s a) = links s" "clean_at (flush_field s a) b = clean_at s b"
  "links (flush_payload s n) = links s" "clean_at (flush_payload s n) b = clean_at s b"
  by (simp_all add: links_def flush_field_def flush_payload_def clean_at_def)

lemma set_links_simps:
  assumes "\<not> IsDirtyPtr p" and "\<not> IsDirtyPtr q"
  shows "links (set_links s n p q) = (links s)(prev_field n := unmark p, next_field n := unmark q)"
    "clean_at (set_links s n p q) b \<longleftrightarrow> b = prev_field n \<or> b = next_field n \<or> clean_at s b"
  using assms by (auto simp: set_links_def Let_def links_def clean_at_def flush_field_def)

lemma cas_clean:
  assumes "clean_at s a"
  shows "CompareExchange64Ptr s a v c = (links s a, if links s a = c then put_link s a v else s)"
  using assms by (simp add: CompareExchange64Ptr_def links_at clean_at_def put_link_def)

lemma cas_dirty:
  assumes "\<not> clean_at s a" and "\<not> IsDirtyPtr c"
  shows "fst (CompareExchange64Ptr s a v c) \<noteq> c" "snd (CompareExchange64Ptr s a v c) = s"
  using assms by (auto simp: CompareExchange64Ptr_def clean_at_def)

lemma links_clean [simp]: "\<not> IsDirtyPtr (links s a)"
  by (simp add: links_at)

lemma ClearDirty_pointer [simp]:
  "\<not> IsDirtyPtr p \<Longrightarrow> ClearDirty (p OR kDirtyFlag) = p"
  by simp

section \<open>Correcting a \<open>prev\<close> link\<close>

text \<open>One round of \<open>CorrectPrev\<close> in each of the situations that arise without interference.\<close>

lemma CorrectPrev_hit:
  assumes "\<not> is_marked (links s (prev_field node))" and "\<not> is_marked prev" "\<not> IsDirtyPtr prev"
    and "links s (next_field prev) = node" and "\<not> is_marked node"
    and "\<not> is_marked (links s (prev_field prev))" and "prev \<noteq> node"
    and "next_field prev \<noteq> prev_field node"
  shows "\<exists>s'. CorrectPrev_loop (Suc fuel) l s prev node ll = ret prev s' \<and>
    links s' = (links s)(prev_field node := prev) \<and> clean_at s' (next_field prev)"
  using assms by (simp add: Let_def cas_clean)

lemma CorrectPrev_skip:
  assumes "\<not> is_marked (links s (prev_field node))" and "\<not> is_marked prev"
    and "links s (next_field prev) = x" and "x \<noteq> node" and "\<not> is_marked x"
  shows "\<exists>s'. CorrectPrev_loop (Suc fuel) l s prev node ll = CorrectPrev_loop fuel l s' x node prev \<and>
    links s' = links s \<and> clean_at s' (next_field prev)"
  using assms by (auto simp: Let_def intro!: exI [of _ "after_read (after_read s a) b" for a b])

lemma CorrectPrev_unlink:
  assumes "\<not> is_marked (links s (prev_field node))" and "\<not> is_marked prev"
    and "links s (next_field prev) = mark x" and "\<not> is_marked x" "\<not> IsDirtyPtr x"
    and "is_marked (links s (prev_field prev))" and "ll \<noteq> 0"
    and "prev \<noteq> head l" "prev_field prev \<noteq> next_field (head l)"
    and "links s (next_field ll) = prev" and "clean_at s (next_field ll)"
  shows "\<exists>s'. CorrectPrev_loop (Suc (Suc fuel)) l s prev node ll = CorrectPrev_loop (Suc fuel) l s' ll node 0 \<and>
    links s' = (links s)(next_field ll := x)"
proof -
  let ?s = "after_read (after_read s (prev_field node)) (next_field prev)"
  have "is_marked (vis ?s (prev_field prev))"
    using assms(6) by (simp add: marked_vis)
  then have "MarkNodePointer (Suc fuel) l ?s (prev_field prev) = ret () ?s"
    using assms(9) by (simp add: Let_def)
  then show ?thesis
    using assms unfolding CorrectPrev_loop.simps(2) [of "Suc fuel"]
    by (auto simp: Let_def cas_clean simp del: MarkNodePointer.simps CorrectPrev_loop.simps intro!: exI)
qed

text \<open>The two uses of \<open>CorrectPrev\<close>: after a node has been linked, and after one has been marked.\<close>

lemma CorrectPrev_linked:
  assumes "links s (next_field prev) = node" "links s (next_field node) = nx"
    and "links s (prev_field node) = prev" "links s (prev_field nx) = prev"
    and "bare prev" "bare node" "bare nx" and "node \<noteq> nx" and "next_field node \<noteq> prev_field nx"
  shows "\<exists>s'. CorrectPrev (Suc (Suc fuel)) l s prev nx = ret node s' \<and>
    links s' = (links s)(prev_field nx := node)"
proof -
  obtain s1 where s1: "CorrectPrev_loop (Suc (Suc fuel)) l s prev nx 0 = CorrectPrev_loop (Suc fuel) l s1 node nx prev"
      "links s1 = links s"
    using CorrectPrev_skip [of s nx prev node "Suc fuel" l 0] assms by auto
  obtain s2 where "CorrectPrev_loop (Suc fuel) l s1 node nx prev = ret node s2"
      "links s2 = (links s)(prev_field nx := node)"
    using CorrectPrev_hit [of s1 nx node fuel l prev] assms s1(2) by auto
  then show ?thesis using s1(1) assms(7) by (simp add: CorrectPrev_def del: CorrectPrev_loop.simps)
qed

lemma CorrectPrev_unlinks:
  assumes "links s (next_field a) = n" "links s (next_field n) = mark b"
    and "links s (prev_field n) = mark a" "links s (prev_field b) = n"
    and "\<not> is_marked (links s (prev_field a))"
    and "bare a" "bare n" "bare b" and "a \<noteq> 0" "n \<noteq> b" "a \<noteq> b" "n \<noteq> head l"
    and "prev_field n \<noteq> next_field (head l)" "next_field a \<noteq> prev_field b" "prev_field a \<noteq> next_field a"
  shows "\<exists>s'. CorrectPrev (Suc (Suc (Suc fuel))) l s a b = ret a s' \<and>
    links s' = (links s)(next_field a := b, prev_field b := a)"
proof -
  obtain s1 where s1: "CorrectPrev_loop (Suc (Suc (Suc fuel))) l s a b 0 = CorrectPrev_loop (Suc (Suc fuel)) l s1 n b a"
      "links s1 = links s" "clean_at s1 (next_field a)"
    using CorrectPrev_skip [of s b a n "Suc (Suc fuel)" l 0] assms by auto
  have "\<exists>s2. CorrectPrev_loop (Suc (Suc fuel)) l s1 n b a = CorrectPrev_loop (Suc fuel) l s2 a b 0 \<and>
      links s2 = (links s)(next_field a := b)"
    using CorrectPrev_unlink [of s1 b n b a l fuel] assms s1(2,3) by (simp del: CorrectPrev_loop.simps)
  then obtain s2 where s2: "CorrectPrev_loop (Suc (Suc fuel)) l s1 n b a = CorrectPrev_loop (Suc fuel) l s2 a b 0"
      "links s2 = (links s)(next_field a := b)" by blast
  have "\<exists>s3. CorrectPrev_loop (Suc fuel) l s2 a b 0 = ret a s3 \<and> links s3 = (links s2)(prev_field b := a)"
    using CorrectPrev_hit [of s2 b a fuel l 0] assms s2(2) by (auto simp del: CorrectPrev_loop.simps)
  then show ?thesis using s1(1) s2 assms(8) by (simp add: CorrectPrev_def del: CorrectPrev_loop.simps)
qed

section \<open>The operations on a well linked list\<close>

text \<open>With a clean link the insertion succeeds in the first round, otherwise in the second.\<close>

lemma InsertBefore_clean:
  assumes g: "gap l (links s) us vs a n b" and c: "clean_at s (next_field a)"
  shows "\<exists>s'. InsertBefore_loop (Suc (Suc (Suc fuel))) l s b n = ret () s' \<and> is_list l (links s') (us @ n # vs)"
proof -
  note gd = gapD [OF g]
  let ?s3 = "set_links (after_read (after_read s (prev_field b)) (next_field b)) n a b"
  let ?s4 = "put_link ?s3 (next_field a) n"
  have l3: "links ?s3 = (links s)(prev_field n := a, next_field n := b)"
    using gd(3,5) by (simp add: set_links_simps)
  have c3: "clean_at ?s3 (next_field a)" using c gd(3,5) by (simp add: set_links_simps)
  have l4: "links ?s4 = (links s)(prev_field n := a, next_field n := b, next_field a := n)"
    using l3 gd(4) by simp
  have "\<exists>s5. CorrectPrev (Suc (Suc fuel)) l ?s4 a b = ret n s5 \<and> links s5 = (links ?s4)(prev_field b := n)"
    using gd by (intro CorrectPrev_linked) (simp_all add: l3)
  then obtain s5 where s5: "CorrectPrev (Suc (Suc fuel)) l ?s4 a b = ret n s5"
      "links s5 = (links ?s4)(prev_field b := n)" by blast
  have "InsertBefore_loop (Suc (Suc (Suc fuel))) l s b n = ret () s5"
    using gd s5(1) cas_clean [OF c3, of n b] l3 unfolding InsertBefore_loop.simps(2) [of "Suc (Suc fuel)"]
    by (simp add: Let_def)
  then show ?thesis using gap_linked [OF g] s5(2) l4 by auto
qed

lemma InsertBefore_ok:
  assumes g: "gap l (links s) us vs a n b"
  shows "\<exists>s'. InsertBefore_loop (Suc (Suc (Suc (Suc fuel)))) l s b n = ret () s' \<and>
    is_list l (links s') (us @ n # vs)"
proof (cases "clean_at s (next_field a)")
  case True
  then show ?thesis by (rule InsertBefore_clean [OF g])
next
  case False
  note gd = gapD [OF g]
  let ?s3 = "set_links (after_read (after_read s (prev_field b)) (next_field b)) n a b"
  have l3: "links ?s3 = (links s)(prev_field n := a, next_field n := b)"
    using gd(3,5) by (simp add: set_links_simps)
  show ?thesis
  proof (cases "clean_at ?s3 (next_field a)")
    case True
    then have "next_field a \<in> {prev_field n, next_field n} \<or>
        clean_at (after_read (after_read s (prev_field b)) (next_field b)) (next_field a)"
      using gd(3,5) by (simp add: set_links_simps)
    then show ?thesis using gd(8,9) gd(15) [of a n] False gd(15) [of a b]
      by (auto simp: clean_at_def after_read_vis split: if_splits)
  next
    case dirty: False
    have "\<exists>s5. CorrectPrev_loop (Suc (Suc (Suc fuel))) l ?s3 a b 0 = ret a s5 \<and>
        links s5 = (links ?s3)(prev_field b := a) \<and> clean_at s5 (next_field a)"
      using gd by (intro CorrectPrev_hit) (simp_all add: l3)
    then obtain s5 where s5: "CorrectPrev_loop (Suc (Suc (Suc fuel))) l ?s3 a b 0 = ret a s5"
        "links s5 = (links ?s3)(prev_field b := a)" "clean_at s5 (next_field a)" by blast
    have "links s5 = (links s)(prev_field n := a, next_field n := b)"
      using s5(2) l3 gd(2) gd(15,16) [of n b] gd(10) by (auto simp: fun_eq_iff)
    then have g5: "gap l (links s5) us vs a n b" using gap_fill [OF g] by simp
    have "InsertBefore_loop (Suc (Suc (Suc (Suc fuel)))) l s b n = InsertBefore_loop (Suc (Suc (Suc fuel))) l s5 b n"
      using gd s5(1) cas_dirty [OF dirty, of b n]
      unfolding InsertBefore_loop.simps(2) [of "Suc (Suc (Suc fuel))"]
      by (simp add: Let_def CorrectPrev_def split_beta del: CorrectPrev_loop.simps InsertBefore_loop.simps)
    then show ?thesis using InsertBefore_clean [OF g5 s5(3), of fuel] by simp
  qed
qed

lemma InsertAfter_ok:
  assumes g: "gap l (links s) us vs a n b"
  shows "\<exists>s'. InsertAfter_loop ib (Suc (Suc (Suc fuel))) l s a n = ret () s' \<and> is_list l (links s') (us @ n # vs)"
proof -
  note gd = gapD [OF g]
  let ?s3 = "set_links (after_read s (next_field a)) n a b"
  let ?s4 = "put_link ?s3 (next_field a) n"
  have l3: "links ?s3 = (links s)(prev_field n := a, next_field n := b)"
    using gd(3,5) by (simp add: set_links_simps)
  have c3: "clean_at ?s3 (next_field a)" using gd(3,5) by (simp add: set_links_simps)
  have l4: "links ?s4 = (links s)(prev_field n := a, next_field n := b, next_field a := n)"
    using l3 gd(4) by simp
  have "\<exists>s5. CorrectPrev (Suc (Suc fuel)) l ?s4 a b = ret n s5 \<and> links s5 = (links ?s4)(prev_field b := n)"
    using gd by (intro CorrectPrev_linked) (simp_all add: l3)
  then obtain s5 where s5: "CorrectPrev (Suc (Suc fuel)) l ?s4 a b = ret n s5"
      "links s5 = (links ?s4)(prev_field b := n)" by blast
  have "InsertAfter_loop ib (Suc (Suc (Suc fuel))) l s a n = ret () s5"
    using gd s5(1) cas_clean [OF c3, of n b] l3 unfolding InsertAfter_loop.simps(2) [of ib "Suc (Suc fuel)"]
    by (simp add: Let_def)
  then show ?thesis using gap_linked [OF g] s5(2) l4 by auto
qed

lemma Delete_ok:
  assumes l: "is_list l (links s) (us @ n # vs)"
  shows "\<exists>s'. Delete_loop (Suc (Suc (Suc (Suc fuel)))) l s n = ret () s' \<and> is_list l (links s') (us @ vs) \<and>
    is_marked (links s' (next_field n))"
proof -
  define a where "a = last (head l # us)"
  define b where "b = hd (vs @ [tail l])"
  note c = chain_insert [of l us n vs, folded a_def b_def] and c' = chain_between [of l us vs, folded a_def b_def]
  note sp = is_listD(1) [OF l] and d = is_listD(2) [OF l]
  have mem: "{a, n, b, head l} \<subseteq> set (chain l (us @ n # vs))" unfolding c using c by (auto simp: chain_def)
  have pl: "bare a" "bare n" "bare b" "a \<noteq> 0" using chain_plain [OF sp] mem by auto
  have lk: "links s (next_field a) = n" "links s (prev_field n) = a" "links s (next_field n) = b"
    "links s (prev_field b) = n"
    using is_list_between [of l "links s" us "n # vs"] is_list_between [of l "links s" "us @ [n]" vs] l
    by (simp_all add: a_def b_def)
  have ne: "a \<noteq> n" "a \<noteq> b" "n \<noteq> b" "n \<noteq> head l"
    using d c chain_ends(1) [OF c] by auto
  have nf: "next_field x \<noteq> prev_field y" "prev_field y \<noteq> next_field x"
    if "x \<in> {a, n, b, head l}" "y \<in> {a, n, b, head l}" for x y
    using node_spaceD(4) [OF sp, of y x] that mem by auto
  have um: "\<not> is_marked (links s (prev_field a))" "\<not> is_marked (links s (next_field (head l)))"
    using is_list_unmarked [OF l] mem by auto
  let ?s2 = "put_link (after_read s (next_field n)) (next_field n) (mark b OR kDirtyFlag)"
  let ?s3 = "put_link (after_read ?s2 (prev_field n)) (prev_field n) (mark a OR kDirtyFlag)"
  have l3: "links ?s3 = (links s)(next_field n := mark b, prev_field n := mark a)"
    using pl by simp
  have "\<exists>s4. CorrectPrev (Suc (Suc (Suc fuel))) l ?s3 a b = ret a s4 \<and>
      links s4 = (links ?s3)(next_field a := b, prev_field b := a)"
  proof (rule CorrectPrev_unlinks)
    show "links ?s3 (next_field a) = n" "links ?s3 (next_field n) = mark b"
      "links ?s3 (prev_field n) = mark a" "links ?s3 (prev_field b) = n"
      "\<not> is_marked (links ?s3 (prev_field a))"
      unfolding l3 using lk ne um nf by auto
  qed (use pl ne nf in auto)
  then obtain s4 where s4: "CorrectPrev (Suc (Suc (Suc fuel))) l ?s3 a b = ret a s4"
      "links s4 = (links ?s3)(next_field a := b, prev_field b := a)" by blast
  have mp: "mark_prev_loop (Suc (Suc (Suc fuel))) ?s2 n = ret a ?s3"
    using pl lk nf [of n n] by (simp add: cas_clean)
  have "Delete_loop (Suc (Suc (Suc (Suc fuel)))) l s n = ret () s4"
    using pl lk s4(1) um(2) mp ne nf unfolding Delete_loop.simps(2) [of "Suc (Suc (Suc fuel))"]
    by (simp add: cas_clean marked_vis l3 del: mark_prev_loop.simps)
  moreover have "links s4 = ((links s)(next_field a := b, prev_field b := a, next_field n := mark b))
      (prev_field n := mark a, next_field n := mark b)"
    using s4(2) ne nf unfolding l3 by (auto simp: fun_eq_iff)
  moreover have "is_list l (((links s)(next_field a := b, prev_field b := a, next_field n := mark b))
      (prev_field n := mark a, next_field n := mark b)) (us @ vs)"
  proof (rule fill_node [OF unlink_node [OF l c c']])
    have "distinct (n # chain l (us @ vs))" "set (n # chain l (us @ vs)) \<subseteq> set (chain l (us @ n # vs))"
      using d by (auto simp: chain_def)
    then show "node_space (n # chain l (us @ vs))" using node_space_mono [OF sp] by blast
  qed
  ultimately show ?thesis by auto
qed

definition CASDList_op :: "nat \<Rightarrow> idlist \<Rightarrow> dop \<Rightarrow> pmem \<Rightarrow> pmem checked option" where
  "CASDList_op fuel l op s =
     map_option (map_sum id snd)
       (case op of
          InsertBefore nx n \<Rightarrow> bind_run (CASDList_InsertBefore fuel l s nx n) (\<lambda>_. ret 0)
        | InsertAfter pv n \<Rightarrow> bind_run (CASDList_InsertAfter fuel l s pv n) (\<lambda>_. ret 0)
        | Delete n \<Rightarrow> bind_run (CASDList_Delete fuel l s n) (\<lambda>_. ret 0)
        | GetNext n \<Rightarrow> CASDList_GetNext fuel l s n
        | GetPrev n \<Rightarrow> CASDList_GetPrev fuel l s n)"

lemma insert_checks_ok: "bare at \<Longrightarrow> bare node \<Longrightarrow> insert_checks msg at node k = k"
  by (simp add: insert_checks_def)

lemma CAS_InsertBefore:
  assumes l: "is_list l (links s) ns" and ok: "op_ok l ns (InsertBefore nx n)"
  shows "\<exists>s'. CASDList_InsertBefore (Suc (Suc (Suc (Suc (Suc fuel))))) l s nx n = ret () s' \<and>
    is_list l (links s') (list_op l (InsertBefore nx n) ns)"
proof -
  have m: "nx \<in> set (chain l ns)" and sp: "node_space (n # chain l ns)" using ok by (simp_all add: op_ok_def)
  have pl: "bare nx" "bare n" using chain_plain [OF sp] m by auto
  let ?s = "flush_payload s n"
  show ?thesis
  proof (cases "nx = head l")
    case True
    have "head l \<noteq> tail l" using is_listD(2) [OF l] by (simp add: chain_def)
    moreover have "gap l (links ?s) [] ns (head l) n (hd (ns @ [tail l]))" using l sp by (simp add: gap_def)
    ultimately show ?thesis
      using True pl InsertAfter_ok [of l ?s "[]" ns "head l" n _ _ "Suc fuel"]
      by (simp add: insert_checks_ok InsertAfter_body_def del: InsertAfter_loop.simps)
  next
    case False
    obtain us vs where uv: "ns = us @ vs" "nx = hd (vs @ [tail l])"
        "list_op l (InsertBefore nx n) ns = us @ n # vs"
      by (rule before_position [OF is_listD(2) [OF l] m False])
    have "gap l (links ?s) us vs (last (head l # us)) n nx" using l sp uv by (simp add: gap_def)
    from InsertBefore_ok [OF this, of fuel] show ?thesis
      using False pl uv(3) by (simp add: insert_checks_ok del: InsertBefore_loop.simps list_op.simps)
  qed
qed

lemma CAS_InsertAfter:
  assumes l: "is_list l (links s) ns" and ok: "op_ok l ns (InsertAfter pv n)"
  shows "\<exists>s'. CASDList_InsertAfter (Suc (Suc (Suc (Suc (Suc fuel))))) l s pv n = ret () s' \<and>
    is_list l (links s') (list_op l (InsertAfter pv n) ns)"
proof -
  have m: "pv \<in> set (chain l ns)" and sp: "node_space (n # chain l ns)" using ok by (simp_all add: op_ok_def)
  have pl: "bare pv" "bare n" using chain_plain [OF sp] m by auto
  have ht: "head l \<noteq> tail l" using is_listD(2) [OF l] by (simp add: chain_def)
  show ?thesis
  proof (cases "pv = tail l")
    case True
    have "op_ok l ns (InsertBefore (tail l) n)" using ok True by (simp add: op_ok_def)
    from CAS_InsertBefore [OF l this, of fuel] obtain s' where
      "CASDList_InsertBefore (Suc (Suc (Suc (Suc (Suc fuel))))) l s (tail l) n = ret () s'"
      "is_list l (links s') (list_op l (InsertBefore (tail l) n) ns)" by blast
    moreover have "list_op l (InsertBefore (tail l) n) ns = ns @ [n]"
    proof -
      have "\<forall>x \<in> set ns. x \<noteq> tail l" using is_listD(2) [OF l] by (auto simp: chain_def)
      then show ?thesis using ht by (simp add: takeWhile_eq_all_conv [THEN iffD2] dropWhile_eq_Nil_conv [THEN iffD2])
    qed
    ultimately show ?thesis
      using True pl ht unfolding CASDList_InsertAfter_def InsertAfter_body_def
      by (auto simp: insert_checks_ok simp del: CASDList_InsertBefore.simps)
  next
    case False
    obtain us vs where uv: "ns = us @ vs" "pv = last (head l # us)"
        "list_op l (InsertAfter pv n) ns = us @ n # vs"
      by (rule after_position [OF is_listD(2) [OF l] m False])
    have "gap l (links (flush_payload s n)) us vs pv n (hd (vs @ [tail l]))" using l sp uv by (simp add: gap_def)
    from InsertAfter_ok [OF this, of _ "Suc (Suc fuel)"] show ?thesis
      using False pl uv(3) unfolding CASDList_InsertAfter_def InsertAfter_body_def
      by (simp add: insert_checks_ok del: InsertAfter_loop.simps list_op.simps)
  qed
qed

lemma CAS_Delete:
  assumes l: "is_list l (links s) ns" and n: "n \<in> set (chain l ns)"
  shows "\<exists>s'. CASDList_Delete (Suc (Suc (Suc (Suc fuel)))) l s n = ret () s' \<and>
    is_list l (links s') (list_op l (Delete n) ns) \<and>
    (n \<noteq> head l \<and> n \<noteq> tail l \<longrightarrow> is_marked (links s' (next_field n)))"
proof -
  have pl: "bare n" using chain_plain [OF is_listD(1) [OF l] n] by simp
  show ?thesis
  proof (cases "n = head l \<or> n = tail l")
    case True
    then have "n \<notin> set ns" using is_listD(2) [OF l] by (auto simp: chain_def)
    then show ?thesis
      using True l pl is_list_unmarked [OF l n] by (auto simp: CASDList_Delete_def marked_vis)
  next
    case False
    then have "n \<in> set ns" using n by (auto simp: chain_def)
    then obtain us vs where uv: "ns = us @ n # vs" by (meson split_list)
    have "removeAll n ns = us @ vs"
      using is_listD(2) [OF l] uv by (auto simp: chain_def removeAll_id)
    then show ?thesis
      using Delete_ok [of l s us n vs fuel] l uv False pl
      by (simp add: CASDList_Delete_def del: Delete_loop.simps)
  qed
qed

lemma CAS_GetNext:
  assumes l: "is_list l (links s) ns" and n: "n \<in> set (chain l ns)"
  shows "\<exists>s'. CASDList_GetNext (Suc fuel) l s n = ret (if n = tail l then 0 else links s (next_field n)) s' \<and>
    links s' = links s"
proof (cases "n = tail l")
  case True
  then show ?thesis by simp
next
  case False
  have nx: "links s (next_field n) \<in> set (chain l ns)" by (rule is_list_next [OF l n False])
  then show ?thesis
    using False chain_plain [OF is_listD(1) [OF l]] n is_list_unmarked [OF l] by simp
qed

lemma CAS_GetPrev:
  assumes l: "is_list l (links s) ns" and n: "n \<in> set (chain l ns)"
  shows "\<exists>s'. CASDList_GetPrev (Suc fuel) l s n = ret (if n = head l then 0 else links s (prev_field n)) s' \<and>
    links s' = links s"
proof (cases "n = head l")
  case True
  then show ?thesis by simp
next
  case False
  obtain xs a ys where c: "chain l ns = xs @ a # n # ys" by (rule chain_split_before [OF n False])
  then have lk: "links s (prev_field n) = a" "links s (next_field a) = n" "a \<in> set (chain l ns)"
    using is_listD(3) [OF l] by (auto simp: linked_split)
  then show ?thesis
    using False chain_plain [OF is_listD(1) [OF l]] n is_list_unmarked [OF l] by simp
qed

end
