(* ===== verification/Dlist_Seq.thy ===== *)
theory Dlist_Seq
  imports Dlist_Cas
begin

text \<open>
  Both list classes implement the contract of \<open>Dlist_Spec\<close> when one thread runs them, so they agree
  on every sequence of operations. The cursor walks over exactly the nodes of the list. Two
  theorems record where the code falls short of its intention: an insertion into \<open>CASDList\<close>
  returns before its link is durable, and the sanity check skips the last nodes.
\<close>

section \<open>\<open>MwCASDList\<close> alone\<close>

definition MwCASDList_op :: "nat \<Rightarrow> idlist \<Rightarrow> dop \<Rightarrow> heap \<Rightarrow> heap checked option" where
  "MwCASDList_op fuel l op m = map_option (map_sum id snd) (MwCASDList_run fuel l (entry_point op) m)"

lemma calm_simps [simp]: "fails calm = False" "raw_load calm m a = m a"
  by (simp_all add: calm_def raw_load_def)

lemma Mw_before:
  assumes g: "gap l m us vs a n b" and c: "IsCleanPtr a" "IsCleanPtr b"
  shows "\<exists>m'. MwCASDList_run (Suc (Suc (Suc (Suc (Suc fuel))))) l (IBPrev b n) m = Some (Inr (Inserted n, m')) \<and>
    is_list l m' (us @ n # vs)"
proof -
  note gd = gapD [OF g]
  have "is_list l (m(next_field n := b, prev_field n := a, next_field a := n, prev_field b := n)) (us @ n # vs)"
    using gap_linked [OF g] fun_upd_twist [of "next_field n" "prev_field n" m b a] gd(15) [of n n] by simp
  then show ?thesis
    using gd c by (simp add: desc_mwcas_spec kMaxCount_def cas_then_def put_all_def)
qed

lemma Mw_after:
  assumes g: "gap l m us vs a n b" and c: "IsCleanPtr a" "IsCleanPtr b"
  shows "\<exists>m'. MwCASDList_run (Suc (Suc (Suc (Suc fuel)))) l (IANext a n) m = Some (Inr (Inserted n, m')) \<and>
    is_list l m' (us @ n # vs)"
  using gapD [OF g] c gap_linked [OF g]
  by (simp add: desc_mwcas_spec kMaxCount_def cas_then_def put_all_def)

lemma Mw_delete:
  assumes l: "is_list l m (us @ n # vs)"
  shows "\<exists>m'. MwCASDList_run (Suc (Suc (Suc (Suc (Suc (Suc fuel)))))) l (DelLoop n) m = Some (Inr (Deleted n, m')) \<and>
    is_list l m' (us @ vs)"
proof -
  define a where "a = last (head l # us)"
  define b where "b = hd (vs @ [tail l])"
  note c = chain_insert [of l us n vs, folded a_def b_def] and c' = chain_between [of l us vs, folded a_def b_def]
  note sp = is_listD(1) [OF l] and d = is_listD(2) [OF l]
  have mem: "a \<in> set (chain l (us @ n # vs))" "b \<in> set (chain l (us @ n # vs))" "n \<in> set (chain l (us @ n # vs))"
    unfolding c by simp_all
  have lk: "m (next_field a) = n" "m (prev_field n) = a" "m (next_field n) = b" "m (prev_field b) = n"
    using is_list_between [of l m us "n # vs"] is_list_between [of l m "us @ [n]" vs] l
    by (simp_all add: a_def b_def)
  have "a \<noteq> n" using d unfolding c by simp
  moreover have "n \<noteq> head l" "n \<noteq> tail l" using d by (auto simp: chain_def)
  moreover have "\<not> is_marked b" using chain_plain(1) [OF sp mem(2)] by simp
  ultimately have ne: "a \<noteq> n" "n \<noteq> head l" "n \<noteq> tail l" "\<not> is_marked b" by simp_all
  have nf: "next_field x \<noteq> prev_field b" "prev_field b \<noteq> next_field x" if "x \<in> {a, n}" for x
    using node_spaceD(4) [OF sp mem(2), of x] that mem by auto
  show ?thesis
    using lk ne nf unlink_node [OF l c c', of "mark b"]
    by (simp add: desc_mwcas_spec kMaxCount_def cas_then_def put_all_def)
qed

lemma start_run:
  "MwCASDList_run (Suc f) l (IBStart nx n) m =
     MwCASDList_run f l (if nx = head l then IAStart nx n else IBPrev nx n) m"
  "MwCASDList_run (Suc f) l (IAStart pv n) m =
     MwCASDList_run f l (if pv = tail l then IBStart pv n else IANext pv n) m"
  by simp_all

lemma seven: "(7::nat) = Suc (Suc (Suc (Suc (Suc (Suc (Suc 0))))))" by simp

lemma Mw_insert:
  assumes l: "is_list l m (us @ vs)" and sp: "node_space (n # chain l (us @ vs))"
    and pc: "pc \<in> {IBPrev (hd (vs @ [tail l])) n, IANext (last (head l # us)) n}"
    and run: "MwCASDList_run 7 l (entry_point op) m = MwCASDList_run (Suc (Suc (Suc (Suc (Suc f))))) l pc m"
  shows "\<exists>m'. MwCASDList_op 7 l op m = Some (Inr m') \<and> is_list l m' (us @ n # vs)"
proof -
  let ?a = "last (head l # us)" and ?b = "hd (vs @ [tail l])"
  have g: "gap l m us vs ?a n ?b" using l sp by (simp add: gap_def)
  have "?a \<in> set (chain l (us @ vs))" "?b \<in> set (chain l (us @ vs))"
    using ends_mem(1) [of "head l" us] ends_mem(2) [of vs "tail l"] unfolding chain_def by auto
  then have c: "IsCleanPtr ?a" "IsCleanPtr ?b" using chain_plain(3) [OF is_listD(1) [OF l]] by blast+
  obtain m' where "MwCASDList_run (Suc (Suc (Suc (Suc (Suc f))))) l pc m = Some (Inr (Inserted n, m'))"
      "is_list l m' (us @ n # vs)"
    using pc Mw_before [OF g c, of f] Mw_after [OF g c, of "Suc f"] by blast
  then show ?thesis unfolding MwCASDList_op_def run by simp
qed

lemma Mw_op_ok:
  assumes l: "is_list l m ns" and ok: "op_ok l ns op"
  shows "\<exists>m'. MwCASDList_op 7 l op m = Some (Inr m') \<and> is_list l m' (list_op l op ns)"
proof -
  have m: "old_node op \<in> set (chain l ns)" and sp: "node_space (new_nodes op @ chain l ns)"
    using ok by (simp_all add: op_ok_def)
  have ht: "head l \<noteq> tail l" and d: "distinct (chain l ns)" using is_listD(2) [OF l] by (auto simp: chain_def)
  show ?thesis
  proof (cases op)
    case (InsertBefore nx n)
    have sp': "node_space (n # chain l ns)" using sp InsertBefore by simp
    show ?thesis
    proof (cases "nx = head l")
      case True
      have "MwCASDList_run 7 l (entry_point op) m = MwCASDList_run (Suc (Suc (Suc (Suc (Suc 0))))) l (IANext nx n) m"
        unfolding InsertBefore entry_point.simps seven start_run using True ht ht [symmetric]
        by (simp only: start_run if_True if_False simp_thms)
      then show ?thesis
        using Mw_insert [of l m "[]" ns n "IANext nx n" op 0] l sp' True InsertBefore
        by (simp del: MwCASDList_run.simps)
    next
      case False
      obtain us vs where uv: "ns = us @ vs" "nx = hd (vs @ [tail l])" "list_op l (InsertBefore nx n) ns = us @ n # vs"
        by (rule before_position [OF d _ False]) (use m InsertBefore in simp)
      have "MwCASDList_run 7 l (entry_point op) m = MwCASDList_run (Suc (Suc (Suc (Suc (Suc (Suc 0)))))) l (IBPrev nx n) m"
        unfolding InsertBefore entry_point.simps seven start_run using False by (simp only: if_False simp_thms)
      then show ?thesis
        using Mw_insert [of l m us vs n "IBPrev nx n" op "Suc 0"] l sp' uv InsertBefore
        by (simp del: MwCASDList_run.simps list_op.simps)
    qed
  next
    case (InsertAfter pv n)
    have sp': "node_space (n # chain l ns)" using sp InsertAfter by simp
    show ?thesis
    proof (cases "pv = tail l")
      case True
      have "MwCASDList_run 7 l (entry_point op) m = MwCASDList_run (Suc (Suc (Suc (Suc (Suc 0))))) l (IBPrev pv n) m"
        unfolding InsertAfter entry_point.simps seven start_run using True ht ht [symmetric]
        by (simp only: start_run if_True if_False simp_thms)
      then show ?thesis
        using Mw_insert [of l m ns "[]" n "IBPrev pv n" op 0] l sp' True InsertAfter
        by (simp del: MwCASDList_run.simps)
    next
      case False
      obtain us vs where uv: "ns = us @ vs" "pv = last (head l # us)" "list_op l (InsertAfter pv n) ns = us @ n # vs"
        by (rule after_position [OF d _ False]) (use m InsertAfter in simp)
      have "MwCASDList_run 7 l (entry_point op) m = MwCASDList_run (Suc (Suc (Suc (Suc (Suc (Suc 0)))))) l (IANext pv n) m"
        unfolding InsertAfter entry_point.simps seven start_run using False by (simp only: if_False simp_thms)
      then show ?thesis
        using Mw_insert [of l m us vs n "IANext pv n" op "Suc 0"] l sp' uv InsertAfter
        by (simp del: MwCASDList_run.simps list_op.simps)
    qed
  next
    case (Delete n)
    show ?thesis
    proof (cases "n = head l \<or> n = tail l")
      case True
      then have "removeAll n ns = ns" using d by (auto simp: chain_def)
      then show ?thesis
        using True Delete l is_list_unmarked [OF l, of n] m unfolding MwCASDList_op_def seven by auto
    next
      case False
      then obtain us vs where uv: "ns = us @ n # vs" using m Delete by (auto simp: chain_def dest: split_list)
      have "removeAll n ns = us @ vs" using d uv by (auto simp: chain_def removeAll_id)
      then show ?thesis
        using Mw_delete [of l m us n vs "Suc 0"] l uv Delete unfolding MwCASDList_op_def seven
        by (auto simp del: MwCASDList_run.simps)
    qed
  next
    case (GetNext n)
    then show ?thesis using l unfolding MwCASDList_op_def seven by simp
  next
    case (GetPrev n)
    then show ?thesis using l unfolding MwCASDList_op_def seven by simp
  qed
qed

section \<open>\<open>CASDList\<close> alone\<close>

lemma Cas_op_ok:
  assumes l: "is_list l (links s) ns" and ok: "op_ok l ns op"
  shows "\<exists>s'. CASDList_op 6 l op s = Some (Inr s') \<and> is_list l (links s') (list_op l op ns)"
proof -
  have six: "(6::nat) = Suc (Suc (Suc (Suc (Suc (Suc 0)))))" by simp
  have m: "old_node op \<in> set (chain l ns)" using ok by (simp add: op_ok_def)
  show ?thesis
  proof (cases op)
    case (InsertBefore nx n)
    then show ?thesis
      using CAS_InsertBefore [OF l, of nx n "Suc 0"] ok unfolding CASDList_op_def six by (auto simp: ret_def bind_run_def simp del: CASDList_InsertBefore.simps 
          CASDList_GetNext.simps CASDList_GetPrev.simps list_op.simps)
  next
    case (InsertAfter pv n)
    then show ?thesis
      using CAS_InsertAfter [OF l, of pv n "Suc 0"] ok unfolding CASDList_op_def six by (auto simp: ret_def bind_run_def simp del: CASDList_InsertBefore.simps 
          CASDList_GetNext.simps CASDList_GetPrev.simps list_op.simps)
  next
    case (Delete n)
    then show ?thesis
      using CAS_Delete [OF l, of n "Suc (Suc 0)"] m unfolding CASDList_op_def six by (auto simp: ret_def bind_run_def simp del: CASDList_InsertBefore.simps 
          CASDList_GetNext.simps CASDList_GetPrev.simps list_op.simps)
  next
    case (GetNext n)
    then have "list_op l op ns = ns" by simp
    then show ?thesis
      using GetNext CAS_GetNext [OF l, of n "Suc (Suc (Suc (Suc (Suc 0))))"] m l unfolding CASDList_op_def six
      by (auto simp: ret_def bind_run_def simp del: CASDList_InsertBefore.simps 
          CASDList_GetNext.simps CASDList_GetPrev.simps list_op.simps)
  next
    case (GetPrev n)
    then have "list_op l op ns = ns" by simp
    then show ?thesis
      using GetPrev CAS_GetPrev [OF l, of n "Suc (Suc (Suc (Suc (Suc 0))))"] m l unfolding CASDList_op_def six
      by (auto simp: ret_def bind_run_def simp del: CASDList_InsertBefore.simps 
          CASDList_GetNext.simps CASDList_GetPrev.simps list_op.simps)
  qed
qed

interpretation mwl: sequential_list l "is_list l" "MwCASDList_op 7 l" for l
  by unfold_locales (rule Mw_op_ok)

interpretation cal: sequential_list l "\<lambda>s. is_list l (links s)" "CASDList_op 6 l" for l
  by unfold_locales (rule Cas_op_ok)

section \<open>The cursor\<close>

text \<open>
  \<open>DListCursor\<close>; \<open>protected\<close> is what \<open>IsProtected\<close> of the list's epoch manager returns for the calling
  thread, and the constructor and destructor return it as they leave it.
\<close>

record cursor =
  list_of :: idlist
  current_node :: u64
  unprot :: bool

definition new_DListCursor :: "idlist \<Rightarrow> bool \<Rightarrow> cursor \<times> bool" where
  "new_DListCursor l protected =
     (if sync_method l = kSyncMwCAS
      then (\<lparr>list_of = l, current_node = head l, unprot = \<not> protected\<rparr>, True)
      else (\<lparr>list_of = l, current_node = head l, unprot = False\<rparr>, protected))"

definition destroy_DListCursor :: "cursor \<Rightarrow> bool \<Rightarrow> bool" where
  "destroy_DListCursor c protected =
     (if unprot c \<and> sync_method (list_of c) = kSyncMwCAS then False else protected)"

definition Cursor_Reset :: "cursor \<Rightarrow> cursor" where
  "Cursor_Reset c = c\<lparr>current_node := head (list_of c)\<rparr>"

definition Cursor_Next :: "heap \<Rightarrow> cursor \<Rightarrow> u64 \<times> cursor" where
  "Cursor_Next m c =
     (let n = MwCASDList_GetNext m (current_node c) in (n, c\<lparr>current_node := n\<rparr>))"

definition Cursor_Prev :: "heap \<Rightarrow> cursor \<Rightarrow> u64 \<times> cursor" where
  "Cursor_Prev m c =
     (let n = MwCASDList_GetPrev m (current_node c) in (n, c\<lparr>current_node := n\<rparr>))"

fun walk :: "(cursor \<Rightarrow> u64 \<times> cursor) \<Rightarrow> nat \<Rightarrow> cursor \<Rightarrow> u64 list" where
  "walk move 0 c = []"
| "walk move (Suc k) c = (case move c of (n, c') \<Rightarrow> n # walk move k c')"

lemma walk_next:
  assumes "linked m (x # ys)" and "\<forall>y \<in> set (x # ys). \<not> is_marked y"
  shows "walk (Cursor_Next m) (length ys) \<lparr>list_of = l, current_node = x, unprot = u\<rparr> = ys"
  using assms by (induction ys arbitrary: x) (auto simp: Cursor_Next_def)

lemma walk_prev:
  assumes "linked m (ys @ [x])" and "\<forall>y \<in> set (ys @ [x]). \<not> is_marked y"
  shows "walk (Cursor_Prev m) (length ys) \<lparr>list_of = l, current_node = x, unprot = u\<rparr> = rev ys"
  using assms
proof (induction ys arbitrary: x rule: rev_induct)
  case Nil
  then show ?case by simp
next
  case (snoc y ys)
  then have "linked m (ys @ [y])" "m (prev_field x) = y" using linked_split [of m ys y x "[]"] by simp_all
  then show ?case using snoc by (simp add: Cursor_Prev_def)
qed

section \<open>What the sanity check looks at\<close>

text \<open>
  The loop ends at the node before the last one, so the links of the last node are not visited.
  \<open>zs\<close> are the visited nodes, \<open>y\<close> is the node at which it stops.
\<close>

lemma sanity_loop_stops:
  assumes "linked m (p # zs)" and "zs \<noteq> []" and "m (next_field (last zs)) = y"
    and "m (next_field y) = tail l" and "tail l \<notin> set zs" and "y \<noteq> tail l"
    and "\<forall>z \<in> set (y # zs). z \<noteq> 0"
    and "\<forall>z \<in> set zs. \<not> IsDirtyPtr (m (next_field z)) \<and> \<not> IsDirtyPtr (m (prev_field z))"
  shows "sanity_loop (length zs + k) l m p (hd zs) = Some (Inr m)"
  using assms
proof (induction zs arbitrary: p)
  case Nil
  then show ?case by simp
next
  case (Cons z zs)
  have c: "clean_links m z = m" using Cons.prems(8) by (auto simp: clean_links_def fun_eq_iff)
  show ?case
  proof (cases zs)
    case Nil
    then show ?thesis using Cons.prems c by (simp add: Let_def)
  next
    case (Cons z' zs')
    have "m (next_field z') \<noteq> tail l"
    proof (cases zs')
      case Nil
      then show ?thesis using Cons.prems(3,6) Cons by simp
    next
      case (Cons z'' zs'')
      then show ?thesis using Cons.prems(1,5) \<open>zs = z' # zs'\<close> by auto
    qed
    then show ?thesis
      using Cons.IH [of z] Cons.prems c \<open>zs = z' # zs'\<close> by (simp add: Let_def)
  qed
qed

section \<open>Theorems\<close>

text \<open>
  C14: The two list classes compute the same. From memories that hold the same well linked list,
  every sequence of admissible calls (insertions of fresh nodes before or after nodes of the list
  or its sentinels, deletions, reads) returns without a failed check, each call of \<open>CASDList\<close>
  within 6 rounds of each of its loops and each call of \<open>MwCASDList\<close> within 7 steps, and leaves in
  both memories the well linked list that the operations on sequences prescribe.
\<close>

theorem dlists_agree:
  assumes "is_list l (links s) ns" and "is_list l m ns" and "ops_ok l ns ops"
  shows "\<exists>s' m'. run_ops (CASDList_op 6 l) ops s = Some (Inr s') \<and>
    run_ops (MwCASDList_op 7 l) ops m = Some (Inr m') \<and>
    is_list l (links s') (fold (list_op l) ops ns) \<and> is_list l m' (fold (list_op l) ops ns)"
  using cal.run_ops_ok [OF assms(1,3)] mwl.run_ops_ok [OF assms(2,3)] by blast

definition demo_list :: idlist where
  "demo_list = \<lparr>head = 256, tail = 320, sync_method = kSyncCAS\<rparr>"

definition demo_heap :: heap where
  "demo_heap = snd (new_IDList (\<lambda>_. 0) 256 320 kSyncCAS)"

definition demo_pmem :: pmem where
  "demo_pmem = \<lparr>vis = demo_heap, dur = demo_heap\<rparr>"

lemma demo_clean: "ClearDirty 0 = 0" "ClearDirty 256 = 256" "ClearDirty 320 = 320"
  by code_simp+

lemma demo_links: "links demo_pmem = demo_heap"
  by (rule ext) (simp add: demo_clean links_def demo_pmem_def demo_heap_def new_IDList_def DListNode_def)

lemma demo_is_list: "is_list demo_list demo_heap []"
  by code_simp

definition demo_ops :: "dop list" where
  "demo_ops = [InsertBefore 320 512, InsertAfter 256 640, InsertBefore 512 768, Delete 512]"

lemma demo_ops_ok: "ops_ok demo_list [] demo_ops" "fold (list_op demo_list) demo_ops [] = [640, 768]"
  by code_simp+

theorem dlists_agree_witness:
  "\<exists>s' m'. run_ops (CASDList_op 6 demo_list) demo_ops demo_pmem = Some (Inr s') \<and>
    run_ops (MwCASDList_op 7 demo_list) demo_ops demo_heap = Some (Inr m') \<and>
    is_list demo_list (links s') [640, 768] \<and> is_list demo_list m' [640, 768]"
  using dlists_agree [of demo_list demo_pmem "[]" demo_heap demo_ops] demo_ops_ok demo_is_list
  by (simp add: demo_links)

text \<open>
  A cursor on a well linked list visits exactly its nodes: moving forward from the head it
  returns them in order and then the tail, moving backward from the tail it returns them in
  reverse and then the head. Constructing and destroying a cursor leaves the epoch protection of
  the thread as it was, also when the thread was protected before.
\<close>

theorem cursor_visits:
  assumes "is_list l m ns"
  shows "walk (Cursor_Next m) (Suc (length ns)) (fst (new_DListCursor l p)) = ns @ [tail l] \<and>
    walk (Cursor_Prev m) (Suc (length ns)) ((fst (new_DListCursor l p))\<lparr>current_node := tail l\<rparr>) =
      rev ns @ [head l] \<and>
    destroy_DListCursor (fst (new_DListCursor l p)) (snd (new_DListCursor l p)) = p"
proof (intro conjI)
  have u: "\<forall>y \<in> set (head l # ns @ [tail l]). \<not> is_marked y"
    using node_spaceD(3) [OF is_listD(1) [OF assms]] by (simp add: chain_def)
  have lk: "linked m (head l # ns @ [tail l])" using is_listD(3) [OF assms] by (simp add: chain_def)
  obtain f where f: "fst (new_DListCursor l p) = \<lparr>list_of = l, current_node = head l, unprot = f\<rparr>"
    using that by (cases "sync_method l = kSyncMwCAS") (auto simp: new_DListCursor_def)
  show "walk (Cursor_Next m) (Suc (length ns)) (fst (new_DListCursor l p)) = ns @ [tail l]"
    using walk_next [OF lk u, of l f] unfolding f by simp
  show "walk (Cursor_Prev m) (Suc (length ns)) ((fst (new_DListCursor l p))\<lparr>current_node := tail l\<rparr>) =
      rev ns @ [head l]"
    using walk_prev [of m "head l # ns" "tail l" l f] lk u unfolding f by simp
  show "destroy_DListCursor (fst (new_DListCursor l p)) (snd (new_DListCursor l p)) = p"
    by (simp add: new_DListCursor_def destroy_DListCursor_def)
qed

theorem cursor_visits_witness:
  "\<exists>m. is_list demo_list m [640, 768] \<and>
     walk (Cursor_Next m) 3 (fst (new_DListCursor demo_list False)) = [640, 768, 320]"
proof -
  obtain m where m: "is_list demo_list m [640, 768]"
    using mwl.run_ops_ok [OF demo_is_list demo_ops_ok(1)] unfolding demo_ops_ok(2) by blast
  have three: "Suc (length [640, 768 :: u64]) = 3" "tail demo_list = 320" by (simp_all add: demo_list_def)
  have "walk (Cursor_Next m) (Suc (length [640, 768 :: u64])) (fst (new_DListCursor demo_list False)) =
      [640, 768] @ [tail demo_list]"
    using cursor_visits [OF m] by blast
  then have "walk (Cursor_Next m) 3 (fst (new_DListCursor demo_list False)) = [640, 768, 320]"
    unfolding three by (simp only: append.simps)
  then show ?thesis using m by blast
qed

text \<open>
  C15: An insertion into \<open>CASDList\<close> returns although its link is neither durable nor marked dirty:
  in a list whose memory is entirely durable, \<open>InsertBefore\<close> makes the new node visible behind the
  head while NVRAM still holds the old link and no reader will flush it, so a crash loses the node.
\<close>

theorem cas_insert_not_durable:
  "\<exists>l s s' n. dur s = vis s \<and> is_list l (links s) [] \<and>
     CASDList_InsertBefore 6 l s (tail l) n = ret () s' \<and> is_list l (links s') [n] \<and>
     vis s' (next_field (head l)) = n \<and> dur s' (next_field (head l)) = tail l"
proof -
  have six: "(6::nat) = Suc (Suc (Suc (Suc (Suc (Suc 0)))))" by simp
  have op: "op_ok demo_list [] (InsertBefore 320 512)"
    "list_op demo_list (InsertBefore 320 512) [] = [512]" by code_simp+
  obtain s' where s': "CASDList_InsertBefore 6 demo_list demo_pmem 320 512 = ret () s'"
      "is_list demo_list (links s') [512]"
    using CAS_InsertBefore [of demo_list demo_pmem "[]" 320 512 "Suc 0"] demo_is_list op
    unfolding six demo_links op(2) by blast
  have "map_option (map_sum id (\<lambda>(_, s). (vis s 264, dur s 264)))
      (CASDList_InsertBefore 6 demo_list demo_pmem 320 512) = Some (Inr (512, 320))"
    by code_simp
  then have "vis s' 264 = 512" "dur s' 264 = 320" unfolding s'(1) by (simp_all add: ret_def)
  then show ?thesis
    using s' demo_is_list demo_links
    by (intro exI [of _ demo_list] exI [of _ demo_pmem] exI [of _ s'] exI [of _ 512])
      (simp add: demo_list_def demo_pmem_def next_field_def)
qed

text \<open>
  \<open>SingleThreadSanityCheck\<close> accepts lists that are not well linked: in a list of two or more
  nodes it passes whatever the \<open>prev\<close> link of the last node holds.
\<close>

theorem sanity_check_skips_last:
  assumes "is_list l m ns" and "2 \<le> length ns"
  shows "SingleThreadSanityCheck (length ns) l (m(prev_field (last ns) := v)) =
    Some (Inr (m(prev_field (last ns) := v)))"
proof -
  obtain zs y where ns: "ns = zs @ [y]" using assms(2) by (cases ns rule: rev_cases) auto
  then have zs: "ns = zs @ [y]" "zs \<noteq> []" using assms(2) by auto
  let ?m = "m(prev_field y := v)"
  note sp = is_listD(1) [OF assms(1)] and d = is_listD(2) [OF assms(1)]
  have c: "chain l ns = (head l # butlast zs) @ last zs # y # [tail l]" using zs by (simp add: chain_def)
  have lk: "linked m (head l # zs)" "m (next_field (last zs)) = y" "m (next_field y) = tail l"
    "m (prev_field (tail l)) = y"
    using is_listD(3) [OF assms(1)] zs linked_split [of m "head l # butlast zs" "last zs" y "[tail l]"]
    unfolding c by simp_all
  have nf: "next_field x \<noteq> prev_field y" if "x \<in> set (chain l ns)" for x
    using node_spaceD(4) [OF sp, of y x] that by (simp add: zs chain_def)
  have ne: "x \<noteq> y" if "x \<in> set (head l # tail l # zs)" for x using d that by (auto simp: zs chain_def)
  have mem: "x \<in> set (chain l ns)" if "x \<in> set (head l # tail l # y # zs)" for x
    using that by (auto simp: zs chain_def)
  have mn: "?m (next_field x) = m (next_field x)" if "x \<in> set (head l # tail l # y # zs)" for x
    using nf [OF mem [OF that]] by simp
  have mp: "?m (prev_field x) = m (prev_field x)" if "x \<in> set (head l # tail l # zs)" for x
    using ne [OF that] by simp
  have clean: "\<not> IsDirtyPtr (m (next_field x))" "\<not> IsDirtyPtr (m (prev_field x))" "x \<noteq> 0"
    if "x \<in> set (chain l ns)" for x
  proof -
    show "x \<noteq> 0" by (rule node_spaceD(1) [OF sp that])
    show "\<not> IsDirtyPtr (m (next_field x))"
      using is_listD(5) [OF assms(1)] is_list_next [OF assms(1) that] chain_plain [OF sp]
      by (cases "x = tail l") (auto simp: flag_defs)
    show "\<not> IsDirtyPtr (m (prev_field x))"
      using is_listD(4) [OF assms(1)] is_list_prev [OF assms(1) that] chain_plain [OF sp]
      by (cases "x = head l") (auto simp: flag_defs)
  qed
  have "linked ?m (head l # zs)"
  proof (rule linked_frame_back [OF lk(1)])
    fix x
    show "?m (next_field x) = m (next_field x)" if "x \<in> set (head l # zs)"
      using that by (intro mn) auto
    show "?m (prev_field x) = m (prev_field x)" if "x \<in> set zs"
      using that by (intro mp) auto
  qed
  then have "sanity_loop (length zs + 1) l ?m (head l) (hd zs) = Some (Inr ?m)"
  proof (rule sanity_loop_stops [OF _ zs(2)])
    show "\<forall>z \<in> set zs. \<not> IsDirtyPtr (?m (next_field z)) \<and> \<not> IsDirtyPtr (?m (prev_field z))"
      using clean mem mn mp by simp
    show "tail l \<notin> set zs" "y \<noteq> tail l" using d by (auto simp: zs chain_def)
    show "\<forall>z \<in> set (y # zs). z \<noteq> 0" using clean(3) mem by simp
    show "?m (next_field (last zs)) = y" "?m (next_field y) = tail l"
      using lk mn zs(2) by simp_all
  qed
  moreover have hn: "?m (next_field (head l)) = hd zs" using lk(1) zs(2) mn [of "head l"] by (cases zs) auto
  moreover have "ClearDirty (hd zs) = hd zs" using clean(1) [OF mem, of "head l"] hn mn [of "head l"] by simp
  then have "?m(next_field (head l) := ClearDirty (?m (next_field (head l)))) = ?m"
    unfolding hn using hn by (simp add: fun_upd_idem)
  moreover have "?m (prev_field (head l)) = 0" "?m (next_field (tail l)) = 0" "?m (prev_field (tail l)) = y"
    using is_listD(4,5) [OF assms(1)] lk(4) mn [of "tail l"] mp [of "head l"] mp [of "tail l"] by simp_all
  moreover have "hd zs \<noteq> 0" "y \<noteq> 0" "length ns = length zs + 1" "last ns = y"
    using clean(3) [OF mem, of y] clean(3) [OF mem, of "hd zs"] zs by simp_all
  ultimately show ?thesis
    by (simp add: SingleThreadSanityCheck_def Let_def del: fun_upd_apply sanity_loop.simps)
qed

theorem sanity_check_skips_last_witness:
  "\<exists>m. is_list demo_list m [640, 768] \<and> \<not> is_list demo_list (m(prev_field 768 := 4096)) [640, 768] \<and>
     SingleThreadSanityCheck 2 demo_list (m(prev_field 768 := 4096)) = Some (Inr (m(prev_field 768 := 4096)))"
proof -
  obtain m where m: "is_list demo_list m [640, 768]"
    using mwl.run_ops_ok [OF demo_is_list demo_ops_ok(1)] unfolding demo_ops_ok(2) by blast
  moreover have "\<not> is_list demo_list (m(prev_field 768 := 4096)) [640, 768]"
    by (simp add: is_list_def chain_def)
  ultimately show ?thesis
    using sanity_check_skips_last [OF m, of 4096] by (auto simp: numeral_2_eq_2)
qed

end
