(* ===== verification/Volatile.thy ===== *)
theory Volatile
  imports Mwcas_Abs
begin

text \<open>
  The MwCAS of the build without \<open>PMEM\<close> (\<open>VolatileMwCAS\<close> and \<open>GetValueVolatile\<close> in
  \<open>src/src/mwcas\<close>) and the two \<open>WithFailure\<close> variants that the recovery tests use, as one thread runs
  them while no other thread moves; the memory may hold the descriptors of operations that other
  threads have begun. Loops and the nesting of helping calls are bounded by fuel. The conditional
  CAS is the one of the concurrent machine, run to its end.
\<close>

section \<open>Running the conditional CAS\<close>

type_synonym 'a vrun = "('a \<times> shared) checked option"

definition bind_v :: "'a vrun \<Rightarrow> ('a \<Rightarrow> shared \<Rightarrow> 'b vrun) \<Rightarrow> 'b vrun" where
  "bind_v r f = (case r of None \<Rightarrow> None | Some (Inl e) \<Rightarrow> Some (Inl e) | Some (Inr (x, sh)) \<Rightarrow> f x sh)"

definition ret_v :: "'a \<Rightarrow> shared \<Rightarrow> 'a vrun" where
  "ret_v x sh = Some (Inr (x, sh))"

lemma bind_v_simps [simp]:
  "bind_v (ret_v x sh) f = f x sh" "bind_v None f = None" "bind_v (Some (Inl e)) f = Some (Inl e)"
  "ret_v x sh = ret_v y sh' \<longleftrightarrow> x = y \<and> sh = sh'"
  by (simp_all add: bind_v_def ret_v_def)

fun CondCAS_run :: "nat \<Rightarrow> u64 \<Rightarrow> u64 \<Rightarrow> nat \<Rightarrow> cpc \<Rightarrow> shared \<Rightarrow> u64 vrun" where
  "CondCAS_run 0 dirty_flag d i c sh = None"
| "CondCAS_run (Suc fuel) dirty_flag d i c sh =
     (case CondCAS_step dirty_flag d i c sh of
        CGoto c' sh' \<Rightarrow> CondCAS_run fuel dirty_flag d i c' sh'
      | CRet rval sh' \<Rightarrow> ret_v rval sh'
      | CAbort m \<Rightarrow> Some (Inl m))"

definition run_Cleanup :: "shared \<Rightarrow> u64 \<Rightarrow> bool vrun" where
  "run_Cleanup sh d =
     (case Cleanup sh d of Return b sh' \<Rightarrow> ret_v b sh' | Abort m \<Rightarrow> Some (Inl m) | _ \<Rightarrow> None)"

section \<open>The volatile multi-word CAS\<close>

text \<open>
  The loop that installs the descriptor, from word \<open>i\<close> on: \<open>helper\<close> is the nested call for the
  descriptor found in the way. It returns the status the operation proposes.
\<close>

fun volatile_install :: "(u64 \<Rightarrow> shared \<Rightarrow> bool vrun) \<Rightarrow> nat \<Rightarrow> u64 \<Rightarrow> nat \<Rightarrow> shared \<Rightarrow> u32 vrun" where
  "volatile_install helper 0 d i sh = None"
| "volatile_install helper (Suc fuel) d i sh =
     (if i < count (descs sh d) then
        bind_v (CondCAS_run fuel 0 d i CTry sh) (\<lambda>rval sh1.
          if rval = old_value (word_at sh1 d i) \<or> rval = mwcas_descptr 0 d
          then volatile_install helper fuel d (Suc i) sh1
          else if IsMwCASDescriptorPtr rval
          then bind_v (helper (CleanPtr rval) sh1) (\<lambda>_ sh2. volatile_install helper fuel d i sh2)
          else ret_v kStatusFailed sh1)
      else ret_v kStatusSucceeded sh)"

text \<open>The last loop: the descriptor is replaced by the new or the old values.\<close>

definition volatile_final :: "shared \<Rightarrow> u64 \<Rightarrow> bool \<Rightarrow> shared" where
  "volatile_final sh d succeeded =
     fold (\<lambda>i sh'. let wd = word_at sh' d i in
             snd (CompareExchange64 sh' (address wd)
               (if succeeded then new_value wd else old_value wd) (mwcas_descptr 0 d)))
       [0..<count (descs sh d)] sh"

fun VolatileMwCAS :: "nat \<Rightarrow> nat \<Rightarrow> u64 \<Rightarrow> shared \<Rightarrow> bool vrun" where
  "VolatileMwCAS 0 calldepth d sh = None"
| "VolatileMwCAS (Suc fuel) calldepth d sh =
     (if status (descs sh d) \<noteq> kStatusUndecided then
        (if calldepth > 0 then ret_v (status (descs sh d) = kStatusSucceeded) sh else run_Cleanup sh d)
      else
        bind_v (volatile_install (\<lambda>d' sh'. VolatileMwCAS fuel (Suc calldepth) d' sh') fuel d 0 sh)
          (\<lambda>my_status sh1.
             let sh2 = snd (CompareExchange32 sh1 d my_status kStatusUndecided);
                 succeeded = (status (descs sh2 d) = kStatusSucceeded);
                 sh3 = volatile_final sh2 d succeeded in
             if calldepth = 0 then run_Cleanup sh3 d else ret_v succeeded sh3))"

definition VolatileMwCASWithFailure :: "nat \<Rightarrow> nat \<Rightarrow> bool \<Rightarrow> u64 \<Rightarrow> shared \<Rightarrow> bool vrun" where
  "VolatileMwCASWithFailure fuel calldepth complete_descriptor_install d sh =
     (if status (descs sh d) \<noteq> kStatusUndecided then
        (if calldepth > 0 then ret_v (status (descs sh d) = kStatusSucceeded) sh else run_Cleanup sh d)
      else
        bind_v (volatile_install (\<lambda>d' sh'. VolatileMwCAS fuel (Suc calldepth) d' sh') fuel d 0 sh)
          (\<lambda>my_status sh1.
             if \<not> complete_descriptor_install then ret_v False sh1
             else ret_v False (snd (CompareExchange32 sh1 d my_status kStatusUndecided))))"

section \<open>Reading a word\<close>

fun GetValueVolatile :: "nat \<Rightarrow> u64 \<Rightarrow> shared \<Rightarrow> u64 vrun" where
  "GetValueVolatile 0 a sh = None"
| "GetValueVolatile (Suc fuel) a sh =
     (let val = mem sh a in
      if IsCondCASDescriptorPtr val then
        (case deref_word sh (CleanPtr val) of
           None \<Rightarrow> Some (Inl ''wild word descriptor'')
         | Some wd \<Rightarrow>
             if address wd \<noteq> a then Some (Inl ''wrong addresses'')
             else GetValueVolatile fuel a (snd (CompareExchange64 sh (address wd) (completion sh 0 wd) val)))
      else if IsMwCASDescriptorPtr val then
        (if CleanPtr val = 0 then Some (Inl ''invalid descriptor pointer'')
         else bind_v (VolatileMwCAS fuel 1 (CleanPtr val) sh) (\<lambda>_ sh'. GetValueVolatile fuel a sh'))
      else ret_v val sh)"

section \<open>The persistent variant that stops half way\<close>

text \<open>
  \<open>PersistentMwCASWithFailure\<close>: the descriptor is installed and the words are flushed as in
  \<open>PersistentMwCAS\<close>; then it stops, before or after the status is decided. \<open>pmwcas\<close> is the complete
  operation that the nested calls perform.
\<close>

fun persistent_install :: "(u64 \<Rightarrow> shared \<Rightarrow> bool vrun) \<Rightarrow> nat \<Rightarrow> u64 \<Rightarrow> nat \<Rightarrow> shared \<Rightarrow> u32 vrun" where
  "persistent_install helper 0 d i sh = None"
| "persistent_install helper (Suc fuel) d i sh =
     (if i < count (descs sh d) then
        bind_v (CondCAS_run fuel kDirtyFlag d i CTry sh) (\<lambda>rval sh1.
          let wd = word_at sh1 d i in
          if rval = old_value wd \<or> CleanPtr rval = d
          then persistent_install helper fuel d (Suc i) sh1
          else if IsMwCASDescriptorPtr rval
          then bind_v (helper (CleanPtr rval)
                 (if IsDirtyPtr rval
                  then snd (CompareExchange64 (flush_word sh1 (address wd)) (address wd) (ClearDirty rval) rval)
                  else sh1)) (\<lambda>_ sh2. persistent_install helper fuel d i sh2)
          else ret_v kStatusFailed sh1)
      else ret_v kStatusSucceeded sh)"

definition persist_words :: "shared \<Rightarrow> u64 \<Rightarrow> shared" where
  "persist_words sh d =
     fold (\<lambda>i sh'. let a = address (word_at sh' d i); descptr = mwcas_descptr kDirtyFlag d in
             if mem sh' a = descptr
             then snd (CompareExchange64 (flush_word sh' a) a (ClearDirty descptr) descptr) else sh')
       [0..<count (descs sh d)] sh"

definition PersistentMwCASWithFailure ::
    "(u64 \<Rightarrow> shared \<Rightarrow> bool vrun) \<Rightarrow> nat \<Rightarrow> nat \<Rightarrow> bool \<Rightarrow> u64 \<Rightarrow> shared \<Rightarrow> bool vrun" where
  "PersistentMwCASWithFailure pmwcas fuel calldepth complete_descriptor_install d sh =
     (if calldepth = 0 \<and> status (descs sh d) \<noteq> kStatusUndecided then Some (Inl ''invalid status'')
      else
        let sh0 = (if calldepth = 0 then flush_desc sh d else sh);
            s = status (descs sh0 d);
            sh1 = (if s AND kStatusDirtyFlag \<noteq> 0
                   then snd (CompareExchange32 (flush_status sh0 d) d (clean_status s) s) else sh0) in
        if clean_status s \<noteq> kStatusUndecided then
          (if calldepth > 0 then ret_v (clean_status s = kStatusSucceeded) sh1 else run_Cleanup sh1 d)
        else
          bind_v (persistent_install pmwcas fuel d 0 sh1) (\<lambda>my_status sh2.
            let sh3 = (if my_status = kStatusSucceeded then persist_words sh2 d else sh2) in
            if \<not> complete_descriptor_install then ret_v False sh3
            else
              let sh4 = snd (CompareExchange32 sh3 d (my_status OR kStatusDirtyFlag) kStatusUndecided) in
              if clean_status (status (descs sh4 d)) = kStatusUndecided then Some (Inl ''invalid status'')
              else let sh5 = flush_status sh4 d in
                ret_v False (set_status sh5 d (clean_status (status (descs sh5 d))))))"

text \<open>\<open>MwCASWithFailure\<close> in the build with \<open>PMEM\<close>, and \<open>ReadPersistStatus\<close>.\<close>

definition MwCASWithFailure ::
    "(u64 \<Rightarrow> shared \<Rightarrow> bool vrun) \<Rightarrow> nat \<Rightarrow> nat \<Rightarrow> bool \<Rightarrow> u64 \<Rightarrow> shared \<Rightarrow> bool vrun" where
  "MwCASWithFailure pmwcas fuel calldepth complete_descriptor_install d sh =
     (if status (descs sh d) \<noteq> kStatusFinished
      then Some (Inl ''status of descriptor is not kStatusFinished'')
      else PersistentMwCASWithFailure pmwcas fuel calldepth complete_descriptor_install d
             (set_status sh d kStatusUndecided))"

definition ReadPersistStatus :: "shared \<Rightarrow> u64 \<Rightarrow> u32 \<times> shared" where
  "ReadPersistStatus sh d =
     (let curr_status = status (descs sh d); stable_status = clean_status curr_status in
      (stable_status,
       if curr_status AND kStatusDirtyFlag \<noteq> 0
       then snd (CompareExchange32 (flush_status sh d) d stable_status curr_status) else sh))"

section \<open>One operation alone\<close>

text \<open>
  No other operation is in the way: the words of the operation have distinct addresses and hold
  clean values, its status is undecided. Values are not descriptor addresses, as everywhere.
\<close>

definition alone :: "shared \<Rightarrow> u64 \<Rightarrow> bool" where
  "alone sh d \<longleftrightarrow> status (descs sh d) = kStatusUndecided \<and> wf_entries (descs sh d) \<and> IsCleanPtr d \<and>
     list_all (\<lambda>w. IsCleanPtr (mem sh (address w)) \<and> mem sh (address w) \<noteq> d) (entries (descs sh d))"

definition put_mem :: "shared \<Rightarrow> (u64 \<Rightarrow> u64) \<Rightarrow> shared" where
  "put_mem sh m = sh\<lparr>mem := m\<rparr>"

lemma put_mem_simps [simp]:
  "mem (put_mem sh m) = m" "descs (put_mem sh m) = descs sh" "nvm (put_mem sh m) = nvm sh"
  "pdescs (put_mem sh m) = pdescs sh" "word_at (put_mem sh m) = word_at sh"
  "put_mem (put_mem sh m) m' = put_mem sh m'" "put_mem sh (mem sh) = sh"
  by (auto simp: put_mem_def word_at_def fun_eq_iff)

lemma CAS64_eq:
  "CompareExchange64 sh a v c = (mem sh a, if mem sh a = c then put_mem sh ((mem sh)(a := v)) else sh)"
  by (simp add: CompareExchange64_def put_mem_def)

lemma descptr_not_clean [simp]: "\<not> IsCleanPtr (mwcas_descptr f d)" "IsMwCASDescriptorPtr (mwcas_descptr f d)"
proof -
  show "IsMwCASDescriptorPtr (mwcas_descptr f d)"
    by (simp add: mwcas_descptr_def flag_defs flag_simps bit_or_iff)
  then show "\<not> IsCleanPtr (mwcas_descptr f d)" using clean_no_flags(1) by blast
qed

lemma CondCAS_hit:
  assumes "mem sh (address (word_at sh d i)) = old_value (word_at sh d i)"
    and "IsCleanPtr (old_value (word_at sh d i))" and "status (descs sh d) = kStatusUndecided"
  shows "CondCAS_run (Suc (Suc (Suc fuel))) f d i CTry sh =
    ret_v (old_value (word_at sh d i)) (put_mem sh ((mem sh)(address (word_at sh d i) := mwcas_descptr f d)))"
  using assms by (simp add: CondCAS_step_def CAS64_eq Let_def)

lemma CondCAS_miss:
  assumes "mem sh (address (word_at sh d i)) \<noteq> old_value (word_at sh d i)"
    and "IsCleanPtr (mem sh (address (word_at sh d i)))"
  shows "CondCAS_run (Suc fuel) f d i CTry sh = ret_v (mem sh (address (word_at sh d i))) sh"
  using assms by (simp add: CondCAS_step_def CAS64_eq Let_def)

text \<open>The memory after the descriptor has been installed in some words.\<close>

definition installed :: "u64 \<Rightarrow> word_desc list \<Rightarrow> (u64 \<Rightarrow> u64) \<Rightarrow> u64 \<Rightarrow> u64" where
  "installed p ws m = (\<lambda>a. if a \<in> address ` set ws then p else m a)"

definition holds_old :: "(u64 \<Rightarrow> u64) \<Rightarrow> word_desc \<Rightarrow> bool" where
  "holds_old m w \<longleftrightarrow> m (address w) = old_value w"

lemma matches_holds: "matches ws m \<longleftrightarrow> takeWhile (holds_old m) ws = ws"
  by (simp add: matches_def holds_old_def list_all_iff takeWhile_eq_all_conv)

lemma word_at_drop:
  assumes "wf_entries (descs sh d)" and "drop i (entries (descs sh d)) = w # ws"
  shows "i < count (descs sh d)" "word_at sh d i = w" "drop (Suc i) (entries (descs sh d)) = ws"
proof -
  have "i < length (entries (descs sh d))" using assms(2) by (metis drop_eq_Nil leI list.distinct(1))
  then show i: "i < count (descs sh d)" using entries_length [OF assms(1)] by simp
  have "entries (descs sh d) ! i = w" by (rule nth_via_drop [OF assms(2)])
  then show "word_at sh d i = w" using i assms(1) by (simp add: word_at_def entries_def)
  show "drop (Suc i) (entries (descs sh d)) = ws" using arg_cong [OF assms(2), of tl] by (simp add: drop_Suc tl_drop)
qed

lemma entries_distinct:
  assumes "wf_entries desc"
  shows "distinct (map address (entries desc))"
  using assms unfolding wf_entries_def by (simp only: strict_sorted_iff)

lemma takeWhile_after_install:
  assumes "address w \<notin> address ` set ws"
  shows "takeWhile (holds_old (m(address w := p))) ws = takeWhile (holds_old m) ws"
proof -
  have "address x \<noteq> address w" if "x \<in> set ws" for x using assms that by (metis imageI)
  then show ?thesis by (intro takeWhile_cong) (simp_all add: holds_old_def)
qed

lemma installed_Cons:
  "installed p ws (m(address w := p)) = installed p (w # ws) m"
  by (auto simp: installed_def)

text \<open>What both install loops do when nothing is in the way.\<close>

definition install_result :: "u64 \<Rightarrow> word_desc list \<Rightarrow> shared \<Rightarrow> u32 vrun" where
  "install_result p ws sh =
     ret_v (if matches ws (mem sh) then kStatusSucceeded else kStatusFailed)
       (put_mem sh (installed p (takeWhile (holds_old (mem sh)) ws) (mem sh)))"

lemma install_result_hit:
  assumes "mem sh (address w) = old_value w" and "address w \<notin> address ` set ws"
  shows "install_result p ws (put_mem sh ((mem sh)(address w := p))) = install_result p (w # ws) sh"
proof -
  have "matches ws ((mem sh)(address w := p)) \<longleftrightarrow> matches (w # ws) (mem sh)"
  proof -
    have "address x \<noteq> address w" if "x \<in> set ws" for x using assms(2) that by (metis imageI)
    then show ?thesis using assms(1) by (auto simp: matches_def list_all_iff)
  qed
  then show ?thesis
    using assms by (simp add: install_result_def takeWhile_after_install installed_Cons holds_old_def)
qed

lemma install_result_miss:
  assumes "mem sh (address w) \<noteq> old_value w"
  shows "install_result p (w # ws) sh = ret_v kStatusFailed sh"
  using assms by (simp add: install_result_def matches_def holds_old_def installed_def)

lemma install_result_Nil: "install_result p [] sh = ret_v kStatusSucceeded sh"
  by (simp add: install_result_def matches_def installed_def)

definition in_order :: "shared \<Rightarrow> u64 \<Rightarrow> nat \<Rightarrow> word_desc list \<Rightarrow> bool" where
  "in_order sh d i ws \<longleftrightarrow> status (descs sh d) = kStatusUndecided \<and> wf_entries (descs sh d) \<and> IsCleanPtr d \<and>
     drop i (entries (descs sh d)) = ws \<and>
     (\<forall>w \<in> set ws. IsCleanPtr (mem sh (address w)) \<and> mem sh (address w) \<noteq> d)"

lemma in_order_Cons:
  assumes "in_order sh d i (w # ws)"
  shows "i < count (descs sh d)" "word_at sh d i = w" "address w \<notin> address ` set ws"
    "in_order (put_mem sh ((mem sh)(address w := v))) d (Suc i) ws"
proof -
  have wf: "wf_entries (descs sh d)" and dr: "drop i (entries (descs sh d)) = w # ws"
    using assms by (simp_all add: in_order_def)
  note wd = word_at_drop [OF wf dr]
  show "i < count (descs sh d)" "word_at sh d i = w" by (rule wd)+
  have "distinct (map address (drop i (entries (descs sh d))))"
    using distinct_drop [OF entries_distinct [OF wf], of i] by (simp only: drop_map)
  then show d: "address w \<notin> address ` set ws" unfolding dr by simp
  show "in_order (put_mem sh ((mem sh)(address w := v))) d (Suc i) ws"
  proof -
    have "address x \<noteq> address w" if "x \<in> set ws" for x using d that by (metis imageI)
    then show ?thesis using assms wd(3) by (auto simp: in_order_def)
  qed
qed

lemma in_order_Nil:
  assumes "in_order sh d i []"
  shows "\<not> i < count (descs sh d)"
  using assms entries_length [of "descs sh d"] by (auto simp: in_order_def)

text \<open>The contract that both install loops satisfy, and what follows when nothing is in the way.\<close>

locale install_loop =
  fixes loop :: "nat \<Rightarrow> u64 \<Rightarrow> nat \<Rightarrow> shared \<Rightarrow> u32 vrun" and flag :: u64
  assumes loop_end: "\<not> i < count (descs sh d) \<Longrightarrow> loop (Suc f) d i sh = ret_v kStatusSucceeded sh"
    and loop_hit: "i < count (descs sh d) \<Longrightarrow>
      CondCAS_run f flag d i CTry sh = ret_v (old_value (word_at sh d i)) sh1 \<Longrightarrow>
      word_at sh1 = word_at sh \<Longrightarrow> loop (Suc f) d i sh = loop f d (Suc i) sh1"
    and loop_miss: "i < count (descs sh d) \<Longrightarrow> CondCAS_run f flag d i CTry sh = ret_v v sh \<Longrightarrow>
      IsCleanPtr v \<Longrightarrow> v \<noteq> old_value (word_at sh d i) \<Longrightarrow> v \<noteq> d \<Longrightarrow>
      loop (Suc f) d i sh = ret_v kStatusFailed sh"
begin

lemma loop_alone:
  assumes "in_order sh d i ws" and "length ws + 4 \<le> fuel"
  shows "loop fuel d i sh = install_result (mwcas_descptr flag d) ws sh"
  using assms
proof (induction ws arbitrary: i sh fuel)
  case Nil
  then obtain f where "fuel = Suc f" by (cases fuel) auto
  then show ?case using loop_end [OF in_order_Nil [OF Nil.prems(1)]] by (simp add: install_result_Nil)
next
  case (Cons w ws)
  note io = in_order_Cons [OF Cons.prems(1)]
  obtain f where f: "fuel = Suc (Suc (Suc (Suc f)))" and len: "length ws + 4 \<le> Suc (Suc (Suc f))"
    using Cons.prems(2) that [of "fuel - 4"] by simp
  have st: "status (descs sh d) = kStatusUndecided" and cl: "IsCleanPtr (mem sh (address w))"
    "mem sh (address w) \<noteq> d"
    using Cons.prems(1) by (auto simp: in_order_def)
  show ?case
  proof (cases "mem sh (address w) = old_value w")
    case True
    let ?sh = "put_mem sh ((mem sh)(address w := mwcas_descptr flag d))"
    have "CondCAS_run (Suc (Suc (Suc f))) flag d i CTry sh = ret_v (old_value (word_at sh d i)) ?sh"
      using CondCAS_hit [of sh d i f flag] True io(2) cl st by simp
    then have "loop fuel d i sh = loop (Suc (Suc (Suc f))) d (Suc i) ?sh"
      unfolding f by (rule loop_hit [OF io(1)]) simp
    then show ?thesis using Cons.IH [OF io(4) len] install_result_hit [OF True io(3)] by simp
  next
    case False
    have "CondCAS_run (Suc (Suc (Suc f))) flag d i CTry sh = ret_v (mem sh (address w)) sh"
      using CondCAS_miss [of sh d i _ flag] False io(2) cl by simp
    from loop_miss [OF io(1) this cl(1)] show ?thesis
      unfolding f using io(2) False cl by (simp add: install_result_miss)
  qed
qed

end

interpretation vi: install_loop "volatile_install helper" 0 for helper
proof unfold_locales
  fix i sh d f v
  assume "i < count (descs sh d)" "CondCAS_run f 0 d i CTry sh = ret_v v sh" "IsCleanPtr v"
    "v \<noteq> old_value (word_at sh d i)" "v \<noteq> d"
  moreover have "v \<noteq> mwcas_descptr 0 d" using \<open>IsCleanPtr v\<close> descptr_not_clean(1) by metis
  ultimately show "volatile_install helper (Suc f) d i sh = ret_v kStatusFailed sh" by simp
qed simp_all

interpretation pin: install_loop "persistent_install helper" kDirtyFlag for helper
  by unfold_locales (simp_all add: Let_def)

section \<open>The final loop\<close>

text \<open>Replacing the pointer \<open>p\<close> by a value in each of the given words.\<close>

definition resolve :: "u64 \<Rightarrow> (word_desc \<Rightarrow> u64) \<Rightarrow> word_desc list \<Rightarrow> (u64 \<Rightarrow> u64) \<Rightarrow> u64 \<Rightarrow> u64" where
  "resolve p v ws m = fold (\<lambda>w m'. if m' (address w) = p then m'(address w := v w) else m') ws m"

lemma take_entries_Suc:
  assumes "wf_entries (descs sh d)" and "k < count (descs sh d)"
  shows "take (Suc k) (entries (descs sh d)) = take k (entries (descs sh d)) @ [word_at sh d k]"
  using assms entries_length [OF assms(1)]
  by (simp add: take_Suc_conv_app_nth entries_def word_at_def)

lemma fold_words:
  assumes "wf_entries (descs sh d)" and "k \<le> count (descs sh d)"
    and "\<And>i m. i < k \<Longrightarrow> f i (put_mem sh m) = put_mem sh (g (word_at sh d i) m)"
  shows "fold f [0..<k] sh = put_mem sh (fold g (take k (entries (descs sh d))) (mem sh))"
  using assms(2,3)
proof (induction k)
  case 0
  then show ?case by simp
next
  case (Suc k)
  then have "fold f [0..<k] sh = put_mem sh (fold g (take k (entries (descs sh d))) (mem sh))" by simp
  then show ?case using Suc.prems take_entries_Suc [OF assms(1), of k] by simp
qed

lemma volatile_final_resolve:
  assumes "wf_entries (descs sh d)"
  shows "volatile_final sh d b = put_mem sh (resolve (mwcas_descptr 0 d)
    (if b then new_value else old_value) (entries (descs sh d)) (mem sh))"
proof -
  have "take (count (descs sh d)) (entries (descs sh d)) = entries (descs sh d)"
    using entries_length [OF assms] by simp
  then show ?thesis
    unfolding volatile_final_def resolve_def
    by (subst fold_words [OF assms order_refl,
          where g = "\<lambda>w m'. if m' (address w) = mwcas_descptr 0 d
            then m'(address w := (if b then new_value else old_value) w) else m'"])
      (auto simp: CAS64_eq Let_def fun_upd_idem)
qed

lemma resolve_at:
  assumes "distinct (map address ws)"
  shows "resolve p v ws m a = (if m a = p then (case find (\<lambda>w. address w = a) ws of Some w \<Rightarrow> v w | None \<Rightarrow> m a) else m a)"
  using assms
proof (induction ws arbitrary: m)
  case Nil
  then show ?case by (simp add: resolve_def)
next
  case (Cons w ws)
  have IH: "resolve p v ws m' a = (if m' a = p then (case find (\<lambda>w. address w = a) ws of Some w \<Rightarrow> v w | None \<Rightarrow> m' a) else m' a)" for m'
    using Cons by simp
  have none: "find (\<lambda>x. address x = address w) ws = None"
  proof -
    have "address x \<noteq> address w" if "x \<in> set ws" for x using Cons.prems that by (simp, metis imageI)
    then show ?thesis by (auto simp: find_None_iff)
  qed
  show ?case
    using IH [of m] IH [of "m(address w := v w)"] none unfolding resolve_def
    by (auto split: option.split)
qed

lemma find_in:
  assumes "w \<in> set ws" and "distinct (map address ws)"
  shows "find (\<lambda>x. address x = address w) ws = Some w"
  using assms by (intro find_unique) (auto simp: distinct_map inj_on_def)

lemma resolve_success:
  assumes "distinct (map address ws)" and "matches ws m" and "\<And>w. w \<in> set ws \<Longrightarrow> m (address w) \<noteq> p"
  shows "resolve p new_value ws (installed p ws m) = apply_words ws m"
proof
  fix a
  show "resolve p new_value ws (installed p ws m) a = apply_words ws m a"
  proof (cases "a \<in> address ` set ws")
    case True
    then obtain w where w: "w \<in> set ws" "a = address w" by blast
    then show ?thesis
      using find_in [OF w(1) assms(1)] by (simp add: resolve_at [OF assms(1)] installed_def apply_words_def)
  next
    case False
    then have "find (\<lambda>w. address w = a) ws = None" by (auto simp: find_None_iff)
    then show ?thesis using False by (simp add: resolve_at [OF assms(1)] installed_def apply_words_def)
  qed
qed

lemma resolve_failure:
  assumes "distinct (map address ws)" and "\<And>w. w \<in> set ws \<Longrightarrow> m (address w) \<noteq> p"
  shows "resolve p old_value ws (installed p (takeWhile (holds_old m) ws) m) = m"
proof
  fix a
  let ?ts = "takeWhile (holds_old m) ws"
  show "resolve p old_value ws (installed p ?ts m) a = m a"
  proof (cases "a \<in> address ` set ?ts")
    case True
    then obtain w where w: "w \<in> set ?ts" "a = address w" by blast
    then have "w \<in> set ws" "m a = old_value w" by (auto simp: holds_old_def dest: set_takeWhileD)
    then show ?thesis
      using True w find_in [OF _ assms(1)] by (simp add: resolve_at [OF assms(1)] installed_def)
  next
    case False
    have "m a \<noteq> p \<or> find (\<lambda>w. address w = a) ws = None"
      using assms(2) by (cases "find (\<lambda>w. address w = a) ws") (auto dest: find_SomeD)
    then show ?thesis using False by (auto simp: resolve_at [OF assms(1)] installed_def)
  qed
qed

text \<open>The effect of the whole operation on the memory.\<close>

lemma resolve_spec:
  assumes "distinct (map address ws)" and "\<And>w. w \<in> set ws \<Longrightarrow> m (address w) \<noteq> p"
  shows "resolve p (if matches ws m then new_value else old_value) ws
      (installed p (takeWhile (holds_old m) ws) m) = snd (mwcas_spec ws m)"
proof (cases "matches ws m")
  case True
  then have tw: "takeWhile (holds_old m) ws = ws" by (simp only: matches_holds)
  show ?thesis
    unfolding tw using True resolve_success [OF assms(1) True assms(2)] by (simp add: mwcas_spec_def)
next
  case False
  then show ?thesis
    using resolve_failure [OF assms(1), of m p] assms(2) by (simp add: mwcas_spec_def)
qed

lemma put_mem_set_status: "set_status (put_mem sh m) d s = put_mem (set_status sh d s) m"
  by (simp add: set_status_def put_mem_def)

section \<open>Persisting the installed words\<close>

lemma persist_words_prefix:
  fixes d :: u64
  defines "p \<equiv> mwcas_descptr kDirtyFlag d"
  assumes wf: "wf_entries (descs sh d)" and k: "k \<le> count (descs sh d)"
    and all: "\<And>w. w \<in> set (entries (descs sh d)) \<Longrightarrow> mem sh (address w) = p"
  shows "fold (\<lambda>i sh'. let a = address (word_at sh' d i) in
             if mem sh' a = p
             then snd (CompareExchange64 (flush_word sh' a) a (ClearDirty p) p) else sh') [0..<k] sh =
    sh\<lparr>mem := installed (ClearDirty p) (take k (entries (descs sh d))) (mem sh),
       nvm := installed p (take k (entries (descs sh d))) (nvm sh)\<rparr>"
  using k
proof (induction k)
  case 0
  then show ?case by (simp add: installed_def)
next
  case (Suc k)
  let ?ws = "entries (descs sh d)"
  let ?w = "word_at sh d k"
  have ts: "take (Suc k) ?ws = take k ?ws @ [?w]" using take_entries_Suc [OF wf, of k] Suc.prems by simp
  have "distinct (map address (take (Suc k) ?ws))"
    using distinct_take [OF entries_distinct [OF wf], of "Suc k"] by (simp only: take_map)
  then have out: "address ?w \<notin> address ` set (take k ?ws)" unfolding ts by simp
  have "?w \<in> set (take (Suc k) ?ws)" unfolding ts by simp
  then have "mem sh (address ?w) = p" using all in_set_takeD by metis
  then show ?case
    using Suc out ts
    by (auto simp: Let_def CAS64_eq flush_word_def put_mem_def installed_def word_at_def fun_eq_iff)
qed

lemma persist_words_all:
  assumes "wf_entries (descs sh d)"
    and "\<And>w. w \<in> set (entries (descs sh d)) \<Longrightarrow> mem sh (address w) = mwcas_descptr kDirtyFlag d"
  shows "persist_words sh d =
    sh\<lparr>mem := installed (ClearDirty (mwcas_descptr kDirtyFlag d)) (entries (descs sh d)) (mem sh),
       nvm := installed (mwcas_descptr kDirtyFlag d) (entries (descs sh d)) (nvm sh)\<rparr>"
proof -
  have "take (count (descs sh d)) (entries (descs sh d)) = entries (descs sh d)"
    using entries_length [OF assms(1)] by simp
  then show ?thesis
    using persist_words_prefix [OF assms(1) order_refl] assms(2) unfolding persist_words_def
    by (simp add: Let_def)
qed

section \<open>Theorems\<close>

text \<open>
  C9: Run alone on words that hold clean values, the volatile MwCAS returns, and does exactly what
  the atomic multi-word CAS of the specification does: it returns true and stores all the new values
  if all words hold their expected values, otherwise it returns false and leaves the memory
  as it was; the status records which. The fuel bounds the rounds of its loops.
\<close>

theorem volatile_mwcas_alone:
  assumes "alone sh d" and "10 \<le> fuel"
  shows "case mwcas_spec (entries (descs sh d)) (mem sh) of (b, m) \<Rightarrow>
    VolatileMwCAS fuel 0 d sh =
      ret_v b (put_mem (set_status sh d (if b then kStatusSucceeded else kStatusFailed)) m)"
proof -
  let ?ws = "entries (descs sh d)" and ?p = "mwcas_descptr 0 d"
  let ?b = "matches ?ws (mem sh)"
  have wf: "wf_entries (descs sh d)" and st: "status (descs sh d) = kStatusUndecided"
    using assms(1) by (simp_all add: alone_def)
  have io: "in_order sh d 0 ?ws" using assms(1) by (auto simp: alone_def in_order_def list_all_iff)
  have np: "mem sh (address w) \<noteq> ?p" if "w \<in> set ?ws" for w
    using assms(1) that descptr_not_clean(1) [of 0 d] by (auto simp: alone_def list_all_iff)
  obtain f where f: "fuel = Suc f" "length ?ws + 4 \<le> f"
    using assms(2) entries_length [OF wf] wf by (cases fuel) (auto simp: wf_entries_def kMaxCount_def)
  let ?s = "if ?b then kStatusSucceeded else kStatusFailed"
  let ?m1 = "installed ?p (takeWhile (holds_old (mem sh)) ?ws) (mem sh)"
  let ?sh2 = "put_mem (set_status sh d ?s) ?m1"
  have "volatile_install (\<lambda>d' sh'. VolatileMwCAS f 1 d' sh') f d 0 sh = ret_v ?s (put_mem sh ?m1)"
    unfolding vi.loop_alone [OF io f(2)] by (simp add: install_result_def)
  moreover have "snd (CompareExchange32 (put_mem sh ?m1) d ?s kStatusUndecided) = ?sh2"
    using st by (simp add: CompareExchange32_def put_mem_set_status)
  moreover have "volatile_final ?sh2 d ?b =
      put_mem (set_status sh d ?s) (snd (mwcas_spec ?ws (mem sh)))"
    using volatile_final_resolve [of ?sh2 d ?b] wf resolve_spec [OF entries_distinct [OF wf], of "mem sh" ?p] np
    by (simp add: wf_entries_def)
  ultimately have "VolatileMwCAS fuel 0 d sh =
      run_Cleanup (put_mem (set_status sh d ?s) (snd (mwcas_spec ?ws (mem sh)))) d"
    unfolding f using st by (cases ?b) (simp_all add: Let_def)
  then show ?thesis by (simp add: run_Cleanup_def Cleanup_def Let_def mwcas_spec_def)
qed

definition vsample_desc :: descriptor where
  "vsample_desc = zero_descriptor\<lparr>status := kStatusUndecided, count := 2,
     words := [\<lparr>address = 64, old_value = 5, new_value = 6, ownDesc = 4096, recycle_policy = kRecycleNever\<rparr>,
               \<lparr>address = 72, old_value = 7, new_value = 9, ownDesc = 4096, recycle_policy = kRecycleNever\<rparr>,
               zero_word, zero_word]\<rparr>"

definition vsample :: shared where
  "vsample = \<lparr>mem = (\<lambda>_. 0)(64 := 5, 72 := 7), nvm = (\<lambda>_. 0)(64 := 5, 72 := 7),
     descs = (\<lambda>_. zero_descriptor)(4096 := vsample_desc),
     pdescs = (\<lambda>_. zero_descriptor)(4096 := vsample_desc), pool = [4096, 4352]\<rparr>"

lemma vsample_alone: "alone vsample 4096" "matches (entries (descs vsample 4096)) (mem vsample)"
  by code_simp+

theorem volatile_mwcas_alone_witness:
  "\<exists>m. VolatileMwCAS 10 0 4096 vsample = ret_v True (put_mem (set_status vsample 4096 kStatusSucceeded) m) \<and>
     m 64 = 6 \<and> m 72 = 9"
proof -
  let ?m = "apply_words (entries (descs vsample 4096)) (mem vsample)"
  have "VolatileMwCAS 10 0 4096 vsample =
      ret_v True (put_mem (set_status vsample 4096 kStatusSucceeded) ?m)"
    using volatile_mwcas_alone [OF vsample_alone(1), of 10] vsample_alone(2) by (simp add: mwcas_spec_def)
  moreover have "?m 64 = 6" "?m 72 = 9" by code_simp+
  ultimately show ?thesis by blast
qed


definition vblocked :: shared where
  "vblocked = vsample\<lparr>mem := (mem vsample)(64 := mwcas_descptr 0 4352),
     descs := (descs vsample)(4352 := zero_descriptor\<lparr>status := kStatusSucceeded\<rparr>)\<rparr>"

lemma vblocked_state:
  "mem vblocked 64 = mwcas_descptr 0 4352" "IsCleanPtr 4352" "IsCleanPtr 4096"
  "status (descs vblocked 4352) = kStatusSucceeded" "status (descs vblocked 4096) = kStatusUndecided"
  "0 < count (descs vblocked 4096)" "address (word_at vblocked 4096 0) = 64"
  "IsCleanPtr (old_value (word_at vblocked 4096 0))"
  by code_simp+


text \<open>
  The operation that stops half way, which the recovery tests use to produce a crash: on a
  fresh descriptor whose words all hold their expected values it returns false, with the descriptor
  installed in every word both in memory and in NVRAM; the status, in memory and in NVRAM, is still
  undecided, or has become successful if the call was told to complete the installation.
\<close>

theorem with_failure_stops:
  assumes "status (descs sh d) = kStatusFinished" and "alone (set_status sh d kStatusUndecided) d"
    and "matches (entries (descs sh d)) (mem sh)" and "9 \<le> fuel"
  shows "\<exists>sh'. MwCASWithFailure pmwcas fuel 0 c d sh = ret_v False sh' \<and>
    (\<forall>w \<in> set (entries (descs sh d)). mem sh' (address w) = mwcas_descptr 0 d \<and>
       nvm sh' (address w) = mwcas_descptr kDirtyFlag d) \<and>
    status (descs sh' d) = (if c then kStatusSucceeded else kStatusUndecided) \<and>
    clean_status (status (pdescs sh' d)) = status (descs sh' d)"
proof -
  let ?ws = "entries (descs sh d)" and ?p = "mwcas_descptr kDirtyFlag d"
  define sh1 where "sh1 = flush_desc (set_status sh d kStatusUndecided) d"
  have sh1: "descs sh1 = descs (set_status sh d kStatusUndecided)" "mem sh1 = mem sh"
    "status (pdescs sh1 d) = kStatusUndecided"
    by (simp_all add: sh1_def flush_desc_def)
  have en: "entries (descs sh1 d) = ?ws" "status (descs sh1 d) = kStatusUndecided" unfolding sh1(1) by simp_all
  have wf: "wf_entries (descs sh1 d)" and cd: "IsCleanPtr d" using assms(2) unfolding sh1(1) by (simp_all add: alone_def)
  have io: "in_order sh1 d 0 ?ws"
    using assms(2) en wf sh1(2) by (auto simp: alone_def in_order_def list_all_iff)
  have len: "length ?ws + 4 \<le> fuel"
    using assms(4) entries_length [OF wf] wf en(1) by (simp add: wf_entries_def kMaxCount_def)
  define sh2 where "sh2 = put_mem sh1 (installed ?p ?ws (mem sh))"
  have tw: "takeWhile (holds_old (mem sh)) ?ws = ?ws" using assms(3) by (simp only: matches_holds)
  have inst: "persistent_install pmwcas fuel d 0 sh1 = ret_v kStatusSucceeded sh2"
    unfolding pin.loop_alone [OF io len] install_result_def sh1(2) tw using assms(3) by (simp add: sh2_def)
  have "persist_words sh2 d =
      sh2\<lparr>mem := installed (ClearDirty ?p) ?ws (mem sh2), nvm := installed ?p ?ws (nvm sh2)\<rparr>"
    using persist_words_all [of sh2 d] wf en(1) by (simp add: sh2_def installed_def)
  then obtain sh3 where sh3: "persist_words sh2 d = sh3" "descs sh3 = descs sh1" "pdescs sh3 = pdescs sh1"
      "\<forall>w \<in> set ?ws. mem sh3 (address w) = ClearDirty ?p \<and> nvm sh3 (address w) = ?p"
    by (simp add: sh2_def installed_def)
  have cl: "ClearDirty ?p = mwcas_descptr 0 d" by (rule is_mw_ClearDirty [OF is_mw_descptr(2) cd])
  have run: "MwCASWithFailure pmwcas fuel 0 c d sh =
      (if \<not> c then ret_v False sh3
       else ret_v False (set_status (flush_status (set_status sh3 d (kStatusSucceeded OR kStatusDirtyFlag)) d) d
              kStatusSucceeded))"
    using assms(1) inst sh3(1,2) en(2)
    unfolding MwCASWithFailure_def PersistentMwCASWithFailure_def
    by (simp add: Let_def sh1_def [symmetric] CompareExchange32_def flush_status_def)
  show ?thesis
    unfolding run using sh3 sh1 cl en(2) by (auto simp: flush_status_def)
qed

definition fsample_sh :: shared where
  "fsample_sh = set_status vsample 4096 kStatusFinished"

lemma fsample_state:
  "status (descs fsample_sh 4096) = kStatusFinished" "alone (set_status fsample_sh 4096 kStatusUndecided) 4096"
  "matches (entries (descs fsample_sh 4096)) (mem fsample_sh)"
  "map address (entries (descs fsample_sh 4096)) = [64, 72]"
  by code_simp+

theorem with_failure_stops_witness:
  "\<exists>sh'. MwCASWithFailure (\<lambda>_ _. None) 9 0 True 4096 fsample_sh = ret_v False sh' \<and>
     status (descs sh' 4096) = kStatusSucceeded"
  using with_failure_stops [OF fsample_state(1-3), of 9 "\<lambda>_ _. None" True] by auto

end
