(* ===== verification/Ofasas.thy ===== *)
theory Ofasas
  imports Fasas
begin

text \<open>
  The second form of the fetch-and-store-and-store operation (\<open>src/src/mwcas/OptmizedFASASDescriptor.h\<close>
  and \<open>OptmizedFASASDescriptor.cc\<close>). No descriptor pointer is installed: the compare-and-swap writes the
  new value at once, together with the process that wrote it (12 bits) and its sequence number (4 bits),
  and a process that wants to overwrite a value first makes the operation that wrote it durable. Each
  process has one descriptor per shared word, which it uses for all its operations. This theory has
  the descriptor, the operations, one step per access to shared memory, for the processes of one shared
  word, the layout of the pool and recovery.
\<close>

section \<open>Descriptor and tagged words\<close>

record odesc =
  o_shared :: u64
  o_old :: u64
  o_new :: u64
  o_op :: u64
  o_priv :: u64
  o_pid :: u16
  o_privSet :: bool
  o_shareSet :: bool
  o_status :: u64

definition ProcessIdFlg :: u64 where "ProcessIdFlg = push_bit 48 0xFFF"
definition SeqIdFlg :: u64 where "SeqIdFlg = push_bit 60 0xF"
definition ActualValueFlg :: u64 where "ActualValueFlg = 0xFFFFFFFFFFFF"

definition new_OptmizedFASASDescriptor :: "u16 \<Rightarrow> odesc" where
  "new_OptmizedFASASDescriptor processId = \<lparr>o_shared = 0, o_old = 0, o_new = 0, o_op = FASASOp, o_priv = 0,
     o_pid = processId, o_privSet = False, o_shareSet = False, o_status = 0 OR FailedStatus\<rparr>"

text \<open>The fields of a shared word: the expressions of \<open>process\<close>, the read and recovery.\<close>

definition actual_value :: "u64 \<Rightarrow> u64" where "actual_value w = w AND ActualValueFlg"
definition tag_process :: "u64 \<Rightarrow> u16" where "tag_process w = ucast (drop_bit 48 (w AND ProcessIdFlg))"
definition tag_seq :: "u64 \<Rightarrow> u64" where "tag_seq w = drop_bit 60 (w AND SeqIdFlg)"

definition getSeqId :: "odesc \<Rightarrow> u64" where "getSeqId d = drop_bit 60 (o_status d AND SeqIdFlg)"

definition isValidValue :: "u64 \<Rightarrow> bool" where "isValidValue v \<longleftrightarrow> v AND push_bit 48 0xFFFF = 0"

definition tagged_word :: "u16 \<Rightarrow> u64 \<Rightarrow> u64 \<Rightarrow> u64" where
  "tagged_word p v s = push_bit 48 (ucast p) OR v OR push_bit 60 s"

definition status_word :: "u64 \<Rightarrow> u64 \<Rightarrow> u64" where
  "status_word s b = push_bit 60 s OR b"

definition O_setSharedAddress :: "odesc \<Rightarrow> u64 \<Rightarrow> odesc" where
  "O_setSharedAddress d a = d\<lparr>o_shared := a\<rparr>"

definition O_setPrivateAddress :: "odesc \<Rightarrow> u64 \<Rightarrow> odesc" where
  "O_setPrivateAddress d a = d\<lparr>o_priv := a\<rparr>"

definition O_setOpType :: "odesc \<Rightarrow> u64 \<Rightarrow> odesc" where
  "O_setOpType d op = d\<lparr>o_op := op\<rparr>"

text \<open>What \<open>changePrivateValueSucc\<close> stores.\<close>

definition O_private_value :: "odesc \<Rightarrow> u64" where
  "O_private_value d =
     (if isRecoverCAS (o_op d) then 1
      else if isDoubleCAS (o_op d) then getDCASValue (o_op d)
      else o_old d)"

section \<open>Memory\<close>

text \<open>
  \<open>odescs\<close> are the descriptors of one shared word, by process, and \<open>ondescs\<close> what NVRAM has of them. A
  descriptor fills one cache line (it is aligned and has 56 bytes), so a flush of any of its fields
  makes the whole descriptor durable, and an eviction takes all of it.
\<close>

record oshared =
  omem :: "u64 \<Rightarrow> u64"
  onvm :: "u64 \<Rightarrow> u64"
  odescs :: "u16 \<Rightarrow> odesc"
  ondescs :: "u16 \<Rightarrow> odesc"
  omax :: u32

definition oflush :: "oshared \<Rightarrow> u64 \<Rightarrow> oshared" where
  "oflush sh a = sh\<lparr>onvm := (onvm sh)(a := omem sh a)\<rparr>"

definition oflush_desc :: "oshared \<Rightarrow> u16 \<Rightarrow> oshared" where
  "oflush_desc sh p = sh\<lparr>ondescs := (ondescs sh)(p := odescs sh p)\<rparr>"

definition upd_desc :: "oshared \<Rightarrow> u16 \<Rightarrow> (odesc \<Rightarrow> odesc) \<Rightarrow> oshared" where
  "upd_desc sh p f = sh\<lparr>odescs := (odescs sh)(p := f (odescs sh p))\<rparr>"

section \<open>Helping\<close>

datatype ohpc = HSet | HSeq | HSet2 | HFlushWord | HStat | HCas | HSet3 | HFlushStatus

text \<open>
  \<open>helpProcess\<close> on the descriptor of process \<open>q\<close>; \<open>None\<close> as the next point is its return.
\<close>

fun O_helpProcess_step :: "u16 \<Rightarrow> u64 \<Rightarrow> u64 \<Rightarrow> u64 \<Rightarrow> ohpc \<Rightarrow> oshared \<Rightarrow> ohpc option \<times> oshared" where
  "O_helpProcess_step q seqId actualValue oldVal HSet sh =
     (if o_shareSet (odescs sh q) then None else Some HSeq, sh)"
| "O_helpProcess_step q seqId actualValue oldVal HSeq sh =
     (if seqId \<noteq> getSeqId (odescs sh q) then None else Some HSet2, sh)"
| "O_helpProcess_step q seqId actualValue oldVal HSet2 sh =
     (if o_shareSet (odescs sh q) then None else Some HFlushWord, sh)"
| "O_helpProcess_step q seqId actualValue oldVal HFlushWord sh =
     (if oldVal \<noteq> actualValue then None else Some HStat, oflush sh (o_shared (odescs sh q)))"
| "O_helpProcess_step q seqId actualValue oldVal HStat sh =
     (if o_status (odescs sh q) = status_word seqId FailedStatus then Some HCas else Some HSet3, sh)"
| "O_helpProcess_step q seqId actualValue oldVal HCas sh =
     (Some HSet3,
      if o_status (odescs sh q) = status_word seqId FailedStatus
      then upd_desc sh q (\<lambda>d. d\<lparr>o_status := status_word seqId SuccStatus\<rparr>) else sh)"
| "O_helpProcess_step q seqId actualValue oldVal HSet3 sh =
     (if o_shareSet (odescs sh q) then None else Some HFlushStatus, sh)"
| "O_helpProcess_step q seqId actualValue oldVal HFlushStatus sh = (None, oflush_desc sh q)"

text \<open>\<open>helpWithShareValue\<close>.\<close>

datatype owpc = WSet | WSeq | WSet2 | WFlushWord

fun helpWithShareValue_step :: "u16 \<Rightarrow> u64 \<Rightarrow> owpc \<Rightarrow> oshared \<Rightarrow> owpc option \<times> oshared" where
  "helpWithShareValue_step q val WSet sh = (if o_shareSet (odescs sh q) then None else Some WSeq, sh)"
| "helpWithShareValue_step q val WSeq sh =
     (if tag_seq val \<noteq> getSeqId (odescs sh q) then None else Some WSet2, sh)"
| "helpWithShareValue_step q val WSet2 sh = (if o_shareSet (odescs sh q) then None else Some WFlushWord, sh)"
| "helpWithShareValue_step q val WFlushWord sh = (None, oflush sh (o_shared (odescs sh q)))"

section \<open>The operation and the read\<close>

text \<open>
  The program points of \<open>process\<close>. The arguments are the values the code keeps in local variables:
  \<open>oldval\<close>, \<open>newval\<close>, \<open>val\<close> and \<open>actualValue\<close>.
\<close>

datatype opc =
    OIdle
  | OLoad u64 u64 | OLoad2 u64 u64 u64
  | OHelp u64 u64 u64 u64 ohpc
  | OCheck u64 u64 u64 u64
  | OSetOld u64 u64 u64 | OSetNew u64 u64 | OSetStatus u64 | OClrPriv u64 | OClrShare u64
  | OFlushDesc u64 | OCas u64
  | OFlushWord | OLoadStatus | OStoreStatus u64 | OFlushStatus | OSetShare
  | OStorePriv | OFlushPriv | OSetPriv | OFlushSet
  | OReadLoad u64 | ORead u64 owpc

datatype ores = OProc bool | OVal u64

datatype ooutcome = OGoto opc oshared | ORet ores oshared | OAbort string

text \<open>
  \<open>pool.getDescriptor(otherProcessId-1, locationId)\<close> on the descriptors of one word, with its two
  checks; \<open>getDescriptor\<close> below is the lookup in the whole pool.
\<close>

definition help_desc :: "oshared \<Rightarrow> u16 \<Rightarrow> u16 checked" where
  "help_desc sh other =
     (if ucast (other - 1) < omax sh
      then if o_pid (odescs sh other) = other then Inr other else Inl ''corrupted descriptor pool/data area''
      else Inl ''processId not right '')"

text \<open>\<open>addDescriptorToShareVar\<close>.\<close>

definition O_addDescriptorToShareVar :: "oshared \<Rightarrow> u16 \<Rightarrow> u64 \<Rightarrow> bool \<times> oshared" where
  "O_addDescriptorToShareVar sh p orgVal =
     (let d = odescs sh p; newVal = tagged_word (o_pid d) (o_new d) (getSeqId d) in
      if omem sh (o_shared d) = orgVal
      then (True, sh\<lparr>omem := (omem sh)(o_shared d := newVal)\<rparr>) else (False, sh))"

fun O_process_step :: "u16 \<Rightarrow> opc \<Rightarrow> oshared \<Rightarrow> ooutcome" where
  "O_process_step p OIdle sh = OAbort ''no operation''"
| "O_process_step p (OLoad old new) sh = OGoto (OLoad2 old new (omem sh (o_shared (odescs sh p)))) sh"
| "O_process_step p (OLoad2 old new val) sh =
     (let act = actual_value (omem sh (o_shared (odescs sh p))); other = tag_process val in
      if other \<noteq> 0 \<and> other \<noteq> o_pid (odescs sh p)
      then (case help_desc sh other of
              Inl e \<Rightarrow> OAbort e | Inr q \<Rightarrow> OGoto (OHelp old new val act HSet) sh)
      else OGoto (OCheck old new val act) sh)"
| "O_process_step p (OHelp old new val act h) sh =
     (case O_helpProcess_step (tag_process val) (tag_seq val) act old h sh of
        (None, sh') \<Rightarrow> OGoto (OCheck old new val act) sh'
      | (Some h', sh') \<Rightarrow> OGoto (OHelp old new val act h') sh')"
| "O_process_step p (OCheck old new val act) sh =
     (if act \<noteq> old then ORet (OProc False) sh else OGoto (OSetOld old new val) sh)"
| "O_process_step p (OSetOld old new val) sh =
     OGoto (OSetNew new val) (upd_desc sh p (\<lambda>d. d\<lparr>o_old := old\<rparr>))"
| "O_process_step p (OSetNew new val) sh =
     OGoto (OSetStatus val) (upd_desc sh p (\<lambda>d. d\<lparr>o_new := new\<rparr>))"
| "O_process_step p (OSetStatus val) sh =
     (let seqId = getSeqId (odescs sh p) in
      if seqId \<le> 0xF
      then OGoto (OClrPriv val) (upd_desc sh p (\<lambda>d. d\<lparr>o_status := status_word ((seqId + 1) AND 0xF) FailedStatus\<rparr>))
      else OAbort ''seqId out of bound'')"
| "O_process_step p (OClrPriv val) sh = OGoto (OClrShare val) (upd_desc sh p (\<lambda>d. d\<lparr>o_privSet := False\<rparr>))"
| "O_process_step p (OClrShare val) sh = OGoto (OFlushDesc val) (upd_desc sh p (\<lambda>d. d\<lparr>o_shareSet := False\<rparr>))"
| "O_process_step p (OFlushDesc val) sh = OGoto (OCas val) (oflush_desc sh p)"
| "O_process_step p (OCas val) sh =
     (case O_addDescriptorToShareVar sh p val of
        (True, sh') \<Rightarrow> OGoto OFlushWord sh' | (False, sh') \<Rightarrow> ORet (OProc False) sh')"
| "O_process_step p OFlushWord sh = OGoto OLoadStatus (oflush sh (o_shared (odescs sh p)))"
| "O_process_step p OLoadStatus sh = OGoto (OStoreStatus (o_status (odescs sh p))) sh"
| "O_process_step p (OStoreStatus tmp) sh =
     OGoto OFlushStatus (upd_desc sh p (\<lambda>d. d\<lparr>o_status := tmp OR SuccStatus\<rparr>))"
| "O_process_step p OFlushStatus sh = OGoto OSetShare (oflush_desc sh p)"
| "O_process_step p OSetShare sh = OGoto OStorePriv (upd_desc sh p (\<lambda>d. d\<lparr>o_shareSet := True\<rparr>))"
| "O_process_step p OStorePriv sh =
     OGoto OFlushPriv (sh\<lparr>omem := (omem sh)(o_priv (odescs sh p) := O_private_value (odescs sh p))\<rparr>)"
| "O_process_step p OFlushPriv sh = OGoto OSetPriv (oflush sh (o_priv (odescs sh p)))"
| "O_process_step p OSetPriv sh = OGoto OFlushSet (upd_desc sh p (\<lambda>d. d\<lparr>o_privSet := True\<rparr>))"
| "O_process_step p OFlushSet sh = ORet (OProc True) (oflush_desc sh p)"
| "O_process_step p (OReadLoad addr) sh =
     (let val = omem sh addr; other = tag_process val in
      if other \<noteq> 0 \<and> other \<noteq> p
      then (case help_desc sh other of
              Inl e \<Rightarrow> OAbort e | Inr q \<Rightarrow> OGoto (ORead val WSet) sh)
      else ORet (OVal (actual_value val)) sh)"
| "O_process_step p (ORead val k) sh =
     (case helpWithShareValue_step (tag_process val) val k sh of
        (None, sh') \<Rightarrow> ORet (OVal (actual_value val)) sh'
      | (Some k', sh') \<Rightarrow> OGoto (ORead val k') sh')"

section \<open>Executions\<close>

text \<open>
  \<open>olog\<close> records the successful compare-and-swaps in their order (process, expected value, new value)
  and \<open>oeff\<close> the position in it of the operation a process is running or ran last; the code keeps neither.
\<close>

record osys =
  osh :: oshared
  oaddr :: u64
  opcs :: "u16 \<Rightarrow> opc"
  oresults :: "(u16 \<times> ores) list"
  oaborted :: "string option"
  olog :: "(u16 \<times> u64 \<times> u64) list"
  oeff :: "u16 \<Rightarrow> nat option"

datatype oevent = ORun u16 | OStart u16 u64 u64 u64 u64 | OStartRead u16 | OEvict u64 | OEvictDesc u16

text \<open>What a step does to the record of effects.\<close>

definition onote :: "u16 \<Rightarrow> opc \<Rightarrow> osys \<Rightarrow> osys" where
  "onote p pc s =
     (case pc of
        OCas val \<Rightarrow> s\<lparr>olog := olog s @ [(p, o_old (odescs (osh s) p), o_new (odescs (osh s) p))],
                      oeff := (oeff s)(p := Some (length (olog s)))\<rparr>
      | OSetStatus val \<Rightarrow> s\<lparr>oeff := (oeff s)(p := None)\<rparr>
      | _ \<Rightarrow> s)"

definition orun :: "osys \<Rightarrow> u16 \<Rightarrow> osys" where
  "orun s p =
     (case O_process_step p (opcs s p) (osh s) of
        OGoto pc' sh \<Rightarrow> (onote p (opcs s p) s)\<lparr>osh := sh, opcs := (opcs s)(p := pc')\<rparr>
      | ORet r sh \<Rightarrow> s\<lparr>osh := sh, opcs := (opcs s)(p := OIdle), oresults := (p, r) # oresults s\<rparr>
      | OAbort m \<Rightarrow> s\<lparr>oaborted := Some m\<rparr>)"

text \<open>A process that is running an operation, not a read.\<close>

fun working :: "opc \<Rightarrow> bool" where
  "working OIdle = False"
| "working (OReadLoad a) = False"
| "working (ORead v k) = False"
| "working _ = True"

definition is_process :: "oshared \<Rightarrow> u16 \<Rightarrow> bool" where
  "is_process sh p \<longleftrightarrow> p \<noteq> 0 \<and> ucast (p - 1) < omax sh"

text \<open>
  What the application owes: a process of the pool that runs nothing, a value that leaves the tag bits
  free, one of the three operation types, and a private word that is neither the shared word nor in use by another
  operation.
\<close>

definition omay_start :: "osys \<Rightarrow> u16 \<Rightarrow> u64 \<Rightarrow> u64 \<Rightarrow> u64 \<Rightarrow> bool" where
  "omay_start s p new op priv \<longleftrightarrow> is_process (osh s) p \<and> isValidValue new \<and>
     (isRecoverCAS op \<or> isDoubleCAS op \<or> isFASAS op) \<and> priv \<noteq> oaddr s \<and>
     list_all (\<lambda>q. \<not> (working (opcs s q) \<and> o_priv (odescs (osh s) q) = priv))
       (map of_nat [1..<Suc (unat (omax (osh s)))])"

definition ostart :: "osys \<Rightarrow> u16 \<Rightarrow> u64 \<Rightarrow> u64 \<Rightarrow> u64 \<Rightarrow> u64 \<Rightarrow> osys" where
  "ostart s p old new op priv =
     s\<lparr>osh := upd_desc (osh s) p (\<lambda>d. O_setOpType (O_setPrivateAddress (O_setSharedAddress d (oaddr s)) priv) op),
       opcs := (opcs s)(p := OLoad old new)\<rparr>"

definition oexec :: "oevent \<Rightarrow> osys \<Rightarrow> osys option" where
  "oexec e s =
     (if oaborted s \<noteq> None then None else
      case e of
        ORun p \<Rightarrow> if opcs s p = OIdle then None else Some (orun s p)
      | OStart p old new op priv \<Rightarrow>
          if opcs s p = OIdle \<and> omay_start s p new op priv then Some (ostart s p old new op priv) else None
      | OStartRead p \<Rightarrow>
          if opcs s p = OIdle \<and> is_process (osh s) p
          then Some (s\<lparr>opcs := (opcs s)(p := OReadLoad (oaddr s))\<rparr>) else None
      | OEvict a \<Rightarrow> Some (s\<lparr>osh := oflush (osh s) a\<rparr>)
      | OEvictDesc p \<Rightarrow> Some (s\<lparr>osh := oflush_desc (osh s) p\<rparr>))"

fun oexec_all :: "oevent list \<Rightarrow> osys \<Rightarrow> osys option" where
  "oexec_all [] s = Some s"
| "oexec_all (e # es) s = (case oexec e s of None \<Rightarrow> None | Some s' \<Rightarrow> oexec_all es s')"

section \<open>The pool\<close>

record opool =
  poolSize :: u32
  maximumThreadNum :: u32
  descriptors :: "odesc list"

text \<open>
  \<open>createNewDescriptor\<close>, the rest of the loop from process number \<open>processId\<close> on. The constructor below
  excludes \<open>maximumThreadNum_ = 0\<close>, for which the remainder is undefined.
\<close>

fun createNewDescriptor :: "u32 \<Rightarrow> nat \<Rightarrow> u16 \<Rightarrow> odesc list" where
  "createNewDescriptor maxn 0 processId = []"
| "createNewDescriptor maxn (Suc n) processId =
     new_OptmizedFASASDescriptor (processId + 1) #
     createNewDescriptor maxn n (ucast ((ucast processId + 1) mod maxn))"

text \<open>
  \<open>getDescriptor\<close> with its two checks; the offset is computed in 32 bits. The result is the index of
  the descriptor, \<open>None\<close> the null pointer.
\<close>

definition getDescriptor :: "opool \<Rightarrow> u16 \<Rightarrow> u32 \<Rightarrow> nat option checked" where
  "getDescriptor po processId locationId =
     (if ucast processId < maximumThreadNum po then
        (let offset = maximumThreadNum po * locationId + ucast processId in
         if offset \<ge> poolSize po then Inr None
         else if unat (o_pid (descriptors po ! unat offset)) = unat processId + 1 then Inr (Some (unat offset))
         else Inl ''corrupted descriptor pool/data area'')
      else Inl ''processId not right '')"

definition getDescriptor_addr :: "(u64 \<Rightarrow> u32) option \<Rightarrow> opool \<Rightarrow> u16 \<Rightarrow> u64 \<Rightarrow> nat option checked" where
  "getDescriptor_addr locIdMapfunc po processId addr =
     (case locIdMapfunc of None \<Rightarrow> Inr None | Some f \<Rightarrow> getDescriptor po processId (f addr))"

section \<open>Recovery\<close>

text \<open>Recovery runs alone on the durable memory and descriptors; every store to a private word is flushed.\<close>

definition O_doRecoverPrivateAddrSucc :: "odesc \<Rightarrow> (u64 \<Rightarrow> u64) \<Rightarrow> odesc \<times> (u64 \<Rightarrow> u64)" where
  "O_doRecoverPrivateAddrSucc d m =
     (d\<lparr>o_privSet := True\<rparr>,
      if isRecoverCAS (o_op d) then m(o_priv d := 1)
      else if isDoubleCAS (o_op d) then m(o_priv d := getDCASValue (o_op d))
      else if isFASAS (o_op d) then m(o_priv d := o_old d)
      else m)"

text \<open>
  The condition on the status is \<open>statusInfo_ & SuccStatus == SuccStatus\<close>, which C++ reads as
  \<open>statusInfo_ & (SuccStatus == SuccStatus)\<close>.
\<close>

definition recoverOneDescriptor :: "odesc \<Rightarrow> (u64 \<Rightarrow> u64) \<Rightarrow> (odesc \<times> (u64 \<Rightarrow> u64)) checked" where
  "recoverOneDescriptor d m =
     (let val = m (o_shared d); mine = (tag_process val = o_pid d \<and> tag_seq val = getSeqId d) in
      if mine \<and> actual_value val \<noteq> o_new d then Inl ''value not match''
      else if o_privSet d then Inr (d, m)
      else
        (case (if o_status d AND of_bool (SuccStatus = SuccStatus) \<noteq> 0 then O_doRecoverPrivateAddrSucc d m
               else if mine then O_doRecoverPrivateAddrSucc (d\<lparr>o_status := o_status d OR SuccStatus\<rparr>) m
               else (d, m)) of
           (d', m') \<Rightarrow> Inr (d'\<lparr>o_shareSet := True\<rparr>, m')))"

fun recoverDescriptor :: "odesc list \<Rightarrow> (u64 \<Rightarrow> u64) \<Rightarrow> (odesc list \<times> (u64 \<Rightarrow> u64)) checked" where
  "recoverDescriptor [] m = Inr ([], m)"
| "recoverDescriptor (d # ds) m =
     (if o_op d = 0 then Inl ''corrupted descriptor pool/data area''
      else bind_checked (if o_shared d = 0 then Inr (d, m) else recoverOneDescriptor d m) (\<lambda>(d', m1).
             bind_checked (recoverDescriptor ds m1) (\<lambda>(ds', m'). Inr (d' # ds', m'))))"

text \<open>
  The constructor of the pool on an area at \<open>descPtr\<close> that holds \<open>ds\<close>, with the two fields of the metadata
  block in front of it.
\<close>

definition new_OptmizedFASASDescriptorPool ::
    "u32 \<Rightarrow> u32 \<Rightarrow> u64 \<Rightarrow> u64 \<Rightarrow> u64 \<Rightarrow> odesc list \<Rightarrow> (u64 \<Rightarrow> u64) \<Rightarrow> (opool \<times> (u64 \<Rightarrow> u64)) checked" where
  "new_OptmizedFASASDescriptorPool sz maxn descPtr initial_addr desc_count ds m =
     (if descPtr = 0 then Inl ''null descriptor pool''
      else if initial_addr \<noteq> descPtr - 64 then Inl ''invalid initial address''
      else if desc_count \<noteq> ucast sz then Inl ''wrong descriptor pool size''
      else if o_op (ds ! 0) \<noteq> 0
      then bind_checked (recoverDescriptor ds m) (\<lambda>(ds', m').
             Inr (\<lparr>poolSize = sz, maximumThreadNum = maxn, descriptors = ds'\<rparr>, m'))
      else if maxn = 0 then Inl ''division by zero''
      else Inr (\<lparr>poolSize = sz, maximumThreadNum = maxn, descriptors = createNewDescriptor maxn (unat sz) 0\<rparr>, m))"

end
