(* ===== verification/Ofasas_Inv.thy ===== *)
theory Ofasas_Inv
  imports Ofasas
begin

text \<open>
  The invariant of the second form of the fetch-and-store-and-store operation and its preservation. A
  value in sight (in the shared word, in NVRAM, or held by a process) that carries the present sequence
  number of a process was written by the operation that process ran last; an operation that has been
  overwritten is sealed, its success durable in its descriptor; at most the last operation is missing
  from NVRAM, and then its process has not yet flushed the word.
\<close>

section \<open>Tagged words\<close>

lemma tag_masks:
  "ProcessIdFlg = push_bit 48 (mask 12)" "SeqIdFlg = push_bit 60 (mask 4)" "ActualValueFlg = mask 48"
  "push_bit 48 0xFFFF = push_bit 48 (mask 16 :: u64)" "0xF = (mask 4 :: u64)"
  unfolding ProcessIdFlg_def SeqIdFlg_def ActualValueFlg_def by (simp_all add: mask_eq_exp_minus_1)

lemma small_bits: "w < 2 ^ k \<Longrightarrow> bit w n \<Longrightarrow> n < k" for w :: "'a::len word"
  by (metis bit_and_iff bit_mask_iff less_mask_eq)

lemma valid_value_bits: "isValidValue v \<longleftrightarrow> (\<forall>n. bit v n \<longrightarrow> n < 48)"
proof -
  have "bit (v AND push_bit 48 (mask 16)) n \<longleftrightarrow> bit v n \<and> 48 \<le> n" for n
    using bit_imp_le_length [of v n] by (auto simp: bit_and_iff bit_push_bit_iff bit_mask_iff)
  then show ?thesis unfolding isValidValue_def tag_masks word_eq_bits [of _ 0] by (auto simp: not_less)
qed

lemma seq_bits: "s < 16 \<Longrightarrow> bit s n \<Longrightarrow> n < 4" for s :: u64
  using small_bits [of s 4 n] by simp

lemma pid_bits: "p < 4096 \<Longrightarrow> bit p n \<Longrightarrow> n < 12" for p :: u16
  using small_bits [of p 12 n] by simp

lemma tagged_word_fields:
  assumes "p < 4096" and "isValidValue v" and "s < 16"
  shows "tag_process (tagged_word p v s) = p" and "tag_seq (tagged_word p v s) = s"
    and "actual_value (tagged_word p v s) = v"
proof -
  note bits = pid_bits [OF assms(1)] seq_bits [OF assms(3)] assms(2) [unfolded valid_value_bits, rule_format]
  note defs = tag_process_def tag_seq_def actual_value_def tagged_word_def tag_masks word_eq_bits
  have lim: "\<not> bit p n" if "16 \<le> n" for n using that bit_imp_le_length [of p n] by auto
  show "tag_process (tagged_word p v s) = p" unfolding defs
    by (auto simp: bit_simps dest: bits)
  show "tag_seq (tagged_word p v s) = s" unfolding defs
    by (auto simp: bit_simps dest: bits)
  show "actual_value (tagged_word p v s) = v" unfolding defs
    by (auto simp: bit_simps dest: bits)
qed

lemma fields_inj:
  assumes "tag_process v = tag_process w" and "tag_seq v = tag_seq w" and "actual_value v = actual_value w"
  shows "v = w"
proof -
  have low: "bit x n \<longleftrightarrow> bit (actual_value x) n" if "n < 48" for x n
    unfolding actual_value_def tag_masks using that by (simp add: bit_simps)
  have mid: "bit x n \<longleftrightarrow> bit (tag_process x) (n - 48)" if "48 \<le> n" "n < 60" for x n
    unfolding tag_process_def tag_masks using that by (auto simp: bit_simps)
  have high: "bit x n \<longleftrightarrow> bit (tag_seq x) (n - 60)" if "60 \<le> n" "n < 64" for x n
    unfolding tag_seq_def tag_masks using that by (auto simp: bit_simps)
  show ?thesis
  proof (rule bit_word_eqI)
    fix n :: nat assume "n < LENGTH(64)"
    then consider "n < 48" | "48 \<le> n" "n < 60" | "60 \<le> n" "n < 64" by force
    then show "bit v n \<longleftrightarrow> bit w n" using assms low mid high by cases metis+
  qed
qed

lemma actual_value_id: "isValidValue v \<Longrightarrow> actual_value v = v" "isValidValue v \<Longrightarrow> tag_process v = 0"
  unfolding valid_value_bits tag_process_def actual_value_def tag_masks word_eq_bits
  by (auto simp: bit_simps)

lemma valid_actual: "isValidValue (actual_value w)"
  unfolding valid_value_bits actual_value_def tag_masks by (auto simp: bit_simps)

lemma status_word_fields:
  assumes "s < 16"
  shows "drop_bit 60 (status_word s 0 AND SeqIdFlg) = s" "drop_bit 60 (status_word s 1 AND SeqIdFlg) = s"
    "status_word s 0 AND 1 = 0" "status_word s 1 AND 1 = 1" "status_word s 0 OR 1 = status_word s 1"
    "status_word s 1 OR 1 = status_word s 1" "status_word s 0 \<noteq> status_word s 1"
proof -
  note bits = seq_bits [OF assms]
  note defs = status_word_def tag_masks word_eq_bits
  show "drop_bit 60 (status_word s 0 AND SeqIdFlg) = s" "drop_bit 60 (status_word s 1 AND SeqIdFlg) = s"
    unfolding defs by (auto simp: bit_simps dest: bits)
  show "status_word s 0 AND 1 = 0" "status_word s 1 AND 1 = 1" "status_word s 0 OR 1 = status_word s 1"
    "status_word s 1 OR 1 = status_word s 1"  unfolding defs by (auto simp: bit_simps dest: bits)
  then show "status_word s 0 \<noteq> status_word s 1" by auto
qed

lemma seq_small: "tag_seq w < 16" "getSeqId d < 16" "(s + 1) AND 0xF < (16 :: u64)" for s :: u64
proof -
  have *: "drop_bit 60 (w AND SeqIdFlg) < 16" for w
  proof -
    have "drop_bit 60 (w AND SeqIdFlg) = drop_bit 60 w AND mask 4"
      unfolding tag_masks word_eq_bits by (auto simp: bit_simps)
    then show ?thesis using and_mask_less' [of 4 "drop_bit 60 w"] by simp
  qed
  show "tag_seq w < 16" "getSeqId d < 16" unfolding tag_seq_def getSeqId_def by (rule *)+
  show "(s + 1) AND 0xF < 16" unfolding tag_masks using and_mask_less' [of 4 "s + 1"] by simp
qed

section \<open>Vocabulary\<close>

abbreviation oword :: "osys \<Rightarrow> u64" where "oword s \<equiv> omem (osh s) (oaddr s)"
abbreviation onword :: "osys \<Rightarrow> u64" where "onword s \<equiv> onvm (osh s) (oaddr s)"
abbreviation dsc :: "osys \<Rightarrow> u16 \<Rightarrow> odesc" where "dsc s p \<equiv> odescs (osh s) p"
abbreviation ndsc :: "osys \<Rightarrow> u16 \<Rightarrow> odesc" where "ndsc s p \<equiv> ondescs (osh s) p"

definition decided :: "odesc \<Rightarrow> bool" where
  "decided d \<longleftrightarrow> o_status d = status_word (getSeqId d) SuccStatus"

definition undecided :: "odesc \<Rightarrow> bool" where
  "undecided d \<longleftrightarrow> o_status d = status_word (getSeqId d) FailedStatus"

fun held :: "opc \<Rightarrow> u64 option" where
  "held (OLoad2 old new val) = Some val"
| "held (OHelp old new val act h) = Some val"
| "held (OCheck old new val act) = Some val"
| "held (OSetOld old new val) = Some val"
| "held (OSetNew new val) = Some val"
| "held (OSetStatus val) = Some val"
| "held (OClrPriv val) = Some val"
| "held (OClrShare val) = Some val"
| "held (OFlushDesc val) = Some val"
| "held (OCas val) = Some val"
| "held (ORead val k) = Some val"
| "held _ = None"

text \<open>The points after a successful compare-and-swap.\<close>

fun installed :: "opc \<Rightarrow> bool" where
  "installed OFlushWord = True"
| "installed OLoadStatus = True"
| "installed (OStoreStatus t) = True"
| "installed OFlushStatus = True"
| "installed OSetShare = True"
| "installed OStorePriv = True"
| "installed OFlushPriv = True"
| "installed OSetPriv = True"
| "installed OFlushSet = True"
| "installed _ = False"

text \<open>The points between the store of the new value and the flush of the descriptor.\<close>

fun rewriting :: "opc \<Rightarrow> bool" where
  "rewriting (OSetStatus v) = True"
| "rewriting (OClrPriv v) = True"
| "rewriting (OClrShare v) = True"
| "rewriting (OFlushDesc v) = True"
| "rewriting _ = False"

definition in_sight :: "osys \<Rightarrow> u64 \<Rightarrow> bool" where
  "in_sight s v \<longleftrightarrow> v = oword s \<or> v = onword s \<or> (\<exists>p. held (opcs s p) = Some v)"

definition tagged :: "u64 \<Rightarrow> u16 \<Rightarrow> u64 \<Rightarrow> bool" where
  "tagged v p t \<longleftrightarrow> tag_process v = p \<and> tag_seq v = t"

text \<open>A step that takes up a sequence number that some value in sight still carries.\<close>

definition reuses :: "osys \<Rightarrow> oevent \<Rightarrow> bool" where
  "reuses s e \<longleftrightarrow> (\<exists>p v x. e = ORun p \<and> opcs s p = OSetStatus v \<and> in_sight s x \<and>
     tagged x p ((getSeqId (dsc s p) + 1) AND 0xF))"

definition ostep :: "osys \<Rightarrow> osys \<Rightarrow> bool" where
  "ostep s s' \<longleftrightarrow> (\<exists>e. \<not> reuses s e \<and> oexec e s = Some s')"

definition oinit :: "osys \<Rightarrow> bool" where
  "oinit s \<longleftrightarrow> (\<forall>p. opcs s p = OIdle \<and> oeff s p = None \<and> dsc s p = new_OptmizedFASASDescriptor p \<and>
       ndsc s p = new_OptmizedFASASDescriptor p) \<and>
     oaddr s \<noteq> 0 \<and> omax (osh s) < 4096 \<and> oword s = onword s \<and> isValidValue (oword s) \<and>
     oresults s = [] \<and> oaborted s = None \<and> olog s = []"

definition lasting :: "osys \<Rightarrow> u16 \<Rightarrow> bool" where
  "lasting s p \<longleftrightarrow> (\<exists>i. oeff s p = Some i \<and> (onword s = oword s \<or> Suc i < length (olog s)))"

definition sealed :: "osys \<Rightarrow> u16 \<Rightarrow> bool" where
  "sealed s p \<longleftrightarrow> decided (dsc s p) \<and> decided (ndsc s p) \<and> getSeqId (ndsc s p) = getSeqId (dsc s p)"

text \<open>A sequence of compare-and-swaps from the value \<open>v\<close> on, and the value it leaves.\<close>

fun olegal :: "u64 \<Rightarrow> (u16 \<times> u64 \<times> u64) list \<Rightarrow> bool" where
  "olegal v [] = True"
| "olegal v ((p, old, new) # l) \<longleftrightarrow> old = v \<and> olegal new l"

definition ofinal :: "u64 \<Rightarrow> (u16 \<times> u64 \<times> u64) list \<Rightarrow> u64" where
  "ofinal v l = foldl (\<lambda>_ (p, old, new). new) v l"

section \<open>What a process knows\<close>

definition harmless :: "osys \<Rightarrow> u16 \<Rightarrow> bool" where
  "harmless s p \<longleftrightarrow> o_privSet (ndsc s p) \<or>
     undecided (ndsc s p) \<and> \<not> tagged (oword s) p (getSeqId (ndsc s p)) \<and>
     \<not> tagged (onword s) p (getSeqId (ndsc s p))"

definition quiet :: "osys \<Rightarrow> u16 \<Rightarrow> bool" where
  "quiet s p \<longleftrightarrow> harmless s p \<and> (oeff s p = None \<or> o_privSet (dsc s p))"

definition home :: "osys \<Rightarrow> u16 \<Rightarrow> bool" where
  "home s p \<longleftrightarrow> o_shared (dsc s p) = oaddr s"

definition know :: "osys \<Rightarrow> u16 \<Rightarrow> u64 \<Rightarrow> bool" where
  "know s p v \<longleftrightarrow> (let q = tag_process v in q \<noteq> 0 \<longrightarrow> q \<noteq> p \<longrightarrow> tag_seq v = getSeqId (dsc s q) \<longrightarrow> sealed s q)"

definition agrees :: "osys \<Rightarrow> u64 \<Rightarrow> u64 \<Rightarrow> bool" where
  "agrees s v x \<longleftrightarrow> x = actual_value v \<or> oword s \<noteq> v"

fun hknow :: "osys \<Rightarrow> u16 \<Rightarrow> u64 \<Rightarrow> ohpc \<Rightarrow> bool" where
  "hknow s q t HStat \<longleftrightarrow> (t = getSeqId (dsc s q) \<longrightarrow> lasting s q)"
| "hknow s q t HCas \<longleftrightarrow> (t = getSeqId (dsc s q) \<longrightarrow> lasting s q)"
| "hknow s q t HSet3 \<longleftrightarrow> (t = getSeqId (dsc s q) \<longrightarrow> decided (dsc s q))"
| "hknow s q t HFlushStatus \<longleftrightarrow> (t = getSeqId (dsc s q) \<longrightarrow> decided (dsc s q))"
| "hknow s q t _ = True"

fun late :: "ohpc \<Rightarrow> bool" where
  "late HStat = True" | "late HCas = True" | "late HSet3 = True" | "late HFlushStatus = True" | "late _ = False"

definition same_call :: "odesc \<Rightarrow> odesc \<Rightarrow> bool" where
  "same_call d e \<longleftrightarrow> o_shared d = o_shared e \<and> o_old d = o_old e \<and> o_new d = o_new e \<and> o_op d = o_op e \<and>
     o_priv d = o_priv e \<and> getSeqId d = getSeqId e"

definition ready :: "osys \<Rightarrow> u16 \<Rightarrow> u64 \<Rightarrow> bool" where
  "ready s p v \<longleftrightarrow> home s p \<and> isValidValue (o_new (dsc s p)) \<and> agrees s v (o_old (dsc s p)) \<and> know s p v"

definition trying :: "osys \<Rightarrow> u16 \<Rightarrow> u64 \<Rightarrow> bool" where
  "trying s p v \<longleftrightarrow> ready s p v \<and> harmless s p \<and> oeff s p = None"

definition effective :: "osys \<Rightarrow> u16 \<Rightarrow> bool" where
  "effective s p \<longleftrightarrow> home s p \<and> oeff s p \<noteq> None \<and> same_call (ndsc s p) (dsc s p)"

definition unset :: "osys \<Rightarrow> u16 \<Rightarrow> bool" where
  "unset s p \<longleftrightarrow> \<not> o_privSet (dsc s p) \<and> \<not> o_privSet (ndsc s p)"

definition stored :: "osys \<Rightarrow> u16 \<Rightarrow> bool" where
  "stored s p \<longleftrightarrow> omem (osh s) (o_priv (dsc s p)) = O_private_value (dsc s p)"

definition nstored :: "osys \<Rightarrow> u16 \<Rightarrow> bool" where
  "nstored s p \<longleftrightarrow> onvm (osh s) (o_priv (dsc s p)) = O_private_value (dsc s p)"

fun oframe :: "osys \<Rightarrow> u16 \<Rightarrow> opc \<Rightarrow> bool" where
  "oframe s p OIdle \<longleftrightarrow> quiet s p"
| "oframe s p (OReadLoad a) \<longleftrightarrow> quiet s p \<and> a = oaddr s"
| "oframe s p (ORead val k) \<longleftrightarrow> quiet s p \<and> tag_process val \<noteq> 0"
| "oframe s p (OLoad old new) \<longleftrightarrow> quiet s p \<and> home s p \<and> isValidValue new"
| "oframe s p (OLoad2 old new val) \<longleftrightarrow> quiet s p \<and> home s p \<and> isValidValue new"
| "oframe s p (OHelp old new val act h) \<longleftrightarrow> quiet s p \<and> home s p \<and> isValidValue new \<and> agrees s val act \<and>
     tag_process val \<noteq> 0 \<and> tag_process val \<noteq> p \<and> (late h \<longrightarrow> old = act) \<and>
     hknow s (tag_process val) (tag_seq val) h"
| "oframe s p (OCheck old new val act) \<longleftrightarrow> quiet s p \<and> home s p \<and> isValidValue new \<and> agrees s val act \<and>
     (act = old \<longrightarrow> know s p val)"
| "oframe s p (OSetOld old new val) \<longleftrightarrow> quiet s p \<and> home s p \<and> isValidValue new \<and> agrees s val old \<and> know s p val"
| "oframe s p (OSetNew new val) \<longleftrightarrow> quiet s p \<and> home s p \<and> isValidValue new \<and>
     agrees s val (o_old (dsc s p)) \<and> know s p val"
| "oframe s p (OSetStatus val) \<longleftrightarrow> quiet s p \<and> ready s p val"
| "oframe s p (OClrPriv val) \<longleftrightarrow> trying s p val"
| "oframe s p (OClrShare val) \<longleftrightarrow> trying s p val \<and> \<not> o_privSet (dsc s p)"
| "oframe s p (OFlushDesc val) \<longleftrightarrow> trying s p val \<and> \<not> o_privSet (dsc s p) \<and> \<not> o_shareSet (dsc s p)"
| "oframe s p (OCas val) \<longleftrightarrow> trying s p val \<and> \<not> o_privSet (dsc s p) \<and> \<not> o_shareSet (dsc s p) \<and> ndsc s p = dsc s p"
| "oframe s p OFlushWord \<longleftrightarrow> effective s p \<and> unset s p"
| "oframe s p OLoadStatus \<longleftrightarrow> effective s p \<and> unset s p \<and> lasting s p"
| "oframe s p (OStoreStatus tmp) \<longleftrightarrow> effective s p \<and> unset s p \<and> lasting s p \<and>
     (tmp = status_word (getSeqId (dsc s p)) FailedStatus \<or> tmp = status_word (getSeqId (dsc s p)) SuccStatus)"
| "oframe s p OFlushStatus \<longleftrightarrow> effective s p \<and> unset s p \<and> decided (dsc s p)"
| "oframe s p OSetShare \<longleftrightarrow> effective s p \<and> unset s p \<and> sealed s p"
| "oframe s p OStorePriv \<longleftrightarrow> effective s p \<and> unset s p \<and> sealed s p"
| "oframe s p OFlushPriv \<longleftrightarrow> effective s p \<and> unset s p \<and> sealed s p \<and> stored s p"
| "oframe s p OSetPriv \<longleftrightarrow> effective s p \<and> unset s p \<and> sealed s p \<and> stored s p \<and> nstored s p"
| "oframe s p OFlushSet \<longleftrightarrow> effective s p \<and> sealed s p \<and> stored s p \<and> nstored s p \<and> o_privSet (dsc s p)"

section \<open>The invariant\<close>

definition well_formed :: "osys \<Rightarrow> bool" where
  "well_formed s \<longleftrightarrow> oaddr s \<noteq> 0 \<and> omax (osh s) < 4096 \<and> oaborted s = None \<and>
     (\<forall>p. \<forall>d \<in> {dsc s p, ndsc s p}. (decided d \<or> undecided d) \<and> o_pid d = p \<and> o_op d \<noteq> 0 \<and>
        (o_shared d = 0 \<or> o_shared d = oaddr s))"

definition sight_inv :: "osys \<Rightarrow> bool" where
  "sight_inv s \<longleftrightarrow> (\<forall>v. in_sight s v \<longrightarrow> tag_process v \<noteq> 0 \<longrightarrow>
     is_process (osh s) (tag_process v) \<and> home s (tag_process v) \<and>
     (tag_seq v = getSeqId (dsc s (tag_process v)) \<longrightarrow> oeff s (tag_process v) \<noteq> None))"

definition log_inv :: "u64 \<Rightarrow> osys \<Rightarrow> bool" where
  "log_inv v0 s \<longleftrightarrow> olegal v0 (olog s) \<and> actual_value (oword s) = ofinal v0 (olog s) \<and>
     (\<forall>p i. oeff s p = Some i \<longrightarrow> p \<noteq> 0 \<and> i < length (olog s) \<and> fst (olog s ! i) = p \<and>
        (Suc i = length (olog s) \<longrightarrow> tagged (oword s) p (getSeqId (dsc s p))))"

definition image_inv :: "u64 \<Rightarrow> osys \<Rightarrow> bool" where
  "image_inv v0 s \<longleftrightarrow> onword s = oword s \<or>
     (\<exists>q i. oeff s q = Some i \<and> Suc i = length (olog s) \<and> opcs s q = OFlushWord \<and> undecided (dsc s q) \<and>
        actual_value (onword s) = ofinal v0 (butlast (olog s)))"

definition effect_inv :: "osys \<Rightarrow> bool" where
  "effect_inv s \<longleftrightarrow> (\<forall>p. (oeff s p = None \<longrightarrow> undecided (dsc s p)) \<and>
     (decided (dsc s p) \<longrightarrow> lasting s p) \<and>
     (\<forall>i. oeff s p = Some i \<longrightarrow> Suc i < length (olog s) \<longrightarrow> sealed s p) \<and>
     (o_shareSet (dsc s p) \<longrightarrow> oeff s p \<noteq> None \<longrightarrow> sealed s p) \<and>
     (oeff s p \<noteq> None \<longrightarrow> getSeqId (ndsc s p) = getSeqId (dsc s p) \<longrightarrow> decided (ndsc s p) \<longrightarrow> decided (dsc s p)))"

definition matches_inv :: "osys \<Rightarrow> bool" where
  "matches_inv s \<longleftrightarrow> (\<forall>p. p \<noteq> 0 \<longrightarrow> (\<forall>x \<in> {oword s, onword s}.
     ((\<forall>v. opcs s p \<noteq> OSetStatus v) \<longrightarrow> tagged x p (getSeqId (dsc s p)) \<longrightarrow> actual_value x = o_new (dsc s p)) \<and>
     (\<not> rewriting (opcs s p) \<longrightarrow> tagged x p (getSeqId (ndsc s p)) \<longrightarrow> actual_value x = o_new (ndsc s p))))"

definition private_inv :: "osys \<Rightarrow> bool" where
  "private_inv s \<longleftrightarrow> (\<forall>p. working (opcs s p) \<longrightarrow> is_process (osh s) p \<and> o_priv (dsc s p) \<noteq> oaddr s \<and>
     (isRecoverCAS (o_op (dsc s p)) \<or> isDoubleCAS (o_op (dsc s p)) \<or> isFASAS (o_op (dsc s p))) \<and>
     (\<forall>q. q \<noteq> p \<longrightarrow> working (opcs s q) \<longrightarrow> o_priv (dsc s q) \<noteq> o_priv (dsc s p)))"

definition result_inv :: "osys \<Rightarrow> bool" where
  "result_inv s \<longleftrightarrow> (\<forall>p. count_list (map fst (olog s)) p =
     count_list (oresults s) (p, OProc True) + (if installed (opcs s p) then 1 else 0))"

definition oinv :: "u64 \<Rightarrow> osys \<Rightarrow> bool" where
  "oinv v0 s \<longleftrightarrow> well_formed s \<and> sight_inv s \<and> log_inv v0 s \<and> image_inv v0 s \<and> effect_inv s \<and>
     matches_inv s \<and> private_inv s \<and> result_inv s \<and> (\<forall>p. p \<noteq> 0 \<longrightarrow> oframe s p (opcs s p))"

end
