(* ===== verification/Ofasas_Rely.thy ===== *)
theory Ofasas_Rely
  imports Ofasas_Inv
begin

text \<open>
  What a step of one process keeps for the others: the relation \<open>onward\<close> between two states, the stability of
  the assertions of all processes under it, and the clauses of the invariant that follow from it.
\<close>

section \<open>Status words\<close>

lemma status_consts: "SuccStatus = 1" "FailedStatus = 0" by (simp_all add: SuccStatus_def FailedStatus_def)

lemma getSeqId_status:
  assumes "s < 16"
  shows "getSeqId (d\<lparr>o_status := status_word s SuccStatus\<rparr>) = s"
    "getSeqId (d\<lparr>o_status := status_word s FailedStatus\<rparr>) = s"
  using status_word_fields(1,2) [OF assms] unfolding getSeqId_def status_consts by simp_all

lemma getSeqId_upd [simp]:
  "getSeqId (d\<lparr>o_old := a\<rparr>) = getSeqId d" "getSeqId (d\<lparr>o_new := a\<rparr>) = getSeqId d"
  "getSeqId (d\<lparr>o_op := a\<rparr>) = getSeqId d" "getSeqId (d\<lparr>o_priv := a\<rparr>) = getSeqId d"
  "getSeqId (d\<lparr>o_shared := a\<rparr>) = getSeqId d" "getSeqId (d\<lparr>o_privSet := b\<rparr>) = getSeqId d"
  "getSeqId (d\<lparr>o_shareSet := b\<rparr>) = getSeqId d"
  by (simp_all add: getSeqId_def)

lemma decided_upd [simp]:
  "s < 16 \<Longrightarrow> decided (d\<lparr>o_status := status_word s SuccStatus\<rparr>)"
  "s < 16 \<Longrightarrow> undecided (d\<lparr>o_status := status_word s FailedStatus\<rparr>)"
  "decided (d\<lparr>o_old := a\<rparr>) = decided d" "decided (d\<lparr>o_new := a\<rparr>) = decided d"
  "decided (d\<lparr>o_op := a\<rparr>) = decided d" "decided (d\<lparr>o_priv := a\<rparr>) = decided d"
  "decided (d\<lparr>o_shared := a\<rparr>) = decided d" "decided (d\<lparr>o_privSet := b\<rparr>) = decided d"
  "decided (d\<lparr>o_shareSet := b\<rparr>) = decided d"
  "undecided (d\<lparr>o_old := a\<rparr>) = undecided d" "undecided (d\<lparr>o_new := a\<rparr>) = undecided d"
  "undecided (d\<lparr>o_op := a\<rparr>) = undecided d" "undecided (d\<lparr>o_priv := a\<rparr>) = undecided d"
  "undecided (d\<lparr>o_shared := a\<rparr>) = undecided d" "undecided (d\<lparr>o_privSet := b\<rparr>) = undecided d"
  "undecided (d\<lparr>o_shareSet := b\<rparr>) = undecided d"
  by (simp_all add: decided_def undecided_def getSeqId_status)

lemma decided_not_undecided: "decided d \<Longrightarrow> \<not> undecided d"
  using status_word_fields(7) [OF seq_small(2) [of d]] by (simp add: decided_def undecided_def status_consts)

section \<open>What a step keeps for the others\<close>

text \<open>The facts about process \<open>p\<close> that a step between \<open>s\<close> and \<open>s'\<close> keeps as long as its sequence number is the same.\<close>

definition kept :: "osys \<Rightarrow> osys \<Rightarrow> u16 \<Rightarrow> bool" where
  "kept s s' p \<longleftrightarrow> getSeqId (dsc s' p) = getSeqId (dsc s p) \<and> oeff s' p = oeff s p \<and>
     (decided (dsc s p) \<longrightarrow> decided (dsc s' p)) \<and> (sealed s p \<longrightarrow> sealed s' p)"

definition onward :: "u16 set \<Rightarrow> osys \<Rightarrow> osys \<Rightarrow> bool" where
  "onward A s s' \<longleftrightarrow> oaddr s' = oaddr s \<and> omax (osh s') = omax (osh s) \<and>
     (\<forall>q. q \<notin> A \<longrightarrow> opcs s' q = opcs s q \<and> oeff s' q = oeff s q \<and>
       (dsc s' q = dsc s q \<or>
        lasting s q \<and> dsc s' q = (dsc s q)\<lparr>o_status := status_word (getSeqId (dsc s q)) SuccStatus\<rparr>) \<and>
       (ndsc s' q = ndsc s q \<or> ndsc s' q = dsc s' q) \<and>
       (working (opcs s q) \<longrightarrow> omem (osh s') (o_priv (dsc s q)) = omem (osh s) (o_priv (dsc s q)) \<and>
          (onvm (osh s') (o_priv (dsc s q)) = onvm (osh s) (o_priv (dsc s q)) \<or>
           onvm (osh s') (o_priv (dsc s q)) = omem (osh s') (o_priv (dsc s q))))) \<and>
     (oword s' = oword s \<and> length (olog s) = length (olog s') \<or>
      \<not> in_sight s (oword s') \<and> tag_process (oword s') \<in> A \<and> length (olog s) < length (olog s')) \<and>
     (onword s' = onword s \<or> onword s' = oword s') \<and>
     (\<forall>p \<in> A. home s p \<longrightarrow> home s' p) \<and>
     (\<forall>p \<in> A. kept s s' p \<or> (oeff s' p = None \<or> oword s' \<noteq> oword s) \<and> (\<forall>v. in_sight s v \<longrightarrow> \<not> tagged v p (getSeqId (dsc s' p))))"

lemma oinvD:
  assumes "oinv v0 s"
  shows "well_formed s" "sight_inv s" "log_inv v0 s" "image_inv v0 s" "effect_inv s" "matches_inv s"
    "private_inv s" "result_inv s" "p \<noteq> 0 \<Longrightarrow> oframe s p (opcs s p)"
  using assms by (auto simp: oinv_def)

lemma kept_other:
  assumes "onward A s s'" and "q \<notin> A"
  shows "kept s s' q"
  using assms seq_small(2) [of "dsc s q"] by (auto simp: onward_def kept_def sealed_def getSeqId_status)

lemma kept_lasting:
  assumes o: "onward A s s'" and l: "log_inv v0 s" and k: "kept s s' q" and "lasting s q"
  shows "lasting s' q"
proof -
  obtain i where i: "oeff s q = Some i" "onword s = oword s \<or> Suc i < length (olog s)"
    using assms(4) by (auto simp: lasting_def)
  have "i < length (olog s)" using l i(1) by (auto simp: log_inv_def)
  then have "onword s' = oword s' \<or> Suc i < length (olog s')" using i(2) o by (auto simp: onward_def)
  then show ?thesis using i(1) k by (auto simp: lasting_def kept_def)
qed

text \<open>A sequence number in sight that is the present one of its process was so before.\<close>

lemma kept_tag:
  assumes "onward A s s'" and "in_sight s v" and "tag_seq v = getSeqId (dsc s' (tag_process v))"
  shows "kept s s' (tag_process v)"
  using assms kept_other [OF assms(1), of "tag_process v"]
  by (cases "tag_process v \<in> A") (auto simp: onward_def tagged_def)

lemma kept_seq: "kept s s' p \<Longrightarrow> getSeqId (dsc s' p) = getSeqId (dsc s p)"
  by (simp add: kept_def)

lemma know_stable:
  assumes "onward A s s'" and "in_sight s v" and "know s p v"
  shows "know s' p v"
  using assms(3) kept_tag [OF assms(1,2)] by (auto simp: know_def Let_def kept_def)

lemma hknow_stable:
  assumes o: "onward A s s'" and l: "log_inv v0 s" and v: "in_sight s v"
    and h: "hknow s (tag_process v) (tag_seq v) h"
  shows "hknow s' (tag_process v) (tag_seq v) h"
proof (cases "tag_seq v = getSeqId (dsc s' (tag_process v))")
  case True
  note k = kept_tag [OF o v True]
  show ?thesis using h kept_lasting [OF o l k] k by (cases h) (auto simp: kept_def)
next
  case False
  then show ?thesis by (cases h) auto
qed

lemma agrees_stable:
  assumes "onward A s s'" and "in_sight s v" and "agrees s v x"
  shows "agrees s' v x"
  using assms by (auto simp: onward_def agrees_def)

lemma same_desc:
  assumes "onward A s s'" and "q \<notin> A"
  shows "o_shared (dsc s' q) = o_shared (dsc s q)" "o_old (dsc s' q) = o_old (dsc s q)"
    "o_new (dsc s' q) = o_new (dsc s q)" "o_op (dsc s' q) = o_op (dsc s q)" "o_priv (dsc s' q) = o_priv (dsc s q)"
    "o_pid (dsc s' q) = o_pid (dsc s q)" "o_privSet (dsc s' q) = o_privSet (dsc s q)"
    "o_shareSet (dsc s' q) = o_shareSet (dsc s q)" "getSeqId (dsc s' q) = getSeqId (dsc s q)"
    "O_private_value (dsc s' q) = O_private_value (dsc s q)" "oeff s' q = oeff s q" "oaddr s' = oaddr s"
    "opcs s' q = opcs s q"
proof -
  have d: "dsc s' q = dsc s q \<or> dsc s' q = (dsc s q)\<lparr>o_status := status_word (getSeqId (dsc s q)) SuccStatus\<rparr>"
    and r: "oeff s' q = oeff s q" "oaddr s' = oaddr s" "opcs s' q = opcs s q"
    using assms by (auto simp: onward_def)
  show "oeff s' q = oeff s q" "oaddr s' = oaddr s" "opcs s' q = opcs s q" by (fact r)+
  show "getSeqId (dsc s' q) = getSeqId (dsc s q)" using kept_other [OF assms] by (rule kept_seq)
  show "o_shared (dsc s' q) = o_shared (dsc s q)" "o_old (dsc s' q) = o_old (dsc s q)"
    "o_new (dsc s' q) = o_new (dsc s q)" "o_op (dsc s' q) = o_op (dsc s q)" "o_priv (dsc s' q) = o_priv (dsc s q)"
    "o_pid (dsc s' q) = o_pid (dsc s q)" "o_privSet (dsc s' q) = o_privSet (dsc s q)"
    "o_shareSet (dsc s' q) = o_shareSet (dsc s q)" "O_private_value (dsc s' q) = O_private_value (dsc s q)"
    using d by (elim disjE; simp add: O_private_value_def)+
qed

lemma untagged_open:
  assumes "sight_inv s" and "oeff s p = None" and "in_sight s v" and "p \<noteq> 0"
  shows "\<not> tagged v p (getSeqId (dsc s p))"
  using assms by (auto simp: sight_inv_def tagged_def)

text \<open>The assertion of a process that does not take part in a step stays true.\<close>

lemma harmless_stable:
  assumes o: "onward A s s'" and q: "q \<notin> A" "q \<noteq> 0" and inv: "oinv v0 s"
    and h: "harmless s q" and e: "oeff s q = None \<or> o_privSet (dsc s q)"
  shows "harmless s' q"
proof -
  have w: "tagged (oword s') q t \<Longrightarrow> tagged (oword s) q t" "tagged (onword s') q t \<Longrightarrow> tagged (oword s) q t \<or> tagged (onword s) q t" for t
    using o q(1) by (auto simp: onward_def tagged_def)
  have sight: "in_sight s (oword s)" "in_sight s (onword s)" by (auto simp: in_sight_def)
  have "ndsc s' q = ndsc s q \<or> ndsc s' q = dsc s' q" using o q(1) by (auto simp: onward_def)
  then show ?thesis
  proof
    assume "ndsc s' q = ndsc s q"
    then show ?thesis using h w by (auto simp: harmless_def)
  next
    assume n: "ndsc s' q = dsc s' q"
    show ?thesis
    proof (cases "o_privSet (dsc s q)")
      case True
      then show ?thesis using n same_desc(7) [OF o q(1)] by (simp add: harmless_def)
    next
      case False
      then have e: "oeff s q = None" using e by simp
      then have "dsc s' q = dsc s q" using o q(1) by (auto simp: onward_def lasting_def)
      moreover have "undecided (dsc s q)" using oinvD(5) [OF inv] e by (auto simp: effect_inv_def)
      ultimately show ?thesis
        using n w untagged_open [OF oinvD(2) [OF inv] e _ q(2)] sight by (auto simp: harmless_def)
    qed
  qed
qed

lemma quiet_stable:
  assumes "onward A s s'" and "q \<notin> A" "q \<noteq> 0" and "oinv v0 s" and "quiet s q"
  shows "quiet s' q"
  using assms(5) harmless_stable [OF assms(1-4)] same_desc [OF assms(1,2)] by (auto simp: quiet_def)

lemma ready_stable:
  assumes "onward A s s'" and "q \<notin> A" and "in_sight s v" and "ready s q v"
  shows "ready s' q v"
  using assms(4) know_stable [OF assms(1,3)] agrees_stable [OF assms(1,3)] same_desc [OF assms(1,2)]
  by (auto simp: ready_def home_def)

lemma trying_stable:
  assumes "onward A s s'" and "q \<notin> A" "q \<noteq> 0" and "oinv v0 s" and "in_sight s v" and "trying s q v"
  shows "trying s' q v"
  using assms(6) harmless_stable [OF assms(1-4)] ready_stable [OF assms(1,2,5)] same_desc [OF assms(1,2)]
  by (auto simp: trying_def)

lemma same_call_stable:
  assumes "onward A s s'" and "q \<notin> A" and "same_call (ndsc s q) (dsc s q)"
  shows "same_call (ndsc s' q) (dsc s' q)"
proof -
  have "ndsc s' q = ndsc s q \<or> ndsc s' q = dsc s' q" using assms(1,2) by (auto simp: onward_def)
  then show ?thesis using assms(3) same_desc [OF assms(1,2)] by (auto simp: same_call_def)
qed

lemma installed_stable:
  assumes "onward A s s'" and "q \<notin> A"
  shows "effective s q \<Longrightarrow> effective s' q" "unset s q \<Longrightarrow> unset s' q"
    "working (opcs s q) \<Longrightarrow> stored s q \<Longrightarrow> stored s' q"
    "working (opcs s q) \<Longrightarrow> stored s q \<Longrightarrow> nstored s q \<Longrightarrow> nstored s' q"
proof -
  note d = same_desc [OF assms]
  have n: "ndsc s' q = ndsc s q \<or> ndsc s' q = dsc s' q" using assms by (auto simp: onward_def)
  have m: "working (opcs s q) \<Longrightarrow> omem (osh s') (o_priv (dsc s q)) = omem (osh s) (o_priv (dsc s q))"
    "working (opcs s q) \<Longrightarrow> onvm (osh s') (o_priv (dsc s q)) = onvm (osh s) (o_priv (dsc s q)) \<or>
       onvm (osh s') (o_priv (dsc s q)) = omem (osh s') (o_priv (dsc s q))"
    using assms by (auto simp: onward_def)
  show "effective s q \<Longrightarrow> effective s' q"
    using same_call_stable [OF assms] d by (auto simp: effective_def home_def)
  show "unset s q \<Longrightarrow> unset s' q" using n d by (auto simp: unset_def)
  show "working (opcs s q) \<Longrightarrow> stored s q \<Longrightarrow> stored s' q" using m(1) d by (auto simp: stored_def)
  show "working (opcs s q) \<Longrightarrow> stored s q \<Longrightarrow> nstored s q \<Longrightarrow> nstored s' q"
    using m d by (auto simp: nstored_def stored_def)
qed

lemma frame_stable:
  assumes o: "onward A s s'" and q: "q \<notin> A" "q \<noteq> 0" and inv: "oinv v0 s"
  shows "oframe s' q (opcs s' q)"
proof -
  note f = oinvD(9) [OF inv q(2)] and d = same_desc [OF o q(1)]
  note k = kept_other [OF o q(1)] and l = oinvD(3) [OF inv]
  note st = quiet_stable [OF o q inv] know_stable [OF o] hknow_stable [OF o l] agrees_stable [OF o]
    ready_stable [OF o q(1)] trying_stable [OF o q inv] installed_stable [OF o q(1)] kept_lasting [OF o l k]
  have held: "held (opcs s q) = Some v \<Longrightarrow> in_sight s v" for v by (auto simp: in_sight_def)
  have seal: "sealed s q \<Longrightarrow> sealed s' q" "decided (dsc s q) \<Longrightarrow> decided (dsc s' q)" using k by (auto simp: kept_def)
  have cas: "ndsc s q = dsc s q \<Longrightarrow> oeff s q = None \<Longrightarrow> ndsc s' q = dsc s' q"
    using o q(1) by (auto simp: onward_def lasting_def)
  show ?thesis unfolding d(13)
  proof (cases "opcs s q")
    case (OCas v)
    then show "oframe s' q (opcs s q)" using f d st(6) [OF held] cas by (auto simp: trying_def)
  qed (use f d st seal held in \<open>auto simp: home_def\<close>)
qed

section \<open>The global clauses\<close>

lemma sight_stable:
  assumes o: "onward A s s'" and inv: "sight_inv s"
    and h: "\<And>p v. p \<in> A \<Longrightarrow> held (opcs s' p) = Some v \<Longrightarrow> in_sight s v"
    and w: "oword s' \<noteq> oword s \<Longrightarrow> (let p = tag_process (oword s') in
       is_process (osh s) p \<and> home s' p \<and> oeff s' p \<noteq> None)"
  shows "sight_inv s'"
  unfolding sight_inv_def
proof (intro allI impI)
  fix v assume v: "in_sight s' v" "tag_process v \<noteq> 0"
  let ?q = "tag_process v"
  have m: "is_process (osh s') = is_process (osh s)" using o by (auto simp: onward_def is_process_def)
  show "is_process (osh s') ?q \<and> home s' ?q \<and> (tag_seq v = getSeqId (dsc s' ?q) \<longrightarrow> oeff s' ?q \<noteq> None)"
  proof (cases "in_sight s v")
    case True
    then have i: "is_process (osh s) ?q" "home s ?q" "tag_seq v = getSeqId (dsc s ?q) \<longrightarrow> oeff s ?q \<noteq> None"
      using inv v(2) by (auto simp: sight_inv_def)
    have "home s' ?q" using i(2) o same_desc [OF o, of ?q] by (cases "?q \<in> A") (auto simp: onward_def home_def)
    moreover have "tag_seq v = getSeqId (dsc s' ?q) \<longrightarrow> oeff s' ?q \<noteq> None"
      using kept_tag [OF o True] i(3) by (auto simp: kept_def)
    ultimately show ?thesis using i(1) m by simp
  next
    case False
    have "v = oword s'"
    proof (rule ccontr)
      assume n: "v \<noteq> oword s'"
      then have "v = onword s' \<or> (\<exists>p. held (opcs s' p) = Some v)" using v(1) by (auto simp: in_sight_def)
      then have "in_sight s v"
      proof
        assume "v = onword s'"
        then show ?thesis using n o by (auto simp: onward_def in_sight_def)
      next
        assume "\<exists>p. held (opcs s' p) = Some v"
        then obtain p where "held (opcs s' p) = Some v" by blast
        then show ?thesis using h [of p v] same_desc(13) [OF o, of p] by (cases "p \<in> A") (auto simp: in_sight_def)
      qed
      then show False using False by simp
    qed
    moreover have "oword s' \<noteq> oword s" using False calculation by (auto simp: in_sight_def)
    ultimately show ?thesis using w m by (auto simp: Let_def)
  qed
qed

lemma log_plain:
  assumes o: "onward A s s'" and inv: "log_inv v0 s" and w: "oword s' = oword s" "olog s' = olog s"
  shows "log_inv v0 s'"
proof -
  have "kept s s' p" if "oeff s' p = Some i" for p i
    using that o w(1) kept_other [OF o, of p] by (cases "p \<in> A") (auto simp: onward_def)
  then have "oeff s p = Some i \<and> getSeqId (dsc s' p) = getSeqId (dsc s p)" if "oeff s' p = Some i" for p i
    using that by (simp add: kept_def)
  then show ?thesis using inv w by (auto simp: log_inv_def)
qed

lemma image_plain:
  assumes o: "onward A s s'" and inv: "image_inv v0 s" and w: "oword s' = oword s" "olog s' = olog s"
    and a: "\<And>p. p \<in> A \<Longrightarrow> opcs s p = OFlushWord \<Longrightarrow> onword s' = oword s'"
  shows "image_inv v0 s'"
proof (cases "onword s' = oword s'")
  case False
  then have n: "onword s' = onword s" "onword s \<noteq> oword s" using o w by (auto simp: onward_def)
  then obtain q i where q: "oeff s q = Some i" "Suc i = length (olog s)" "opcs s q = OFlushWord" "undecided (dsc s q)"
    "actual_value (onword s) = ofinal v0 (butlast (olog s))" using inv by (auto simp: image_inv_def)
  then have A: "q \<notin> A" using a False by blast
  have "\<not> lasting s q" using q n(2) by (auto simp: lasting_def)
  then have "dsc s' q = dsc s q" using o A by (auto simp: onward_def)
  then have "oeff s' q = Some i \<and> Suc i = length (olog s') \<and> opcs s' q = OFlushWord \<and> undecided (dsc s' q) \<and>
      actual_value (onword s') = ofinal v0 (butlast (olog s'))"
    using q n w same_desc [OF o A] by simp
  then show ?thesis unfolding image_inv_def by blast
qed (simp add: image_inv_def)

definition effect_clause :: "osys \<Rightarrow> u16 \<Rightarrow> bool" where
  "effect_clause s p \<longleftrightarrow> (oeff s p = None \<longrightarrow> undecided (dsc s p)) \<and> (decided (dsc s p) \<longrightarrow> lasting s p) \<and>
     (\<forall>i. oeff s p = Some i \<longrightarrow> Suc i < length (olog s) \<longrightarrow> sealed s p) \<and>
     (o_shareSet (dsc s p) \<longrightarrow> oeff s p \<noteq> None \<longrightarrow> sealed s p) \<and>
     (oeff s p \<noteq> None \<longrightarrow> getSeqId (ndsc s p) = getSeqId (dsc s p) \<longrightarrow> decided (ndsc s p) \<longrightarrow> decided (dsc s p))"

lemma effect_clauseD:
  assumes "effect_clause s p"
  shows "oeff s p = None \<Longrightarrow> undecided (dsc s p)" "decided (dsc s p) \<Longrightarrow> lasting s p"
    "oeff s p = Some i \<Longrightarrow> Suc i < length (olog s) \<Longrightarrow> sealed s p"
    "o_shareSet (dsc s p) \<Longrightarrow> oeff s p \<noteq> None \<Longrightarrow> sealed s p"
    "oeff s p \<noteq> None \<Longrightarrow> getSeqId (ndsc s p) = getSeqId (dsc s p) \<Longrightarrow> decided (ndsc s p) \<Longrightarrow> decided (dsc s p)"
  using assms by (simp_all add: effect_clause_def)

lemma effect_clauseI:
  assumes "oeff s p = None \<Longrightarrow> undecided (dsc s p)" "decided (dsc s p) \<Longrightarrow> lasting s p"
    "\<And>i. oeff s p = Some i \<Longrightarrow> Suc i < length (olog s) \<Longrightarrow> sealed s p"
    "o_shareSet (dsc s p) \<Longrightarrow> oeff s p \<noteq> None \<Longrightarrow> sealed s p"
    "oeff s p \<noteq> None \<Longrightarrow> getSeqId (ndsc s p) = getSeqId (dsc s p) \<Longrightarrow> decided (ndsc s p) \<Longrightarrow> decided (dsc s p)"
  shows "effect_clause s p"
  unfolding effect_clause_def using assms by blast

lemma effect_stable:
  assumes o: "onward A s s'" and inv: "effect_inv s" and l: "log_inv v0 s"
    and g: "\<And>q i. q \<notin> A \<Longrightarrow> oeff s q = Some i \<Longrightarrow> Suc i < length (olog s') \<Longrightarrow> Suc i < length (olog s) \<or> sealed s q"
    and own: "\<And>p. p \<in> A \<Longrightarrow> effect_clause s' p"
  shows "effect_inv s'"
proof -
  have "effect_clause s' q" for q
  proof (cases "q \<in> A")
    case False
    note k = kept_other [OF o False] and d = same_desc [OF o False]
    have c: "effect_clause s q" using inv by (simp add: effect_inv_def effect_clause_def)
    have "dsc s' q = dsc s q \<or> lasting s q" using o False by (auto simp: onward_def)
    moreover have "oeff s q = None \<Longrightarrow> \<not> lasting s q" by (simp add: lasting_def)
    ultimately have 1: "oeff s' q = None \<longrightarrow> undecided (dsc s' q)" "decided (dsc s' q) \<longrightarrow> lasting s' q"
      using c d kept_lasting [OF o l k] by (auto simp: effect_clause_def)
    have 2: "oeff s' q = Some i \<longrightarrow> Suc i < length (olog s') \<longrightarrow> sealed s' q" for i
      using g [OF False] c d k by (auto simp: effect_clause_def kept_def)
    have 3: "o_shareSet (dsc s' q) \<longrightarrow> oeff s' q \<noteq> None \<longrightarrow> sealed s' q"
      using c d k by (auto simp: effect_clause_def kept_def)
    have "ndsc s' q = ndsc s q \<or> ndsc s' q = dsc s' q" using o False by (auto simp: onward_def)
    then have 4: "oeff s' q \<noteq> None \<longrightarrow> getSeqId (ndsc s' q) = getSeqId (dsc s' q) \<longrightarrow> decided (ndsc s' q) \<longrightarrow> decided (dsc s' q)"
      using c d k by (auto simp: effect_clause_def kept_def)
    show ?thesis using 1 2 3 4 by (simp add: effect_clause_def)
  qed (rule own)
  then show ?thesis by (simp add: effect_inv_def effect_clause_def)
qed

definition match_clause :: "osys \<Rightarrow> u16 \<Rightarrow> bool" where
  "match_clause s p \<longleftrightarrow> (\<forall>x \<in> {oword s, onword s}.
     ((\<forall>v. opcs s p \<noteq> OSetStatus v) \<longrightarrow> tagged x p (getSeqId (dsc s p)) \<longrightarrow> actual_value x = o_new (dsc s p)) \<and>
     (\<not> rewriting (opcs s p) \<longrightarrow> tagged x p (getSeqId (ndsc s p)) \<longrightarrow> actual_value x = o_new (ndsc s p)))"

lemma match_stable:
  assumes o: "onward A s s'" and inv: "matches_inv s" and own: "\<And>p. p \<in> A \<Longrightarrow> match_clause s' p"
  shows "matches_inv s'"
proof -
  have "match_clause s' q" if "q \<noteq> 0" for q
  proof (cases "q \<in> A")
    case False
    note d = same_desc [OF o False]
    have c: "match_clause s q" using inv that by (auto simp: matches_inv_def match_clause_def)
    have c1: "actual_value x = o_new (dsc s q)"
      if "x = oword s \<or> x = onword s" "\<forall>v. opcs s q \<noteq> OSetStatus v" "tagged x q (getSeqId (dsc s q))" for x
      using c that by (auto simp: match_clause_def)
    have c2: "actual_value x = o_new (ndsc s q)"
      if "x = oword s \<or> x = onword s" "\<not> rewriting (opcs s q)" "tagged x q (getSeqId (ndsc s q))" for x
      using c that by (auto simp: match_clause_def)
    have w: "x = oword s \<or> x = onword s" if "x \<in> {oword s', onword s'}" "tagged x q t" for x t
      using o False that by (auto simp: onward_def tagged_def)
    have n: "ndsc s' q = ndsc s q \<or> ndsc s' q = dsc s' q" using o False by (auto simp: onward_def)
    have r: "\<not> rewriting (opcs s q) \<Longrightarrow> \<forall>v. opcs s q \<noteq> OSetStatus v" by auto
    show ?thesis unfolding match_clause_def d(13)
    proof (intro ballI conjI impI)
      fix x assume x: "x \<in> {oword s', onword s'}" "\<forall>v. opcs s q \<noteq> OSetStatus v" "tagged x q (getSeqId (dsc s' q))"
      show "actual_value x = o_new (dsc s' q)"
        unfolding d(3) using c1 [OF w [OF x(1,3)] x(2)] x(3) d(9) by simp
    next
      fix x assume x: "x \<in> {oword s', onword s'}" "\<not> rewriting (opcs s q)" "tagged x q (getSeqId (ndsc s' q))"
      from n show "actual_value x = o_new (ndsc s' q)"
      proof
        assume n: "ndsc s' q = ndsc s q"
        show ?thesis unfolding n using c2 [OF w [OF x(1,3)] x(2)] x(3) n by simp
      next
        assume n: "ndsc s' q = dsc s' q"
        show ?thesis unfolding n d(3) using c1 [OF w [OF x(1,3)] r [OF x(2)]] x(3) n d(9) by simp
      qed
    qed
  qed (rule own)
  then show ?thesis by (simp add: matches_inv_def match_clause_def)
qed

lemma private_stable:
  assumes o: "onward A s s'" and inv: "private_inv s"
    and own: "\<And>p. p \<in> A \<Longrightarrow> working (opcs s' p) \<Longrightarrow> working (opcs s p) \<and> o_priv (dsc s' p) = o_priv (dsc s p) \<and>
      o_op (dsc s' p) = o_op (dsc s p)"
  shows "private_inv s'"
proof -
  have k: "working (opcs s p) \<and> o_priv (dsc s' p) = o_priv (dsc s p) \<and> o_op (dsc s' p) = o_op (dsc s p)"
    if "working (opcs s' p)" for p
    using that own [of p] same_desc [OF o, of p] by (cases "p \<in> A") auto
  have c: "is_process (osh s') = is_process (osh s)" "oaddr s' = oaddr s"
    using o by (auto simp: onward_def is_process_def)
  show ?thesis unfolding private_inv_def
  proof (intro allI impI)
    fix p assume p: "working (opcs s' p)"
    have i: "is_process (osh s) p" "o_priv (dsc s p) \<noteq> oaddr s"
      "isRecoverCAS (o_op (dsc s p)) \<or> isDoubleCAS (o_op (dsc s p)) \<or> isFASAS (o_op (dsc s p))"
      "q \<noteq> p \<Longrightarrow> working (opcs s q) \<Longrightarrow> o_priv (dsc s q) \<noteq> o_priv (dsc s p)" for q
      using inv [unfolded private_inv_def, rule_format, OF conjunct1 [OF k [OF p]]] by blast+
    have "q \<noteq> p \<longrightarrow> working (opcs s' q) \<longrightarrow> o_priv (dsc s' q) \<noteq> o_priv (dsc s' p)" for q
      using i(4) [of q] k [of q] k [OF p] by auto
    then show "is_process (osh s') p \<and> o_priv (dsc s' p) \<noteq> oaddr s' \<and>
        (isRecoverCAS (o_op (dsc s' p)) \<or> isDoubleCAS (o_op (dsc s' p)) \<or> isFASAS (o_op (dsc s' p))) \<and>
        (\<forall>q. q \<noteq> p \<longrightarrow> working (opcs s' q) \<longrightarrow> o_priv (dsc s' q) \<noteq> o_priv (dsc s' p))"
      using i(1-3) k [OF p] c by simp
  qed
qed

definition desc_ok :: "u64 \<Rightarrow> u16 \<Rightarrow> odesc \<Rightarrow> bool" where
  "desc_ok a p d \<longleftrightarrow> (decided d \<or> undecided d) \<and> o_pid d = p \<and> o_op d \<noteq> 0 \<and> (o_shared d = 0 \<or> o_shared d = a)"

lemma well_formed_iff:
  "well_formed s \<longleftrightarrow> oaddr s \<noteq> 0 \<and> omax (osh s) < 4096 \<and> oaborted s = None \<and>
     (\<forall>p. desc_ok (oaddr s) p (dsc s p) \<and> desc_ok (oaddr s) p (ndsc s p))"
  unfolding well_formed_def desc_ok_def by simp

lemma desc_ok_status:
  assumes "desc_ok a p d" and "k < 16"
  shows "desc_ok a p (d\<lparr>o_status := status_word k SuccStatus\<rparr>)"
    "desc_ok a p (d\<lparr>o_status := status_word k FailedStatus\<rparr>)"
  using assms by (simp_all add: desc_ok_def)

lemma formed_stable:
  assumes o: "onward A s s'" and inv: "well_formed s" and "oaborted s' = None"
    and own: "\<And>p. p \<in> A \<Longrightarrow> desc_ok (oaddr s) p (dsc s' p) \<and> desc_ok (oaddr s) p (ndsc s' p)"
  shows "well_formed s'"
proof -
  have "desc_ok (oaddr s) q (dsc s' q) \<and> desc_ok (oaddr s) q (ndsc s' q)" for q
  proof (cases "q \<in> A")
    case False
    have c: "desc_ok (oaddr s) q (dsc s q)" "desc_ok (oaddr s) q (ndsc s q)" using inv by (simp_all add: well_formed_iff)
    have "dsc s' q = dsc s q \<or> dsc s' q = (dsc s q)\<lparr>o_status := status_word (getSeqId (dsc s q)) SuccStatus\<rparr>"
      using o False by (auto simp: onward_def)
    then have d: "desc_ok (oaddr s) q (dsc s' q)"
      using c(1) desc_ok_status(1) [OF c(1) seq_small(2) [of "dsc s q"]] by (elim disjE) simp_all
    have "ndsc s' q = ndsc s q \<or> ndsc s' q = dsc s' q" using o False by (auto simp: onward_def)
    then show ?thesis using c(2) d by (elim disjE) simp_all
  qed (rule own)
  moreover have "oaddr s' = oaddr s" "omax (osh s') = omax (osh s)" using o by (simp_all add: onward_def)
  ultimately show ?thesis using inv assms(3) by (simp add: well_formed_iff)
qed

text \<open>A step that neither changes the shared word nor the record of effects.\<close>

lemma plain_step:
  assumes inv: "oinv v0 s" and o: "onward A s s'"
    and w: "oword s' = oword s" "olog s' = olog s" "oaborted s' = None"
    and h: "\<And>p v. p \<in> A \<Longrightarrow> held (opcs s' p) = Some v \<Longrightarrow> in_sight s v"
    and i: "\<And>p. p \<in> A \<Longrightarrow> opcs s p = OFlushWord \<Longrightarrow> onword s' = oword s'"
    and d: "\<And>p. p \<in> A \<Longrightarrow> desc_ok (oaddr s) p (dsc s' p) \<and> desc_ok (oaddr s) p (ndsc s' p)"
    and e: "\<And>p. p \<in> A \<Longrightarrow> effect_clause s' p"
    and m: "\<And>p. p \<in> A \<Longrightarrow> match_clause s' p"
    and pr: "private_inv s'"
    and r: "result_inv s'"
    and f: "\<And>p. p \<in> A \<Longrightarrow> oframe s' p (opcs s' p)"
  shows "oinv v0 s'"
proof -
  note inv' = oinvD [OF inv]
  have "oframe s' q (opcs s' q)" if "q \<noteq> 0" for q
    using f frame_stable [OF o _ that inv] by (cases "q \<in> A") auto
  moreover have "sight_inv s'" by (rule sight_stable [OF o inv'(2) h]) (use w in auto)
  moreover have "effect_inv s'" by (rule effect_stable [OF o inv'(5,3) _ e]) (use w in auto)
  ultimately show ?thesis
    using log_plain [OF o inv'(3) w(1,2)] image_plain [OF o inv'(4) w(1,2) i] match_stable [OF o inv'(6) m]
      formed_stable [OF o inv'(1) w(3) d] pr r by (simp add: oinv_def)
qed

end
