(* ===== verification/Ofasas_Steps.thy ===== *)
theory Ofasas_Steps
  imports Ofasas_Rely
begin

text \<open>Every step of the machine keeps the invariant.\<close>

section \<open>Steps that leave the operation of the process as it is\<close>

lemma desc_clauses:
  assumes "oinv v0 s"
  shows "desc_ok (oaddr s) p (dsc s p)" "desc_ok (oaddr s) p (ndsc s p)" "effect_clause s p"
    "p \<noteq> 0 \<Longrightarrow> match_clause s p" "p \<noteq> 0 \<Longrightarrow> oframe s p (opcs s p)"
  using oinvD [OF assms] by (auto simp: well_formed_iff effect_inv_def effect_clause_def matches_inv_def match_clause_def)

lemma ordinary_step:
  assumes inv: "oinv v0 s" and p: "p \<noteq> 0" and o: "onward {p} s s'"
    and w: "oword s' = oword s" "olog s' = olog s" "oaborted s' = None" "oeff s' p = oeff s p"
    and d: "getSeqId (dsc s' p) = getSeqId (dsc s p)" "o_new (dsc s' p) = o_new (dsc s p)"
      "o_shared (dsc s' p) = o_shared (dsc s p)" "o_op (dsc s' p) = o_op (dsc s p)" "o_pid (dsc s' p) = o_pid (dsc s p)"
      "o_priv (dsc s' p) = o_priv (dsc s p)" "o_status (dsc s' p) = o_status (dsc s p)"
      "o_shareSet (dsc s' p) \<longrightarrow> o_shareSet (dsc s p)"
    and n: "ndsc s' p = ndsc s p \<or> ndsc s' p = dsc s' p"
    and h: "\<And>v. held (opcs s' p) = Some v \<Longrightarrow> in_sight s v"
    and i: "opcs s p = OFlushWord \<Longrightarrow> onword s' = oword s'"
    and pc: "\<And>v. opcs s p \<noteq> OSetStatus v" "\<not> rewriting (opcs s' p) \<Longrightarrow> \<not> rewriting (opcs s p) \<or> ndsc s' p = dsc s' p"
      "working (opcs s' p) \<Longrightarrow> working (opcs s p)"
    and r: "result_inv s'"
    and f: "oframe s' p (opcs s' p)"
  shows "oinv v0 s'"
proof (rule plain_step [OF inv o w(1-3)])
  note c = desc_clauses [OF inv, of p]
  have st: "decided (dsc s' p) = decided (dsc s p)" "undecided (dsc s' p) = undecided (dsc s p)"
    using d(1,7) by (simp_all add: decided_def undecided_def)
  have D: "desc_ok (oaddr s) p (dsc s' p)" using c(1) d st by (simp add: desc_ok_def)
  have k: "kept s s' p" using d(1) w(4) st n by (auto simp: kept_def sealed_def)
  have l: "lasting s p \<Longrightarrow> lasting s' p" by (rule kept_lasting [OF o oinvD(3) [OF inv] k])
  note e = effect_clauseD [OF c(3)]
  have ec: "effect_clause s' p"
  proof (rule effect_clauseI)
    show "sealed s' p" if "oeff s' p = Some i" "Suc i < length (olog s')" for i
      using e(3) [of i] that w k by (simp add: kept_def)
    show "sealed s' p" if "o_shareSet (dsc s' p)" "oeff s' p \<noteq> None" using e(4) that w d(8) k by (simp add: kept_def)
    show "decided (dsc s' p)"
      if "oeff s' p \<noteq> None" "getSeqId (ndsc s' p) = getSeqId (dsc s' p)" "decided (ndsc s' p)"
      using n e(5) that w(4) st d(1) by (elim disjE) simp_all
  qed (use e(1,2) w(4) st l in simp_all)
  show "held (opcs s' q) = Some v \<Longrightarrow> in_sight s v" if "q \<in> {p}" for q v using that h by simp
  show "opcs s q = OFlushWord \<Longrightarrow> onword s' = oword s'" if "q \<in> {p}" for q using that i by simp
  show "desc_ok (oaddr s) q (dsc s' q) \<and> desc_ok (oaddr s) q (ndsc s' q)" if "q \<in> {p}" for q
    using that D c(2) n by (elim disjE) simp_all
  show "effect_clause s' q" if "q \<in> {p}" for q
    using that ec by simp
  have T: "tagged x p (getSeqId (dsc s' p)) \<longrightarrow> actual_value x = o_new (dsc s' p)" if "x \<in> {oword s', onword s'}" for x
  proof -
    have "x \<in> {oword s, onword s}" using that o w(1) by (auto simp: onward_def)
    then show ?thesis using c(4) [OF p] pc(1) d(1,2) by (auto simp: match_clause_def)
  qed
  have T2: "tagged x p (getSeqId (ndsc s' p)) \<longrightarrow> actual_value x = o_new (ndsc s' p)"
    if "x \<in> {oword s', onword s'}" "\<not> rewriting (opcs s' p)" for x
  proof (cases "ndsc s' p = dsc s' p")
    case False
    then have "ndsc s' p = ndsc s p" "\<not> rewriting (opcs s p)" using n pc(2) that(2) by auto
    moreover have "x \<in> {oword s, onword s}" using that(1) o w(1) by (auto simp: onward_def)
    ultimately show ?thesis using c(4) [OF p] by (auto simp: match_clause_def)
  qed (use T [OF that(1)] in simp)
  show "match_clause s' q" if "q \<in> {p}" for q using that T T2 by (simp add: match_clause_def)
  show "private_inv s'" by (rule private_stable [OF o oinvD(7) [OF inv]]) (use d pc(3) in auto)
  show "oframe s' q (opcs s' q)" if "q \<in> {p}" for q using that f by simp
qed (rule r)

section \<open>Effects on shared memory\<close>

lemma oflush_simps [simp]:
  "omem (oflush sh a) = omem sh" "odescs (oflush sh a) = odescs sh" "ondescs (oflush sh a) = ondescs sh"
  "omax (oflush sh a) = omax sh" "onvm (oflush sh a) = (onvm sh)(a := omem sh a)"
  by (simp_all add: oflush_def)

lemma oflush_desc_simps [simp]:
  "omem (oflush_desc sh q) = omem sh" "odescs (oflush_desc sh q) = odescs sh" "onvm (oflush_desc sh q) = onvm sh"
  "omax (oflush_desc sh q) = omax sh" "ondescs (oflush_desc sh q) = (ondescs sh)(q := odescs sh q)"
  by (simp_all add: oflush_desc_def)

lemma upd_desc_simps [simp]:
  "omem (upd_desc sh q f) = omem sh" "onvm (upd_desc sh q f) = onvm sh" "ondescs (upd_desc sh q f) = ondescs sh"
  "omax (upd_desc sh q f) = omax sh" "odescs (upd_desc sh q f) = (odescs sh)(q := f (odescs sh q))"
  by (simp_all add: upd_desc_def)

text \<open>The state after a step of process \<open>p\<close>.\<close>

definition moved :: "osys \<Rightarrow> u16 \<Rightarrow> opc \<Rightarrow> oshared \<Rightarrow> osys" where
  "moved s p pc sh = s\<lparr>osh := sh, opcs := (opcs s)(p := pc)\<rparr>"

definition answered :: "osys \<Rightarrow> u16 \<Rightarrow> ores \<Rightarrow> oshared \<Rightarrow> osys" where
  "answered s p r sh = s\<lparr>osh := sh, opcs := (opcs s)(p := OIdle), oresults := (p, r) # oresults s\<rparr>"

lemma omoved_simps [simp]:
  "osh (moved s p pc sh) = sh" "opcs (moved s p pc sh) = (opcs s)(p := pc)" "oaddr (moved s p pc sh) = oaddr s"
  "olog (moved s p pc sh) = olog s" "oeff (moved s p pc sh) = oeff s" "oaborted (moved s p pc sh) = oaborted s"
  "oresults (moved s p pc sh) = oresults s"
  by (simp_all add: moved_def)

lemma answered_simps [simp]:
  "osh (answered s p r sh) = sh" "opcs (answered s p r sh) = (opcs s)(p := OIdle)" "oaddr (answered s p r sh) = oaddr s"
  "olog (answered s p r sh) = olog s" "oeff (answered s p r sh) = oeff s" "oaborted (answered s p r sh) = oaborted s"
  "oresults (answered s p r sh) = (p, r) # oresults s"
  by (simp_all add: answered_def)

lemma result_moved:
  assumes "result_inv s" and "installed pc \<longleftrightarrow> installed (opcs s p)"
  shows "result_inv (moved s p pc sh)"
  using assms by (auto simp: result_inv_def)

lemma result_answered:
  assumes "result_inv s" and "installed (opcs s p) \<longleftrightarrow> r = OProc True"
  shows "result_inv (answered s p r sh)"
  using assms by (auto simp: result_inv_def)

text \<open>The changes of shared memory of which the others notice little.\<close>

inductive harm_free :: "osys \<Rightarrow> u16 \<Rightarrow> oshared \<Rightarrow> bool" for s :: osys and p :: u16 where
  hf_none: "harm_free s p (osh s)"
| hf_flush: "harm_free s p (oflush (osh s) a)"
| hf_flush_desc: "harm_free s p (oflush_desc (osh s) q)"
| hf_upd: "\<lbrakk>\<And>d. o_status (f d) = o_status d; \<And>d. o_shared (f d) = o_shared d\<rbrakk> \<Longrightarrow> harm_free s p (upd_desc (osh s) p f)"
| hf_succeed: "lasting s q \<Longrightarrow>
    harm_free s p (upd_desc (osh s) q (\<lambda>d. d\<lparr>o_status := status_word (getSeqId (dsc s q)) SuccStatus\<rparr>))"
| hf_private: "working (opcs s p) \<Longrightarrow> harm_free s p ((osh s)\<lparr>omem := (omem (osh s))(o_priv (dsc s p) := v)\<rparr>)"

lemma harm_free_onward:
  assumes inv: "oinv v0 s" and h: "harm_free s p sh"
    and s': "osh s' = sh" "oaddr s' = oaddr s" "oeff s' = oeff s" "olog s' = olog s"
      "\<And>q. q \<noteq> p \<Longrightarrow> opcs s' q = opcs s q"
  shows "onward {p} s s'"
  using h
proof cases
  case (hf_upd f)
  then have "getSeqId (f d) = getSeqId d" "decided (f d) = decided d" for d
    by (simp_all add: getSeqId_def decided_def)
  then show ?thesis using hf_upd s' by (auto simp: onward_def kept_def sealed_def home_def)
next
  case (hf_succeed q)
  note sm = seq_small(2) [of "dsc s q"]
  show ?thesis using hf_succeed s' sm by (auto simp: onward_def kept_def sealed_def home_def getSeqId_status)
next
  case hf_private
  have "o_priv (dsc s p) \<noteq> oaddr s" "\<And>q. q \<noteq> p \<Longrightarrow> working (opcs s q) \<Longrightarrow> o_priv (dsc s q) \<noteq> o_priv (dsc s p)"
    using oinvD(7) [OF inv] hf_private(2) by (auto simp: private_inv_def)
  then show ?thesis using hf_private s' by (auto simp: onward_def kept_def sealed_def home_def)
qed (use s' in \<open>auto simp: onward_def kept_def sealed_def home_def\<close>)

text \<open>The state after an ordinary step satisfies the invariant if the process knows what its next point demands.\<close>

lemmas frame_atoms = quiet_def harmless_def home_def know_def agrees_def ready_def trying_def effective_def
  unset_def stored_def nstored_def lasting_def sealed_def

lemma ordinary_moved:
  assumes inv: "oinv v0 s" and p: "p \<noteq> 0" and h: "harm_free s p sh" and f: "oframe (moved s p pc sh) p pc"
    and d: "getSeqId (odescs sh p) = getSeqId (dsc s p)" "o_new (odescs sh p) = o_new (dsc s p)"
      "o_shared (odescs sh p) = o_shared (dsc s p)" "o_op (odescs sh p) = o_op (dsc s p)" "o_pid (odescs sh p) = o_pid (dsc s p)"
      "o_priv (odescs sh p) = o_priv (dsc s p)" "o_status (odescs sh p) = o_status (dsc s p)"
      "o_shareSet (odescs sh p) \<longrightarrow> o_shareSet (dsc s p)"
    and w: "omem sh (oaddr s) = oword s"
    and n: "ondescs sh p = ndsc s p \<or> ondescs sh p = odescs sh p"
    and hd: "\<And>v. held pc = Some v \<Longrightarrow> in_sight s v"
    and i: "opcs s p = OFlushWord \<Longrightarrow> onvm sh (oaddr s) = omem sh (oaddr s)"
    and pc: "\<And>v. opcs s p \<noteq> OSetStatus v" "\<not> rewriting pc \<Longrightarrow> \<not> rewriting (opcs s p) \<or> ondescs sh p = odescs sh p"
      "working pc \<Longrightarrow> working (opcs s p)"
  shows "installed pc = installed (opcs s p) \<Longrightarrow> oinv v0 (moved s p pc sh)"
    and "pc = OIdle \<Longrightarrow> installed (opcs s p) \<longleftrightarrow> r = OProc True \<Longrightarrow> oinv v0 (answered s p r sh)"
proof -
  have ab: "oaborted s = None" using oinvD(1) [OF inv] by (simp add: well_formed_def)
  note o = harm_free_onward [OF inv h]
  { assume "installed pc = installed (opcs s p)"
    then have "result_inv (moved s p pc sh)" using oinvD(8) [OF inv] by (rule result_moved [rotated])
    then show "oinv v0 (moved s p pc sh)"
      by (intro ordinary_step [OF inv p o]) (use d w n hd i pc f ab in auto) }
  { assume a: "pc = OIdle" "installed (opcs s p) \<longleftrightarrow> r = OProc True"
    have "oframe (answered s p r sh) p OIdle" using f a(1) by (simp add: frame_atoms)
    moreover have "result_inv (answered s p r sh)" using oinvD(8) [OF inv] a(2) by (rule result_answered)
    ultimately show "oinv v0 (answered s p r sh)"
      by (intro ordinary_step [OF inv p o]) (use d w n hd i pc a(1) ab in auto) }
qed

lemma frame_moved [simp]: "oframe (moved s p pc (osh s)) q x = oframe s q x"
proof (cases x)
  case (OHelp old new val act h)
  then show ?thesis by (cases h) (auto simp: frame_atoms)
qed (auto simp: frame_atoms)

lemma quiet_moved [simp]: "quiet (moved s p pc (osh s)) q = quiet s q"
  by (simp add: frame_atoms)

lemma silent_moved:
  assumes inv: "oinv v0 s" and p: "p \<noteq> 0"
    and hd: "\<And>v. held pc = Some v \<Longrightarrow> in_sight s v"
    and pc: "opcs s p \<noteq> OFlushWord" "\<And>v. opcs s p \<noteq> OSetStatus v" "\<not> rewriting pc \<Longrightarrow> \<not> rewriting (opcs s p)"
      "working pc \<Longrightarrow> working (opcs s p)"
    and f: "oframe s p pc"
  shows "installed pc = installed (opcs s p) \<Longrightarrow> oinv v0 (moved s p pc (osh s))"
    and "pc = OIdle \<Longrightarrow> installed (opcs s p) \<longleftrightarrow> r = OProc True \<Longrightarrow> oinv v0 (answered s p r (osh s))"
  by (rule ordinary_moved [OF inv p hf_none, where pc = pc]; use assms in auto)+

section \<open>The steps of a process\<close>

lemma orun_goto:
  assumes "O_process_step p (opcs s p) (osh s) = OGoto pc sh"
    and "\<And>v. opcs s p \<noteq> OCas v" "\<And>v. opcs s p \<noteq> OSetStatus v"
  shows "orun s p = moved s p pc sh"
  using assms by (cases "opcs s p") (auto simp: orun_def onote_def moved_def)

lemma orun_ret: "O_process_step p (opcs s p) (osh s) = ORet r sh \<Longrightarrow> orun s p = answered s p r sh"
  by (simp add: orun_def answered_def)

lemma held_sight: "held (opcs s p) = Some v \<Longrightarrow> in_sight s v"
  by (auto simp: in_sight_def)

lemma word_sight: "in_sight s (oword s)" "in_sight s (onword s)"
  by (simp_all add: in_sight_def)

text \<open>What is known of the process whose value is in sight.\<close>

lemma sightD:
  assumes "oinv v0 s" and "in_sight s v" and "tag_process v \<noteq> 0"
  shows "is_process (osh s) (tag_process v)" "home s (tag_process v)"
    "tag_seq v = getSeqId (dsc s (tag_process v)) \<Longrightarrow> oeff s (tag_process v) \<noteq> None"
    "help_desc (osh s) (tag_process v) = Inr (tag_process v)"
proof -
  show 1: "is_process (osh s) (tag_process v)" "home s (tag_process v)"
    "tag_seq v = getSeqId (dsc s (tag_process v)) \<Longrightarrow> oeff s (tag_process v) \<noteq> None"
    using oinvD(2) [OF assms(1)] assms(2,3) by (auto simp: sight_inv_def)
  show "help_desc (osh s) (tag_process v) = Inr (tag_process v)"
    using 1(1) desc_clauses(1) [OF assms(1), of "tag_process v"]
    by (simp add: help_desc_def is_process_def desc_ok_def)
qed

lemma share_set_know:
  assumes inv: "oinv v0 s" and v: "in_sight s v" and "o_shareSet (dsc s (tag_process v))"
  shows "know s p v"
  using sightD(3) [OF inv v] desc_clauses(3) [OF inv, of "tag_process v"] assms(3)
  by (auto simp: know_def effect_clause_def)

text \<open>Helping: the tests, which leave or go on, and the three steps that change memory.\<close>

lemma help_silent:
  assumes inv: "oinv v0 s" and p: "p \<noteq> 0" and pc: "opcs s p = OHelp old new val act h"
    and step: "O_helpProcess_step (tag_process val) (tag_seq val) act old h (osh s) = (r, osh s)"
    and leave: "r = None \<Longrightarrow> act = old \<Longrightarrow> know s p val"
    and stay: "\<And>h'. r = Some h' \<Longrightarrow> (late h' \<longrightarrow> old = act) \<and> hknow s (tag_process val) (tag_seq val) h'"
  shows "oinv v0 (orun s p)"
proof -
  note f = desc_clauses(5) [OF inv p, unfolded pc, simplified]
  have v: "in_sight s val" using held_sight [of s p] pc by simp
  let ?pc = "case r of None \<Rightarrow> OCheck old new val act | Some h' \<Rightarrow> OHelp old new val act h'"
  have "orun s p = moved s p ?pc (osh s)" using pc step by (intro orun_goto) (auto split: option.splits)
  moreover have "oframe s p ?pc" using f leave stay by (auto split: option.splits)
  ultimately show ?thesis using silent_moved(1) [OF inv p, of ?pc] v pc by (auto split: option.splits)
qed

lemma help_flush:
  assumes inv: "oinv v0 s" and p: "p \<noteq> 0" and pc: "opcs s p = OHelp old new val act HFlushWord"
  shows "oinv v0 (orun s p)"
proof -
  let ?pc = "if old \<noteq> act then OCheck old new val act else OHelp old new val act HStat"
  let ?sh = "oflush (osh s) (o_shared (dsc s (tag_process val)))"
  note f = desc_clauses(5) [OF inv p, unfolded pc, simplified]
  have v: "in_sight s val" using held_sight [of s p] pc by simp
  note sd = sightD [OF inv v]
  have a: "o_shared (dsc s (tag_process val)) = oaddr s" using sd(2) f by (simp add: home_def)
  have "orun s p = moved s p ?pc ?sh" using pc by (intro orun_goto) auto
  moreover have fr: "oframe (moved s p ?pc ?sh) p ?pc"
    using f a sd(3) by (auto simp: frame_atoms)
  have "oinv v0 (moved s p ?pc ?sh)"
    by (rule ordinary_moved(1) [OF inv p hf_flush fr]) (use pc v a in \<open>auto split: if_splits\<close>)
  ultimately show ?thesis by simp
qed

lemma help_succeed:
  assumes inv: "oinv v0 s" and p: "p \<noteq> 0" and pc: "opcs s p = OHelp old new val act HCas"
    and st: "o_status (dsc s (tag_process val)) = status_word (tag_seq val) FailedStatus"
  shows "oinv v0 (orun s p)"
proof -
  let ?q = "tag_process val" and ?t = "tag_seq val" and ?pc = "OHelp old new val act HSet3"
  note f = desc_clauses(5) [OF inv p, unfolded pc, simplified]
  have v: "in_sight s val" using held_sight [of s p] pc by simp
  have "(dsc s ?q) = (dsc s ?q)\<lparr>o_status := status_word ?t FailedStatus\<rparr>" using st by simp
  then have t: "getSeqId (dsc s ?q) = ?t" using getSeqId_status(2) [OF seq_small(1)] by metis
  let ?sh = "upd_desc (osh s) ?q (\<lambda>d. d\<lparr>o_status := status_word (getSeqId (dsc s ?q)) SuccStatus\<rparr>)"
  have l: "lasting s ?q" and q: "p \<noteq> ?q" using f t by auto
  have "orun s p = moved s p ?pc ?sh" using pc st t by (intro orun_goto) auto
  moreover have fr: "oframe (moved s p ?pc ?sh) p ?pc"
    using f t seq_small(1) [of val] by (auto simp: frame_atoms getSeqId_status)
  have "oinv v0 (moved s p ?pc ?sh)"
    by (rule ordinary_moved(1) [OF inv p hf_succeed [OF l] fr]) (use pc v q in auto)
  ultimately show ?thesis by simp
qed

lemma help_step:
  assumes inv: "oinv v0 s" and p: "p \<noteq> 0" and pc: "opcs s p = OHelp old new val act h"
  shows "oinv v0 (orun s p)"
proof -
  let ?q = "tag_process val" and ?t = "tag_seq val"
  note f = desc_clauses(5) [OF inv p, unfolded pc, simplified]
  have v: "in_sight s val" using held_sight [of s p] pc by simp
  note set = share_set_know [OF inv v] and sil = help_silent [OF inv p pc]
  have wrong: "know s p val" if "?t \<noteq> getSeqId (dsc s ?q)" using that by (simp add: know_def)
  have dec: "?t = getSeqId (dsc s ?q) \<longrightarrow> decided (dsc s ?q)" if "o_status (dsc s ?q) \<noteq> status_word ?t FailedStatus"
    using that desc_clauses(1) [OF inv, of ?q] by (auto simp: desc_ok_def undecided_def)
  show ?thesis
  proof (cases h)
    case HFlushWord
    then show ?thesis using help_flush [OF inv p] pc by simp
  next
    case HCas
    show ?thesis
    proof (cases "o_status (dsc s ?q) = status_word ?t FailedStatus")
      case True
      then show ?thesis using help_succeed [OF inv p] pc HCas by simp
    next
      case False
      then show ?thesis by (intro sil [OF _ _]) (use HCas f dec in auto)
    qed
  next
    case HFlushStatus
    let ?pc = "OCheck old new val act" and ?sh = "oflush_desc (osh s) ?q"
    have "orun s p = moved s p ?pc ?sh" using pc HFlushStatus by (intro orun_goto) auto
    moreover have fr: "oframe (moved s p ?pc ?sh) p ?pc" using f HFlushStatus by (auto simp: frame_atoms)
    have "oinv v0 (moved s p ?pc ?sh)"
      by (rule ordinary_moved(1) [OF inv p hf_flush_desc fr]) (use pc v f in auto)
    ultimately show ?thesis by simp
  next
    case HSet
    show ?thesis by (rule sil) (use HSet set in \<open>auto split: if_splits\<close>)
  next
    case HSeq
    show ?thesis by (rule sil) (use HSeq wrong in \<open>auto split: if_splits\<close>)
  next
    case HSet2
    show ?thesis by (rule sil) (use HSet2 set in \<open>auto split: if_splits\<close>)
  next
    case HStat
    show ?thesis by (rule sil) (use HStat f dec in \<open>auto split: if_splits\<close>)
  next
    case HSet3
    show ?thesis by (rule sil) (use HSet3 f set in \<open>auto split: if_splits\<close>)
  qed
qed

text \<open>Loads, tests and reads.\<close>

lemma load_step:
  assumes inv: "oinv v0 s" and p: "p \<noteq> 0" and pc: "opcs s p = OLoad old new"
  shows "oinv v0 (orun s p)"
proof -
  note f = desc_clauses(5) [OF inv p, unfolded pc, simplified]
  have "orun s p = moved s p (OLoad2 old new (oword s)) (osh s)"
    using pc f by (intro orun_goto) (auto simp: home_def)
  then show ?thesis using silent_moved(1) [OF inv p, of "OLoad2 old new (oword s)"] pc f word_sight by simp
qed

lemma load2_step:
  assumes inv: "oinv v0 s" and p: "p \<noteq> 0" and pc: "opcs s p = OLoad2 old new val"
  shows "oinv v0 (orun s p)"
proof -
  let ?act = "actual_value (oword s)"
  let ?pc = "if tag_process val \<noteq> 0 \<and> tag_process val \<noteq> p then OHelp old new val ?act HSet else OCheck old new val ?act"
  note f = desc_clauses(5) [OF inv p, unfolded pc, simplified]
  have v: "in_sight s val" using held_sight [of s p] pc by simp
  have pid: "o_pid (dsc s p) = p" using desc_clauses(1) [OF inv, of p] by (simp add: desc_ok_def)
  have "orun s p = moved s p ?pc (osh s)"
    using pc f pid sightD(4) [OF inv v] by (intro orun_goto) (auto simp: home_def Let_def)
  moreover have "oframe s p ?pc" using f by (auto simp: agrees_def know_def)
  ultimately show ?thesis using silent_moved(1) [OF inv p, of ?pc] pc v by (auto split: if_splits)
qed

lemma check_step:
  assumes inv: "oinv v0 s" and p: "p \<noteq> 0" and pc: "opcs s p = OCheck old new val act"
  shows "oinv v0 (orun s p)"
proof -
  note f = desc_clauses(5) [OF inv p, unfolded pc, simplified]
  have v: "in_sight s val" using held_sight [of s p] pc by simp
  show ?thesis
  proof (cases "act = old")
    case True
    then have "orun s p = moved s p (OSetOld old new val) (osh s)" using pc by (intro orun_goto) auto
    then show ?thesis using silent_moved(1) [OF inv p, of "OSetOld old new val"] pc f v True by simp
  next
    case False
    then have "orun s p = answered s p (OProc False) (osh s)" using pc by (intro orun_ret) auto
    then show ?thesis using silent_moved(2) [OF inv p, of OIdle "OProc False"] pc f by simp
  qed
qed

lemma read_load_step:
  assumes inv: "oinv v0 s" and p: "p \<noteq> 0" and pc: "opcs s p = OReadLoad a"
  shows "oinv v0 (orun s p)"
proof -
  note f = desc_clauses(5) [OF inv p, unfolded pc, simplified]
  show ?thesis
  proof (cases "tag_process (oword s) \<noteq> 0 \<and> tag_process (oword s) \<noteq> p")
    case True
    then have "orun s p = moved s p (ORead (oword s) WSet) (osh s)"
      using pc f sightD(4) [OF inv word_sight(1)] by (intro orun_goto) (auto simp: Let_def)
    then show ?thesis using silent_moved(1) [OF inv p, of "ORead (oword s) WSet"] pc f True word_sight by simp
  next
    case False
    then have "orun s p = answered s p (OVal (actual_value (oword s))) (osh s)"
      using pc f by (intro orun_ret) (auto simp: Let_def)
    then show ?thesis using silent_moved(2) [OF inv p, of OIdle "OVal (actual_value (oword s))"] pc f by simp
  qed
qed

lemma read_step:
  assumes inv: "oinv v0 s" and p: "p \<noteq> 0" and pc: "opcs s p = ORead val k"
  shows "oinv v0 (orun s p)"
proof -
  note f = desc_clauses(5) [OF inv p, unfolded pc, simplified]
  have v: "in_sight s val" using held_sight [of s p] pc by simp
  have a: "o_shared (dsc s (tag_process val)) = oaddr s" using sightD(2) [OF inv v] f by (simp add: home_def)
  show ?thesis
  proof (cases "helpWithShareValue_step (tag_process val) val k (osh s)")
    case (Pair r sh)
    show ?thesis
    proof (cases r)
      case None
      have hf: "harm_free s p sh"
        using Pair None hf_none hf_flush by (cases k) (auto split: if_splits)
      have sh: "omem sh = omem (osh s)" "odescs sh = odescs (osh s)" "ondescs sh = ondescs (osh s)"
        "onvm sh (oaddr s) = onword s \<or> onvm sh (oaddr s) = oword s"
        using Pair None a by (cases k; auto split: if_splits)+
      have fr: "oframe (moved s p OIdle sh) p OIdle" using f sh by (auto simp: frame_atoms)
      have "orun s p = answered s p (OVal (actual_value val)) sh" using pc Pair None by (intro orun_ret) auto
      moreover have "oinv v0 (answered s p (OVal (actual_value val)) sh)"
        by (rule ordinary_moved(2) [OF inv p hf fr]) (use pc sh in auto)
      ultimately show ?thesis by simp
    next
      case (Some k')
      then have "sh = osh s" using Pair by (cases k) (auto split: if_splits)
      then have "orun s p = moved s p (ORead val k') (osh s)" using pc Pair Some by (intro orun_goto) auto
      then show ?thesis using silent_moved(1) [OF inv p, of "ORead val k'"] pc f v by simp
    qed
  qed
qed

text \<open>Preparing the descriptor.\<close>

lemma prepare_step:
  assumes inv: "oinv v0 s" and p: "p \<noteq> 0"
    and pc: "opcs s p = OSetOld old new val \<or> opcs s p = OClrPriv val \<or> opcs s p = OClrShare val"
  shows "oinv v0 (orun s p)"
  using pc
proof (elim disjE)
  assume pc: "opcs s p = OSetOld old new val"
  note f = desc_clauses(5) [OF inv p, unfolded pc, simplified]
  let ?pc = "OSetNew new val" and ?sh = "upd_desc (osh s) p (\<lambda>d. d\<lparr>o_old := old\<rparr>)"
  have v: "in_sight s val" using held_sight [of s p] pc by simp
  have "orun s p = moved s p ?pc ?sh" using pc by (intro orun_goto) auto
  moreover have fr: "oframe (moved s p ?pc ?sh) p ?pc" using f by (auto simp: frame_atoms)
  have "oinv v0 (moved s p ?pc ?sh)" by (rule ordinary_moved(1) [OF inv p hf_upd fr]) (use pc v in auto)
  ultimately show ?thesis by simp
next
  assume pc: "opcs s p = OClrPriv val"
  note f = desc_clauses(5) [OF inv p, unfolded pc, simplified]
  let ?pc = "OClrShare val" and ?sh = "upd_desc (osh s) p (\<lambda>d. d\<lparr>o_privSet := False\<rparr>)"
  have v: "in_sight s val" using held_sight [of s p] pc by simp
  have "orun s p = moved s p ?pc ?sh" using pc by (intro orun_goto) auto
  moreover have fr: "oframe (moved s p ?pc ?sh) p ?pc" using f by (auto simp: frame_atoms)
  have "oinv v0 (moved s p ?pc ?sh)" by (rule ordinary_moved(1) [OF inv p hf_upd fr]) (use pc v in auto)
  ultimately show ?thesis by simp
next
  assume pc: "opcs s p = OClrShare val"
  note f = desc_clauses(5) [OF inv p, unfolded pc, simplified]
  let ?pc = "OFlushDesc val" and ?sh = "upd_desc (osh s) p (\<lambda>d. d\<lparr>o_shareSet := False\<rparr>)"
  have v: "in_sight s val" using held_sight [of s p] pc by simp
  have "orun s p = moved s p ?pc ?sh" using pc by (intro orun_goto) auto
  moreover have fr: "oframe (moved s p ?pc ?sh) p ?pc" using f by (auto simp: frame_atoms)
  have "oinv v0 (moved s p ?pc ?sh)" by (rule ordinary_moved(1) [OF inv p hf_upd fr]) (use pc v in auto)
  ultimately show ?thesis by simp
qed

lemma flush_desc_step:
  assumes inv: "oinv v0 s" and p: "p \<noteq> 0" and pc: "opcs s p = OFlushDesc val"
  shows "oinv v0 (orun s p)"
proof -
  note f = desc_clauses(5) [OF inv p, unfolded pc, simplified]
  have v: "in_sight s val" using held_sight [of s p] pc by simp
  have e: "oeff s p = None" using f by (simp add: trying_def)
  have u: "undecided (dsc s p)" using desc_clauses(3) [OF inv, of p] e by (simp add: effect_clause_def)
  note t = untagged_open [OF oinvD(2) [OF inv] e _ p]
  let ?pc = "OCas val" and ?sh = "oflush_desc (osh s) p"
  have "orun s p = moved s p ?pc ?sh" using pc by (intro orun_goto) auto
  moreover have fr: "oframe (moved s p ?pc ?sh) p ?pc"
    using f u t [OF word_sight(1)] t [OF word_sight(2)] by (auto simp: frame_atoms)
  have "oinv v0 (moved s p ?pc ?sh)" by (rule ordinary_moved(1) [OF inv p hf_flush_desc fr]) (use pc v in auto)
  ultimately show ?thesis by simp
qed

text \<open>After the compare-and-swap.\<close>

lemma finish_step:
  assumes inv: "oinv v0 s" and p: "p \<noteq> 0"
    and hf: "harm_free s p sh" and run: "O_process_step p (opcs s p) (osh s) = OGoto pc sh"
    and pc: "installed (opcs s p)" "installed pc" "opcs s p = OFlushWord \<Longrightarrow> onvm sh (oaddr s) = omem sh (oaddr s)"
    and d: "getSeqId (odescs sh p) = getSeqId (dsc s p)" "o_new (odescs sh p) = o_new (dsc s p)"
      "o_shared (odescs sh p) = o_shared (dsc s p)" "o_op (odescs sh p) = o_op (dsc s p)" "o_pid (odescs sh p) = o_pid (dsc s p)"
      "o_priv (odescs sh p) = o_priv (dsc s p)" "o_status (odescs sh p) = o_status (dsc s p)"
      "o_shareSet (odescs sh p) \<longrightarrow> o_shareSet (dsc s p)"
    and w: "omem sh (oaddr s) = oword s" "ondescs sh p = ndsc s p \<or> ondescs sh p = odescs sh p"
    and f: "oframe (moved s p pc sh) p pc"
  shows "oinv v0 (orun s p)"
proof -
  have i: "held x = None" "\<not> rewriting x" "x \<noteq> OCas v" "x \<noteq> OSetStatus v" "working x" if "installed x" for x v
    using that by (cases x; simp)+
  have "orun s p = moved s p pc sh" using i [OF pc(1)] run by (intro orun_goto) auto
  moreover have "oinv v0 (moved s p pc sh)"
    by (rule ordinary_moved(1) [OF inv p hf f d w]) (use pc i in auto)
  ultimately show ?thesis by simp
qed

lemma after_cas_step:
  assumes inv: "oinv v0 s" and p: "p \<noteq> 0"
    and pc: "opcs s p = OFlushWord \<or> opcs s p = OLoadStatus \<or> opcs s p = OFlushStatus"
  shows "oinv v0 (orun s p)"
  using pc
proof (elim disjE)
  assume pc: "opcs s p = OFlushWord"
  note f = desc_clauses(5) [OF inv p, unfolded pc, simplified]
  have a: "o_shared (dsc s p) = oaddr s" using f by (simp add: effective_def home_def)
  show ?thesis by (rule finish_step [OF inv p hf_flush]) (use pc f a in \<open>auto simp: frame_atoms same_call_def\<close>)
next
  assume pc: "opcs s p = OLoadStatus"
  note f = desc_clauses(5) [OF inv p, unfolded pc, simplified]
  show ?thesis
    by (rule finish_step [OF inv p hf_none])
      (use pc f desc_clauses(1) [OF inv, of p] in \<open>auto simp: desc_ok_def decided_def undecided_def frame_atoms\<close>)
next
  assume pc: "opcs s p = OFlushStatus"
  note f = desc_clauses(5) [OF inv p, unfolded pc, simplified]
  show ?thesis
    by (rule finish_step [OF inv p hf_flush_desc]) (use pc f in \<open>auto simp: frame_atoms same_call_def\<close>)
qed

lemma private_step:
  assumes inv: "oinv v0 s" and p: "p \<noteq> 0"
    and pc: "opcs s p = OStorePriv \<or> opcs s p = OFlushPriv \<or> opcs s p = OSetPriv"
  shows "oinv v0 (orun s p)"
proof -
  have a: "o_priv (dsc s p) \<noteq> oaddr s" using oinvD(7) [OF inv] pc by (auto simp: private_inv_def)
  show ?thesis using pc
  proof (elim disjE)
    assume pc: "opcs s p = OStorePriv"
    note f = desc_clauses(5) [OF inv p, unfolded pc, simplified]
    show ?thesis by (rule finish_step [OF inv p hf_private]) (use pc f a in \<open>auto simp: frame_atoms\<close>)
  next
    assume pc: "opcs s p = OFlushPriv"
    note f = desc_clauses(5) [OF inv p, unfolded pc, simplified]
    show ?thesis by (rule finish_step [OF inv p hf_flush]) (use pc f a in \<open>auto simp: frame_atoms\<close>)
  next
    assume pc: "opcs s p = OSetPriv"
    note f = desc_clauses(5) [OF inv p, unfolded pc, simplified]
    have hf: "harm_free s p (upd_desc (osh s) p (\<lambda>d. d\<lparr>o_privSet := True\<rparr>))" by (rule hf_upd) simp_all
    show ?thesis
      by (rule finish_step [OF inv p hf])
        (use pc f a in \<open>auto simp: frame_atoms same_call_def O_private_value_def\<close>)
  qed
qed

lemma return_step:
  assumes inv: "oinv v0 s" and p: "p \<noteq> 0" and pc: "opcs s p = OFlushSet"
  shows "oinv v0 (orun s p)"
proof -
  note f = desc_clauses(5) [OF inv p, unfolded pc, simplified]
  let ?sh = "oflush_desc (osh s) p"
  have "orun s p = answered s p (OProc True) ?sh" using pc by (intro orun_ret) auto
  moreover have fr: "oframe (moved s p OIdle ?sh) p OIdle" using f by (auto simp: frame_atoms)
  have "oinv v0 (answered s p (OProc True) ?sh)"
    by (rule ordinary_moved(2) [OF inv p hf_flush_desc fr]) (use pc in auto)
  ultimately show ?thesis by simp
qed

section \<open>Steps that change the operation of the process\<close>

text \<open>The store of the new value: from here to the next flush the durable descriptor may be torn.\<close>

lemma set_new_step:
  assumes inv: "oinv v0 s" and p: "p \<noteq> 0" and pc: "opcs s p = OSetNew new val"
  shows "oinv v0 (orun s p)"
proof -
  note f = desc_clauses(5) [OF inv p, unfolded pc, simplified] and c = desc_clauses [OF inv]
  let ?sh = "upd_desc (osh s) p (\<lambda>d. d\<lparr>o_new := new\<rparr>)"
  let ?s' = "moved s p (OSetStatus val) ?sh"
  have run: "orun s p = ?s'" using pc by (intro orun_goto) auto
  have hf: "harm_free s p ?sh" by (rule hf_upd) simp_all
  have ab: "oaborted s = None" using oinvD(1) [OF inv] by (simp add: well_formed_def)
  have v: "in_sight s val" using held_sight [of s p] pc by simp
  have o: "onward {p} s ?s'" by (rule harm_free_onward [OF inv hf]) auto
  have "oinv v0 ?s'"
  proof (rule plain_step [OF inv o])
    show "private_inv ?s'" by (rule private_stable [OF o oinvD(7) [OF inv]]) (use pc in auto)
    show "result_inv ?s'" using oinvD(8) [OF inv] pc by (intro result_moved) auto
    show "effect_clause ?s' q" if "q \<in> {p}" for q
      using that c(3) [of p] by (simp add: effect_clause_def lasting_def sealed_def)
    show "desc_ok (oaddr s) q (dsc ?s' q) \<and> desc_ok (oaddr s) q (ndsc ?s' q)" if "q \<in> {p}" for q
      using that c(1,2) [of p] by (simp add: desc_ok_def)
    show "match_clause ?s' q" if "q \<in> {p}" for q using that by (simp add: match_clause_def)
    show "oframe ?s' q (opcs ?s' q)" if "q \<in> {p}" for q using that f by (auto simp: frame_atoms)
  qed (use ab v pc in auto)
  then show ?thesis using run by simp
qed

lemma store_status_step:
  assumes inv: "oinv v0 s" and p: "p \<noteq> 0" and pc: "opcs s p = OStoreStatus tmp"
  shows "oinv v0 (orun s p)"
proof -
  note f = desc_clauses(5) [OF inv p, unfolded pc, simplified] and c = desc_clauses [OF inv]
  note sm = seq_small(2) [of "dsc s p"]
  have tmp: "tmp OR SuccStatus = status_word (getSeqId (dsc s p)) SuccStatus"
    using f status_word_fields(5,6) [OF sm] by (auto simp: status_consts)
  let ?sh = "upd_desc (osh s) p (\<lambda>d. d\<lparr>o_status := status_word (getSeqId (dsc s p)) SuccStatus\<rparr>)"
  let ?s' = "moved s p OFlushStatus ?sh"
  have run: "orun s p = ?s'" using pc tmp by (intro orun_goto) auto
  have l: "lasting s p" using f by simp
  have o: "onward {p} s ?s'" by (rule harm_free_onward [OF inv hf_succeed [OF l]]) auto
  have ab: "oaborted s = None" using oinvD(1) [OF inv] by (simp add: well_formed_def)
  have k: "sealed s p \<Longrightarrow> sealed ?s' p" using sm by (auto simp: sealed_def getSeqId_status)
  have "oinv v0 ?s'"
  proof (rule plain_step [OF inv o])
    show "private_inv ?s'" by (rule private_stable [OF o oinvD(7) [OF inv]]) (use pc in auto)
    show "result_inv ?s'" using oinvD(8) [OF inv] pc by (intro result_moved) auto
    show "effect_clause ?s' q" if "q \<in> {p}" for q
    proof -
      note e = effect_clauseD [OF c(3) [of p]]
      have "effect_clause ?s' p"
        by (rule effect_clauseI) (use e(3,4) k l f sm in \<open>auto simp: lasting_def effective_def\<close>)
      then show ?thesis using that by simp
    qed
    show "desc_ok (oaddr s) q (dsc ?s' q) \<and> desc_ok (oaddr s) q (ndsc ?s' q)" if "q \<in> {p}" for q
      using that c(2) [of p] desc_ok_status(1) [OF c(1) [of p] sm] by simp
    show "match_clause ?s' q" if "q \<in> {p}" for q
      using that c(4) [OF p] pc sm by (auto simp: match_clause_def getSeqId_status)
    show "oframe ?s' q (opcs ?s' q)" if "q \<in> {p}" for q
      using that f sm by (auto simp: frame_atoms same_call_def getSeqId_status)
  qed (use ab pc in auto)
  then show ?thesis using run by simp
qed

lemma set_share_step:
  assumes inv: "oinv v0 s" and p: "p \<noteq> 0" and pc: "opcs s p = OSetShare"
  shows "oinv v0 (orun s p)"
proof -
  note f = desc_clauses(5) [OF inv p, unfolded pc, simplified] and c = desc_clauses [OF inv]
  let ?sh = "upd_desc (osh s) p (\<lambda>d. d\<lparr>o_shareSet := True\<rparr>)"
  let ?s' = "moved s p OStorePriv ?sh"
  have run: "orun s p = ?s'" using pc by (intro orun_goto) auto
  have hf: "harm_free s p ?sh" by (rule hf_upd) simp_all
  have o: "onward {p} s ?s'" by (rule harm_free_onward [OF inv hf]) auto
  have ab: "oaborted s = None" using oinvD(1) [OF inv] by (simp add: well_formed_def)
  have "oinv v0 ?s'"
  proof (rule plain_step [OF inv o])
    show "private_inv ?s'" by (rule private_stable [OF o oinvD(7) [OF inv]]) (use pc in auto)
    show "result_inv ?s'" using oinvD(8) [OF inv] pc by (intro result_moved) auto
    show "effect_clause ?s' q" if "q \<in> {p}" for q
      using that c(3) [of p] f by (simp add: effect_clause_def lasting_def sealed_def)
    show "desc_ok (oaddr s) q (dsc ?s' q) \<and> desc_ok (oaddr s) q (ndsc ?s' q)" if "q \<in> {p}" for q
      using that c(1,2) [of p] by (simp add: desc_ok_def)
    show "match_clause ?s' q" if "q \<in> {p}" for q using that c(4) [OF p] pc by (auto simp: match_clause_def)
    show "oframe ?s' q (opcs ?s' q)" if "q \<in> {p}" for q
      using that f by (auto simp: frame_atoms same_call_def)
  qed (use ab pc in auto)
  then show ?thesis using run by simp
qed

text \<open>The next sequence number, which no value in sight carries.\<close>

lemma set_status_step:
  assumes inv: "oinv v0 s" and p: "p \<noteq> 0" and pc: "opcs s p = OSetStatus val" and fresh: "\<not> reuses s (ORun p)"
  shows "oinv v0 (orun s p)"
proof -
  note f = desc_clauses(5) [OF inv p, unfolded pc, simplified] and c = desc_clauses [OF inv]
  let ?k = "(getSeqId (dsc s p) + 1) AND 0xF"
  let ?sh = "upd_desc (osh s) p (\<lambda>d. d\<lparr>o_status := status_word ?k FailedStatus\<rparr>)"
  let ?s' = "(moved s p (OClrPriv val) ?sh)\<lparr>oeff := (oeff s)(p := None)\<rparr>"
  have k: "?k < 16" by (rule seq_small(3))
  have "getSeqId (dsc s p) \<le> 15" using seq_small(2) [of "dsc s p"] by (simp add: word_less_nat_alt word_le_nat_alt)
  then have run: "orun s p = ?s'" using pc by (simp add: orun_def onote_def moved_def Let_def)
  have und: "undecided ((dsc s p)\<lparr>o_status := status_word ?k FailedStatus\<rparr>)"
    "\<not> decided ((dsc s p)\<lparr>o_status := status_word ?k FailedStatus\<rparr>)"
    using decided_upd(2) [OF k, of "dsc s p"] decided_not_undecided by blast+
  have new: "\<not> tagged x p ?k" if "in_sight s x" for x using fresh pc that by (auto simp: reuses_def)
  have o: "onward {p} s ?s'"
    using new k by (auto simp: onward_def home_def getSeqId_status)
  have ab: "oaborted s = None" using oinvD(1) [OF inv] by (simp add: well_formed_def)
  have v: "in_sight s val" using held_sight [of s p] pc by simp
  have "oinv v0 ?s'"
  proof (rule plain_step [OF inv o])
    show "private_inv ?s'" by (rule private_stable [OF o oinvD(7) [OF inv]]) (use pc in auto)
    show "result_inv ?s'" using oinvD(8) [OF inv] pc by (auto simp: result_inv_def)
    show "effect_clause ?s' q" if "q \<in> {p}" for q
      using that und by (auto simp: effect_clause_def)
    show "desc_ok (oaddr s) q (dsc ?s' q) \<and> desc_ok (oaddr s) q (ndsc ?s' q)" if "q \<in> {p}" for q
      using that c(2) [of p] desc_ok_status(2) [OF c(1) [of p] k] by simp
    show "match_clause ?s' q" if "q \<in> {p}" for q
      using that new [OF word_sight(1)] new [OF word_sight(2)] k by (auto simp: match_clause_def getSeqId_status)
    show "oframe ?s' q (opcs ?s' q)" if "q \<in> {p}" for q
      using that f by (auto simp: frame_atoms Let_def)
  qed (use ab v pc in auto)
  then show ?thesis using run by simp
qed

section \<open>The compare-and-swap\<close>

lemma olegal_append: "olegal v (l @ [(p, old, new)]) \<longleftrightarrow> olegal v l \<and> old = ofinal v l"
  by (induction v l rule: olegal.induct) (auto simp: ofinal_def)

lemma ofinal_append [simp]: "ofinal v (l @ [(p, old, new)]) = new"
  by (simp add: ofinal_def)

lemma process_number:
  assumes "is_process sh p"
  shows "0 < unat p" "unat p \<le> unat (omax sh)"
proof -
  have "unat (ucast (p - 1) :: u32) = unat (p - 1)"
    using less_trans [OF unsigned_less [of "p - 1"], of "2 ^ 32"]
    by (simp add: unsigned_ucast_eq take_bit_nat_eq_self_iff)
  then have "unat (p - 1) < unat (omax sh)" using assms(1) by (simp add: is_process_def word_less_nat_alt)
  moreover have "unat (p - 1) = unat p - 1" using assms(1) by (simp add: is_process_def unat_minus_one)
  moreover show "0 < unat p" using assms by (simp add: is_process_def unat_gt_0)
  ultimately show "unat p \<le> unat (omax sh)" by simp
qed

lemma process_small: "is_process sh p \<Longrightarrow> omax sh < 4096 \<Longrightarrow> p < 4096"
  using process_number [of sh p] by (simp add: word_less_nat_alt)

lemma process_listed: "is_process sh p \<Longrightarrow> p \<in> set (map of_nat [1..<Suc (unat (omax sh))])"
  using process_number [of sh p] by (auto simp del: upt_Suc intro!: image_eqI [of _ _ "unat p"])

text \<open>When the expected word is found, the durable word is up to date and the last operation is sealed.\<close>

lemma cas_ready:
  assumes inv: "oinv v0 s" and p: "p \<noteq> 0" and e: "oeff s p = None" and k: "know s p (oword s)"
  shows "onword s = oword s" and "oeff s q = Some i \<Longrightarrow> Suc i = length (olog s) \<Longrightarrow> sealed s q"
proof -
  show seal: "sealed s q" if "oeff s q = Some i" "Suc i = length (olog s)" for q i
  proof -
    have "q \<noteq> 0" "tagged (oword s) q (getSeqId (dsc s q))" using oinvD(3) [OF inv] that by (auto simp: log_inv_def)
    moreover have "q \<noteq> p" using that e by auto
    ultimately show ?thesis using k by (auto simp: know_def tagged_def Let_def)
  qed
  show "onword s = oword s"
  proof (rule ccontr)
    assume "onword s \<noteq> oword s"
    then obtain q i where "oeff s q = Some i" "Suc i = length (olog s)" "undecided (dsc s q)"
      using oinvD(4) [OF inv] by (auto simp: image_inv_def)
    then show False using seal [of q i] decided_not_undecided [of "dsc s q"] by (simp add: sealed_def)
  qed
qed

lemma cas_fail_step:
  assumes inv: "oinv v0 s" and p: "p \<noteq> 0" and pc: "opcs s p = OCas val" and "oword s \<noteq> val"
  shows "oinv v0 (orun s p)"
proof -
  note f = desc_clauses(5) [OF inv p, unfolded pc, simplified]
  have "orun s p = answered s p (OProc False) (osh s)"
    using pc f assms(4) by (intro orun_ret) (auto simp: O_addDescriptorToShareVar_def Let_def frame_atoms)
  moreover have "quiet s p" using f by (simp add: quiet_def trying_def)
  ultimately show ?thesis using silent_moved(2) [OF inv p, of OIdle "OProc False"] pc by simp
qed

lemma cas_step:
  assumes inv: "oinv v0 s" and p: "p \<noteq> 0" and pc: "opcs s p = OCas val" and w: "oword s = val"
  shows "oinv v0 (orun s p)"
proof -
  note f = desc_clauses(5) [OF inv p, unfolded pc, simplified] and c = desc_clauses [OF inv]
  have t: "home s p" "isValidValue (o_new (dsc s p))" "agrees s val (o_old (dsc s p))" "know s p val" "oeff s p = None"
    using f by (simp_all add: trying_def ready_def)
  have pid: "o_pid (dsc s p) = p" using c(1) [of p] by (simp add: desc_ok_def)
  let ?W = "tagged_word p (o_new (dsc s p)) (getSeqId (dsc s p))" and ?e = "(p, o_old (dsc s p), o_new (dsc s p))"
  let ?sh = "(osh s)\<lparr>omem := (omem (osh s))(oaddr s := ?W)\<rparr>"
  let ?s' = "(moved s p OFlushWord ?sh)\<lparr>olog := olog s @ [?e], oeff := (oeff s)(p := Some (length (olog s)))\<rparr>"
  have run: "orun s p = ?s'"
    using pc w t(1) pid by (simp add: orun_def onote_def moved_def Let_def O_addDescriptorToShareVar_def home_def)
  have pr: "is_process (osh s) p" "o_priv (dsc s p) \<noteq> oaddr s"
    "q \<noteq> p \<Longrightarrow> working (opcs s q) \<Longrightarrow> o_priv (dsc s q) \<noteq> oaddr s" for q
    using oinvD(7) [OF inv] pc by (auto simp: private_inv_def)
  have small: "p < 4096" using process_small [OF pr(1)] oinvD(1) [OF inv] by (simp add: well_formed_def)
  note tw = tagged_word_fields [OF small t(2) seq_small(2) [of "dsc s p"]]
  note ut = untagged_open [OF oinvD(2) [OF inv] t(5) _ p]
  have W: "\<not> in_sight s ?W" using ut [of ?W] tw(1,2) by (auto simp: tagged_def)
  note rd = cas_ready [OF inv p t(5)]
  have k: "know s p (oword s)" using t(4) w by simp
  have und: "undecided (dsc s p)" "\<not> decided (dsc s p)"
    using c(3) [of p] t(5) decided_not_undecided by (auto simp: effect_clause_def)
  have old: "o_old (dsc s p) = ofinal v0 (olog s)"
    using t(3) w oinvD(3) [OF inv] by (auto simp: agrees_def log_inv_def)
  have o: "onward {p} s ?s'"
    using W tw(1) pr(3) ut t(1) word_sight(1) [of s] by (auto simp: onward_def home_def)
  have len: "lasting s q \<Longrightarrow> lasting ?s' q" if "q \<noteq> p" for q
    using kept_lasting [OF o oinvD(3) [OF inv]] kept_other [OF o] that by auto
  have frames: "oframe ?s' q (opcs ?s' q)" if "q \<noteq> 0" for q
  proof (cases "q = p")
    case True
    then show ?thesis using f t(1) by (auto simp: frame_atoms same_call_def)
  qed (use frame_stable [OF o _ that inv] in auto)
  have "sight_inv ?s'"
    by (rule sight_stable [OF o oinvD(2) [OF inv]]) (use pr(1) t(1) tw in \<open>auto simp: home_def Let_def\<close>)
  moreover have "effect_inv ?s'"
  proof (rule effect_stable [OF o oinvD(5,3) [OF inv]])
    show "Suc i < length (olog s) \<or> sealed s q" if "q \<notin> {p}" "oeff s q = Some i" "Suc i < length (olog ?s')" for q i
      using rd(2) [OF k that(2)] that(3) by (auto simp: less_Suc_eq Suc_lessI)
    show "effect_clause ?s' q" if "q \<in> {p}" for q using that und f by (auto simp: effect_clause_def)
  qed
  moreover have "matches_inv ?s'"
  proof (rule match_stable [OF o oinvD(6) [OF inv]])
    show "match_clause ?s' q" if "q \<in> {p}" for q
      using that f tw(3) ut [OF word_sight(2)] by (auto simp: match_clause_def)
  qed
  moreover have "well_formed ?s'"
    by (rule formed_stable [OF o oinvD(1) [OF inv]]) (use c(1,2) oinvD(1) [OF inv] in \<open>auto simp: well_formed_def\<close>)
  moreover have "private_inv ?s'" by (rule private_stable [OF o oinvD(7) [OF inv]]) (use pc in auto)
  moreover have "result_inv ?s'" using oinvD(8) [OF inv] pc by (auto simp: result_inv_def)
  moreover have "log_inv v0 ?s'"
    using oinvD(3) [OF inv] old tw by (auto simp: log_inv_def olegal_append tagged_def p less_Suc_eq nth_append split: if_splits)
  moreover have "image_inv v0 ?s'"
    using rd(1) [OF k] und(1) oinvD(3) [OF inv] by (auto simp: image_inv_def log_inv_def)
  ultimately show ?thesis using run frames by (simp add: oinv_def)
qed

section \<open>Starts and evictions\<close>

lemma start_step:
  assumes inv: "oinv v0 s" and pc: "opcs s p = OIdle" and m: "omay_start s p new op priv"
  shows "oinv v0 (ostart s p old new op priv)"
proof -
  let ?d = "(dsc s p)\<lparr>o_shared := oaddr s, o_priv := priv, o_op := op\<rparr>"
  let ?s' = "moved s p (OLoad old new) ((osh s)\<lparr>odescs := (odescs (osh s))(p := ?d)\<rparr>)"
  have s': "ostart s p old new op priv = ?s'"
    by (simp add: ostart_def moved_def upd_desc_def O_setOpType_def O_setPrivateAddress_def O_setSharedAddress_def)
  have p: "p \<noteq> 0" "is_process (osh s) p" using m by (auto simp: omay_start_def is_process_def)
  note f = desc_clauses(5) [OF inv p(1), unfolded pc, simplified] and c = desc_clauses [OF inv]
  have k: "kept s ?s' p" by (simp add: kept_def sealed_def)
  then have o: "onward {p} s ?s'" by (simp add: onward_def home_def)
  have ab: "oaborted s = None" using oinvD(1) [OF inv] by (simp add: well_formed_def)
  have op: "op \<noteq> 0" using m by (auto simp: omay_start_def isRecoverCAS_def isDoubleCAS_def isFASAS_def)
  have other: "o_priv (dsc s q) \<noteq> priv" if "working (opcs s q)" for q
  proof -
    have "is_process (osh s) q" using oinvD(7) [OF inv] that by (auto simp: private_inv_def)
    from process_listed [OF this] show ?thesis using m that unfolding omay_start_def list_all_iff by blast
  qed
  have "oinv v0 ?s'"
  proof (rule plain_step [OF inv o])
    show "private_inv ?s'"
      using oinvD(7) [OF inv] other m by (auto simp: private_inv_def omay_start_def is_process_def)
    show "result_inv ?s'" using oinvD(8) [OF inv] pc by (intro result_moved) auto
    show "effect_clause ?s' q" if "q \<in> {p}" for q
      using that c(3) [of p] by (simp add: effect_clause_def lasting_def sealed_def)
    show "desc_ok (oaddr s) q (dsc ?s' q) \<and> desc_ok (oaddr s) q (ndsc ?s' q)" if "q \<in> {p}" for q
      using that c(1,2) [of p] op by (simp add: desc_ok_def)
    show "match_clause ?s' q" if "q \<in> {p}" for q
      using that c(4) [OF p(1)] pc by (simp add: match_clause_def)
    show "oframe ?s' q (opcs ?s' q)" if "q \<in> {p}" for q
      using that f m by (simp add: frame_atoms omay_start_def)
  qed (use ab pc in auto)
  then show ?thesis using s' by simp
qed

lemma start_read_step:
  assumes inv: "oinv v0 s" and pc: "opcs s p = OIdle" and m: "is_process (osh s) p"
  shows "oinv v0 (s\<lparr>opcs := (opcs s)(p := OReadLoad (oaddr s))\<rparr>)"
proof -
  have p: "p \<noteq> 0" using m by (simp add: is_process_def)
  have "oinv v0 (moved s p (OReadLoad (oaddr s)) (osh s))"
    using silent_moved(1) [OF inv p, of "OReadLoad (oaddr s)"] pc desc_clauses(5) [OF inv p] by simp
  then show ?thesis by (simp add: moved_def)
qed

lemma evict_step:
  assumes inv: "oinv v0 s" and sh: "sh = oflush (osh s) a \<or> sh = oflush_desc (osh s) q"
  shows "oinv v0 (s\<lparr>osh := sh\<rparr>)"
proof -
  let ?s' = "s\<lparr>osh := sh\<rparr>"
  have ab: "oaborted s = None" using oinvD(1) [OF inv] by (simp add: well_formed_def)
  have o: "onward {} s ?s'" using sh by (elim disjE) (auto simp: onward_def)
  show ?thesis
  proof (rule plain_step [OF inv o])
    show "private_inv ?s'" by (rule private_stable [OF o oinvD(7) [OF inv]]) auto
    show "result_inv ?s'" using oinvD(8) [OF inv] by (simp add: result_inv_def)
  qed (use ab sh in auto)
qed

section \<open>The invariant\<close>

lemma orun_step:
  assumes inv: "oinv v0 s" and pc: "opcs s p \<noteq> OIdle" and fresh: "\<not> reuses s (ORun p)" and p: "p \<noteq> 0"
  shows "oinv v0 (orun s p)"
proof -
  note q = load_step [OF inv p] load2_step [OF inv p] help_step [OF inv p] check_step [OF inv p]
    read_load_step [OF inv p] read_step [OF inv p]
  note r = prepare_step [OF inv p] set_new_step [OF inv p] set_status_step [OF inv p _ fresh]
    flush_desc_step [OF inv p]
  note z = after_cas_step [OF inv p] store_status_step [OF inv p] set_share_step [OF inv p]
    private_step [OF inv p] return_step [OF inv p]
  show ?thesis
  proof (cases "opcs s p")
    case OIdle
    then show ?thesis using pc by simp
  next
    case (OCas val)
    then show ?thesis using cas_step [OF inv p] cas_fail_step [OF inv p] by (cases "oword s = val") auto
  qed ((rule q r z, assumption) | (rule q r z, simp))+
qed

end
