(* ===== verification/Ofasas_Theorems.thy ===== *)
theory Ofasas_Theorems
  imports Ofasas_Steps
begin

text \<open>
  The theorems on the second form of the fetch-and-store-and-store operation: the invariant holds in every reachable
  state, the operations are atomic, and recovery completes exactly the operations that survive a crash.
\<close>

section \<open>The invariant on reachable states\<close>

definition ostarts :: "u64 \<Rightarrow> osys \<Rightarrow> bool" where
  "ostarts v0 s \<longleftrightarrow> oinit s \<and> oword s = v0"

lemma oinit_inv:
  assumes "ostarts v0 s"
  shows "oinv v0 s"
proof -
  let ?d = new_OptmizedFASASDescriptor
  have d: "getSeqId (?d p) = 0" "o_status (?d p) = 0" for p
    by (simp_all add: new_OptmizedFASASDescriptor_def getSeqId_def FailedStatus_def)
  have st: "undecided (?d p)" "\<not> decided (?d p)" for p
  proof -
    show u: "undecided (?d p)" using d [of p] by (simp add: undecided_def status_word_def FailedStatus_def)
    show "\<not> decided (?d p)" using decided_not_undecided u by blast
  qed
  have f: "o_pid (?d p) = p" "o_op (?d p) \<noteq> 0" "o_shared (?d p) = 0" "\<not> o_privSet (?d p)" "\<not> o_shareSet (?d p)" for p
    by (simp_all add: new_OptmizedFASASDescriptor_def FASASOp_def)
  have i: "opcs s p = OIdle" "oeff s p = None" "dsc s p = ?d p" "ndsc s p = ?d p" "onword s = oword s"
    "oresults s = []" "olog s = []" "oaborted s = None" "oaddr s \<noteq> 0" "omax (osh s) < 4096" "isValidValue (oword s)"
    "oword s = v0" for p
    using assms by (auto simp: ostarts_def oinit_def)
  note v = actual_value_id [OF i(11)]
  have "well_formed s" using i st f by (simp add: well_formed_def)
  moreover have "sight_inv s" using i v by (auto simp: sight_inv_def in_sight_def)
  moreover have "log_inv v0 s" using i v by (simp add: log_inv_def ofinal_def)
  moreover have "image_inv v0 s" using i by (simp add: image_inv_def)
  moreover have "effect_inv s" using i st f by (simp add: effect_inv_def)
  moreover have "matches_inv s" using i v by (simp add: matches_inv_def tagged_def)
  moreover have "private_inv s" using i by (simp add: private_inv_def)
  moreover have "result_inv s" using i by (simp add: result_inv_def)
  moreover have "oframe s p (opcs s p)" if "p \<noteq> 0" for p
    using i v st that by (simp add: quiet_def harmless_def tagged_def)
  ultimately show ?thesis by (simp add: oinv_def)
qed

lemma orun_other: "q \<noteq> p \<Longrightarrow> opcs (orun s p) q = opcs s q"
  by (simp add: orun_def onote_def split: ooutcome.splits opc.splits)

lemma ostep_inv:
  assumes inv: "oinv v0 s \<and> opcs s 0 = OIdle" and step: "ostep s s'"
  shows "oinv v0 s' \<and> opcs s' 0 = OIdle"
proof -
  obtain e where e: "\<not> reuses s e" "oexec e s = Some s'" using step by (auto simp: ostep_def)
  show ?thesis
  proof (cases e)
    case (ORun p)
    then have r: "s' = orun s p" "opcs s p \<noteq> OIdle" using e(2) by (auto simp: oexec_def split: if_splits)
    then have "p \<noteq> 0" using inv by auto
    then show ?thesis using orun_step [of v0 s p] orun_other [of 0 p s] inv r e(1) ORun by auto
  next
    case (OStart p old new op priv)
    then show ?thesis using e(2) inv start_step [of v0 s p new op priv old]
      by (auto simp: oexec_def ostart_def omay_start_def is_process_def split: if_splits)
  next
    case (OStartRead p)
    then show ?thesis using e(2) inv start_read_step [of v0 s p]
      by (auto simp: oexec_def is_process_def split: if_splits)
  next
    case (OEvict a)
    then show ?thesis using e(2) inv evict_step [of v0 s _ a] by (auto simp: oexec_def split: if_splits)
  next
    case (OEvictDesc q)
    then show ?thesis using e(2) inv evict_step [of v0 s _ _ q] by (auto simp: oexec_def split: if_splits)
  qed
qed

interpretation ofm: invariant_system "ostarts v0" ostep "\<lambda>s. oinv v0 s \<and> opcs s 0 = OIdle" for v0
proof unfold_locales
  show "ostarts v0 s \<Longrightarrow> oinv v0 s \<and> opcs s 0 = OIdle" for s
    using oinit_inv by (auto simp: ostarts_def oinit_def)
  show "oinv v0 s \<and> opcs s 0 = OIdle \<Longrightarrow> ostep s s' \<Longrightarrow> oinv v0 s' \<and> opcs s' 0 = OIdle" for s s'
    by (rule ostep_inv)
qed

lemmas oreach_inv = conjunct1 [OF ofm.reach_inv]

section \<open>Atomicity\<close>

text \<open>Which steps change the record of effects.\<close>

lemma log_step:
  assumes inv: "oinv v0 s" "opcs s 0 = OIdle" and step: "ostep s s'"
  shows "olog s' = olog s \<or> (\<exists>p val. opcs s p = OCas val \<and> opcs s' p = OFlushWord \<and>
    olog s' = olog s @ [(p, o_old (dsc s p), o_new (dsc s p))])"
proof -
  obtain e where e: "oexec e s = Some s'" using step by (auto simp: ostep_def)
  show ?thesis
  proof (cases e)
    case (ORun p)
    then have r: "s' = orun s p" "opcs s p \<noteq> OIdle" using e by (auto simp: oexec_def split: if_splits)
    show ?thesis
    proof (cases "\<exists>val. opcs s p = OCas val")
      case True
      then obtain val where c: "opcs s p = OCas val" by blast
      have "olog s' = olog s \<or> opcs s' p = OFlushWord \<and> olog s' = olog s @ [(p, o_old (dsc s p), o_new (dsc s p))]"
        unfolding r(1) orun_def onote_def c
        by (auto split: ooutcome.splits bool.splits prod.splits)
      then show ?thesis using c by blast
    next
      case False
      then show ?thesis unfolding r(1) orun_def onote_def by (auto split: ooutcome.splits opc.splits)
    qed
  qed (use e in \<open>auto simp: oexec_def ostart_def split: if_splits\<close>)
qed

text \<open>
  C22: Second form of the fetch-and-store-and-store operation: as long as no sequence number is taken up
  that a value in sight still carries, the record of successful compare-and-swaps is a legal history from the initial value:
  each expects the value its predecessor wrote, the shared word has the value of the last one, the value changes only by
  the compare-and-swap of an operation that expects the present value; an operation returns true if and only if it has exactly one entry; no check stops
  the process.
\<close>

theorem opt_fasas_atomic:
  assumes "reach (ostarts v0) ostep s" and "ostep s s'"
  shows "olegal v0 (olog s) \<and> actual_value (oword s) = ofinal v0 (olog s) \<and> oaborted s = None \<and>
    (\<forall>p. count_list (map fst (olog s)) p =
       count_list (oresults s) (p, OProc True) + (if installed (opcs s p) then 1 else 0)) \<and>
    (olog s' = olog s \<and> actual_value (oword s') = actual_value (oword s) \<or>
     (\<exists>p val. opcs s p = OCas val \<and> opcs s' p = OFlushWord \<and>
        actual_value (oword s) = o_old (dsc s p) \<and> actual_value (oword s') = o_new (dsc s p) \<and>
        olog s' = olog s @ [(p, o_old (dsc s p), o_new (dsc s p))]))"
proof -
  note inv = ofm.reach_inv [OF assms(1)] and inv' = oreach_inv [OF reach_step [OF assms]]
  note l = oinvD(3) [OF conjunct1 [OF inv], unfolded log_inv_def] and l' = oinvD(3) [OF inv', unfolded log_inv_def]
  have "olegal v0 (olog s) \<and> actual_value (oword s) = ofinal v0 (olog s) \<and> oaborted s = None"
    using l oinvD(1) [of v0 s] inv by (simp add: well_formed_def)
  moreover have "count_list (map fst (olog s)) p =
      count_list (oresults s) (p, OProc True) + (if installed (opcs s p) then 1 else 0)" for p
    using oinvD(8) [of v0 s] inv unfolding result_inv_def by blast
  moreover from log_step [OF conjunct1 [OF inv] conjunct2 [OF inv] assms(2)]
  have "olog s' = olog s \<and> actual_value (oword s') = actual_value (oword s) \<or>
     (\<exists>p val. opcs s p = OCas val \<and> opcs s' p = OFlushWord \<and>
        actual_value (oword s) = o_old (dsc s p) \<and> actual_value (oword s') = o_new (dsc s p) \<and>
        olog s' = olog s @ [(p, o_old (dsc s p), o_new (dsc s p))])"
  proof
    assume "olog s' = olog s"
    then show ?thesis using l l' by simp
  next
    assume "\<exists>p val. opcs s p = OCas val \<and> opcs s' p = OFlushWord \<and>
      olog s' = olog s @ [(p, o_old (dsc s p), o_new (dsc s p))]"
    then show ?thesis using l l' by (auto simp: olegal_append)
  qed
  ultimately show ?thesis by blast
qed

section \<open>Recovery\<close>

text \<open>The operations of \<open>olog\<close> that the durable word knows, and the descriptors NVRAM has.\<close>

definition survivors :: "osys \<Rightarrow> nat" where
  "survivors s = (if onword s = oword s then length (olog s) else length (olog s) - 1)"

definition durable_descs :: "osys \<Rightarrow> odesc list" where
  "durable_descs s = map (\<lambda>i. ndsc s (of_nat i)) [1..<Suc (unat (omax (osh s)))]"

text \<open>The processes whose private word recovery has to write.\<close>

definition owed :: "osys \<Rightarrow> u16 \<Rightarrow> bool" where
  "owed s p \<longleftrightarrow> installed (opcs s p) \<and> lasting s p"

lemma succ_bit:
  assumes "decided d \<or> undecided d"
  shows "o_status d AND 1 \<noteq> 0 \<longleftrightarrow> decided d"
proof -
  note sm = status_word_fields(3,4) [OF seq_small(2) [of d]]
  show ?thesis using assms sm decided_not_undecided [of d] by (auto simp: decided_def undecided_def status_consts)
qed

lemma idle_harmless:
  assumes "oframe s p pc" and "\<not> installed pc"
  shows "harmless s p"
  using assms by (cases pc) (auto simp: quiet_def trying_def)

text \<open>The durable word carries the operation of a process exactly if that operation survives, unless its descriptor says so.\<close>

lemma effective_durable:
  assumes inv: "oinv v0 s" and p: "p \<noteq> 0" and eff: "effective s p" and i: "installed (opcs s p)"
  shows "lasting s p \<longleftrightarrow> decided (ndsc s p) \<or> tagged (onword s) p (getSeqId (ndsc s p))"
proof -
  have seq: "getSeqId (ndsc s p) = getSeqId (dsc s p)" "oeff s p \<noteq> None"
    using eff by (auto simp: effective_def same_call_def)
  then obtain j where j: "oeff s p = Some j" by blast
  note e = effect_clauseD [OF desc_clauses(3) [OF inv, of p]]
  have l: "j < length (olog s)" "Suc j = length (olog s) \<Longrightarrow> tagged (oword s) p (getSeqId (dsc s p))"
    using oinvD(3) [OF inv] j by (auto simp: log_inv_def)
  have m: "actual_value x = o_new (dsc s p)" if "x \<in> {oword s, onword s}" "tagged x p (getSeqId (dsc s p))" for x
  proof -
    have "opcs s p \<noteq> OSetStatus v" for v using i by auto
    then show ?thesis using desc_clauses(4) [OF inv p] that by (auto simp: match_clause_def)
  qed
  show ?thesis
  proof
    assume la: "lasting s p"
    show "decided (ndsc s p) \<or> tagged (onword s) p (getSeqId (ndsc s p))"
    proof (cases "Suc j < length (olog s)")
      case True
      then show ?thesis using e(3) [OF j] by (simp add: sealed_def)
    next
      case False
      then show ?thesis using la l j seq(1) by (auto simp: lasting_def)
    qed
  next
    assume "decided (ndsc s p) \<or> tagged (onword s) p (getSeqId (ndsc s p))"
    then show "lasting s p"
    proof
      assume "decided (ndsc s p)"
      then show ?thesis using e(2,5) seq by simp
    next
      assume t: "tagged (onword s) p (getSeqId (ndsc s p))"
      show ?thesis
      proof (cases "Suc j = length (olog s)")
        case True
        have "onword s = oword s"
          by (rule fields_inj) (use l(2) [OF True] t seq(1) m [of "oword s"] m [of "onword s"] in \<open>auto simp: tagged_def\<close>)
        then show ?thesis using j by (simp add: lasting_def)
      qed (use j l(1) in \<open>auto simp: lasting_def\<close>)
    qed
  qed
qed

lemma recover_one:
  assumes inv: "oinv v0 s" and p: "p \<noteq> 0" and calm: "\<not> rewriting (opcs s p)" and a: "o_shared (ndsc s p) = oaddr s"
    and m: "m (oaddr s) = onword s" "owed s p \<Longrightarrow> m (o_priv (dsc s p)) = onvm (osh s) (o_priv (dsc s p))"
  shows "\<exists>d'. recoverOneDescriptor (ndsc s p) m =
    Inr (d', if owed s p then m(o_priv (dsc s p) := O_private_value (dsc s p)) else m)"
proof -
  note c = desc_clauses [OF inv, of p]
  have ok: "decided (ndsc s p) \<or> undecided (ndsc s p)" "o_pid (ndsc s p) = p" using c(2) by (auto simp: desc_ok_def)
  note sb = succ_bit [OF ok(1)]
  have mine: "tagged (onword s) p (getSeqId (ndsc s p)) \<Longrightarrow> actual_value (onword s) = o_new (ndsc s p)"
    using c(4) [OF p] calm by (auto simp: match_clause_def)
  show ?thesis
  proof (cases "installed (opcs s p)")
    case False
    have h: "harmless s p" by (rule idle_harmless [OF c(5) [OF p] False])
    have "\<not> owed s p" using False by (simp add: owed_def)
    then show ?thesis using h mine sb decided_not_undecided [of "ndsc s p"] m(1) a ok(2)
      by (auto simp: recoverOneDescriptor_def Let_def harmless_def tagged_def)
  next
    case True
    have eff: "effective s p" and fl: "o_privSet (ndsc s p) \<Longrightarrow> nstored s p \<and> sealed s p"
      using True c(5) [OF p] by (cases "opcs s p"; auto simp: unset_def)+
    note la = effective_durable [OF inv p eff True]
    have w: "working (opcs s p)" using True by (cases "opcs s p") auto
    have op: "isRecoverCAS (o_op (dsc s p)) \<or> isDoubleCAS (o_op (dsc s p)) \<or> isFASAS (o_op (dsc s p))"
      using oinvD(7) [OF inv] w by (auto simp: private_inv_def)
    have sc: "same_call (ndsc s p) (dsc s p)" using eff by (simp add: effective_def)
    have pv: "O_doRecoverPrivateAddrSucc (ndsc s p) m = ((ndsc s p)\<lparr>o_privSet := True\<rparr>, m(o_priv (dsc s p) := O_private_value (dsc s p)))"
      "O_doRecoverPrivateAddrSucc ((ndsc s p)\<lparr>o_status := x\<rparr>) m =
         ((ndsc s p)\<lparr>o_status := x, o_privSet := True\<rparr>, m(o_priv (dsc s p) := O_private_value (dsc s p)))" for x
      using sc op by (auto simp: O_doRecoverPrivateAddrSucc_def O_private_value_def same_call_def)
    show ?thesis
    proof (cases "o_privSet (ndsc s p)")
      case True
      note n = fl [OF True]
      have "m(o_priv (dsc s p) := O_private_value (dsc s p)) = m" if "owed s p"
        using n m(2) [OF that] by (auto simp: nstored_def)
      then show ?thesis using True mine m(1) a ok(2) by (auto simp: recoverOneDescriptor_def Let_def tagged_def)
    next
      case False
      then show ?thesis using mine m(1) a ok(2) sb la pv True
        by (auto simp: recoverOneDescriptor_def Let_def tagged_def owed_def status_consts)
    qed
  qed
qed

definition write_private :: "osys \<Rightarrow> u16 \<Rightarrow> (u64 \<Rightarrow> u64) \<Rightarrow> u64 \<Rightarrow> u64" where
  "write_private s p m = (if owed s p then m(o_priv (dsc s p) := O_private_value (dsc s p)) else m)"

lemma installed_effective: "oinv v0 s \<Longrightarrow> p \<noteq> 0 \<Longrightarrow> installed (opcs s p) \<Longrightarrow> effective s p"
  using oinvD(9) [of v0 s p] by (cases "opcs s p") auto

lemma owedD:
  assumes "oinv v0 s" and "owed s p"
  shows "o_priv (dsc s p) \<noteq> oaddr s" and "owed s q \<Longrightarrow> q \<noteq> p \<Longrightarrow> o_priv (dsc s q) \<noteq> o_priv (dsc s p)"
    and "is_process (osh s) p" and "o_shared (ndsc s p) = oaddr s"
proof -
  have w: "working (opcs s q)" if "owed s q" for q using that by (cases "opcs s q") (auto simp: owed_def)
  show "o_priv (dsc s p) \<noteq> oaddr s" and pr: "is_process (osh s) p"
    and "owed s q \<Longrightarrow> q \<noteq> p \<Longrightarrow> o_priv (dsc s q) \<noteq> o_priv (dsc s p)"
    using oinvD(7) [OF assms(1)] w [OF assms(2)] w [of q] by (auto simp: private_inv_def)
  have "p \<noteq> 0" using pr by (simp add: is_process_def)
  then have "effective s p" using installed_effective [OF assms(1)] assms(2) by (simp add: owed_def)
  then show "o_shared (ndsc s p) = oaddr s" by (simp add: effective_def same_call_def home_def)
qed

lemma recover_list:
  assumes inv: "oinv v0 s" and calm: "\<And>p. \<not> rewriting (opcs s p)"
    and "distinct ps" "0 \<notin> set ps" "m (oaddr s) = onword s"
    and "\<And>p. p \<in> set ps \<Longrightarrow> owed s p \<Longrightarrow> m (o_priv (dsc s p)) = onvm (osh s) (o_priv (dsc s p))"
  shows "\<exists>ds'. recoverDescriptor (map (ndsc s) ps) m = Inr (ds', fold (write_private s) ps m)"
  using assms(3-)
proof (induction ps arbitrary: m)
  case (Cons p ps)
  note c = desc_clauses [OF inv, of p] and od = owedD [OF inv, of p]
  have op: "o_op (ndsc s p) \<noteq> 0" "o_shared (ndsc s p) = 0 \<or> o_shared (ndsc s p) = oaddr s" and nz: "oaddr s \<noteq> 0"
    using c(2) oinvD(1) [OF inv] by (auto simp: desc_ok_def well_formed_def)
  have one: "\<exists>d'. (if o_shared (ndsc s p) = 0 then Inr (ndsc s p, m) else recoverOneDescriptor (ndsc s p) m) =
      Inr (d', write_private s p m)"
  proof (cases "o_shared (ndsc s p) = 0")
    case True
    then show ?thesis using od(4) nz by (auto simp: write_private_def)
  next
    case False
    then show ?thesis using recover_one [OF inv _ calm, of p m] op(2) Cons.prems by (auto simp: write_private_def)
  qed
  have "\<exists>ds'. recoverDescriptor (map (ndsc s) ps) (write_private s p m) = Inr (ds', fold (write_private s) ps (write_private s p m))"
  proof (rule Cons.IH)
    show "write_private s p m (oaddr s) = onword s" using od(1) Cons.prems(3) by (auto simp: write_private_def)
    show "write_private s p m (o_priv (dsc s q)) = onvm (osh s) (o_priv (dsc s q))" if "q \<in> set ps" "owed s q" for q
    proof -
      have "q \<noteq> p" using that Cons.prems(1) by auto
      then show ?thesis using od(2) [of q] that Cons.prems(4) [of q] by (auto simp: write_private_def)
    qed
  qed (use Cons.prems in auto)
  then show ?case using one op(1) by auto
qed simp

lemma write_all:
  assumes "oinv v0 s" and "distinct ps"
  shows "(\<forall>p \<in> set ps. owed s p \<longrightarrow> x \<noteq> o_priv (dsc s p)) \<Longrightarrow> fold (write_private s) ps m x = m x"
    and "p \<in> set ps \<Longrightarrow> owed s p \<Longrightarrow> fold (write_private s) ps m (o_priv (dsc s p)) = O_private_value (dsc s p)"
proof -
  show frame: "fold (write_private s) qs m x = m x" if "\<forall>p \<in> set qs. owed s p \<longrightarrow> x \<noteq> o_priv (dsc s p)" for qs m x
    using that by (induction qs arbitrary: m) (auto simp: write_private_def)
  show "fold (write_private s) ps m (o_priv (dsc s p)) = O_private_value (dsc s p)" if "p \<in> set ps" "owed s p"
    using assms(2) that
  proof (induction ps arbitrary: m)
    case (Cons q qs)
    show ?case
    proof (cases "p = q")
      case True
      then have "\<forall>r \<in> set qs. owed s r \<longrightarrow> o_priv (dsc s p) \<noteq> o_priv (dsc s r)"
        using owedD(2) [OF assms(1) Cons.prems(3)] Cons.prems(1) by (metis distinct.simps(2))
      moreover have "write_private s q m (o_priv (dsc s p)) = O_private_value (dsc s p)"
        using True Cons.prems(3) by (simp add: write_private_def)
      ultimately show ?thesis using frame by simp
    qed (use Cons in simp)
  qed simp
qed

lemma survivors_lasting:
  assumes "oinv v0 s"
  shows "lasting s p \<longleftrightarrow> (\<exists>i. oeff s p = Some i \<and> i < survivors s)"
proof -
  have "i < length (olog s)" if "oeff s p = Some i" for i
    using oinvD(3) [OF assms] that unfolding log_inv_def by blast
  then show ?thesis by (auto simp: lasting_def survivors_def)
qed

lemma survivors_image:
  assumes "oinv v0 s"
  shows "actual_value (onword s) = ofinal v0 (take (survivors s) (olog s))"
    and "survivors s < length (olog s) \<Longrightarrow> \<exists>p. opcs s p = OFlushWord \<and> oeff s p = Some (survivors s)"
    and "survivors s \<le> length (olog s)" "length (olog s) \<le> Suc (survivors s)"
proof -
  show "actual_value (onword s) = ofinal v0 (take (survivors s) (olog s))"
    using oinvD(3,4) [OF assms] by (auto simp: survivors_def image_inv_def log_inv_def butlast_conv_take)
  show "\<exists>p. opcs s p = OFlushWord \<and> oeff s p = Some (survivors s)" if "survivors s < length (olog s)"
  proof -
    have "onword s \<noteq> oword s" using that by (auto simp: survivors_def)
    then obtain q i where "oeff s q = Some i" "Suc i = length (olog s)" "opcs s q = OFlushWord"
      using oinvD(4) [OF assms] by (auto simp: image_inv_def)
    moreover have "survivors s = i" using calculation(2) \<open>onword s \<noteq> oword s\<close> by (simp add: survivors_def flip: calculation(2))
    ultimately show ?thesis by blast
  qed
  show "survivors s \<le> length (olog s)" "length (olog s) \<le> Suc (survivors s)" by (auto simp: survivors_def)
qed


end
