(* ===== verification/Ofasas_Runs.thy ===== *)
theory Ofasas_Runs
  imports Ofasas_Theorems
begin

text \<open>
  Runs of the second form of the fetch-and-store-and-store operation: the bound on the steps of an operation, a test
  that a run reuses no sequence number, sample runs, and the crash that recovery does not survive.
\<close>

section \<open>Every operation returns\<close>

text \<open>The number of steps a process has left.\<close>

fun hrank :: "ohpc \<Rightarrow> nat" where
  "hrank HSet = 8" | "hrank HSeq = 7" | "hrank HSet2 = 6" | "hrank HFlushWord = 5" | "hrank HStat = 4"
| "hrank HCas = 3" | "hrank HSet3 = 2" | "hrank HFlushStatus = 1"

fun wrank :: "owpc \<Rightarrow> nat" where
  "wrank WSet = 4" | "wrank WSeq = 3" | "wrank WSet2 = 2" | "wrank WFlushWord = 1"

fun orank :: "opc \<Rightarrow> nat" where
  "orank OIdle = 0"
| "orank OFlushSet = 1" | "orank OSetPriv = 2" | "orank OFlushPriv = 3" | "orank OStorePriv = 4"
| "orank OSetShare = 5" | "orank OFlushStatus = 6" | "orank (OStoreStatus t) = 7" | "orank OLoadStatus = 8"
| "orank OFlushWord = 9" | "orank (OCas v) = 10" | "orank (OFlushDesc v) = 11" | "orank (OClrShare v) = 12"
| "orank (OClrPriv v) = 13" | "orank (OSetStatus v) = 14" | "orank (OSetNew new v) = 15"
| "orank (OSetOld old new v) = 16" | "orank (OCheck old new v act) = 17"
| "orank (OHelp old new v act h) = 17 + hrank h" | "orank (OLoad2 old new v) = 26" | "orank (OLoad old new) = 27"
| "orank (ORead v k) = wrank k" | "orank (OReadLoad a) = 5"

lemma help_rank:
  "O_helpProcess_step q t act old h sh = (Some h', sh') \<Longrightarrow> hrank h' < hrank h"
  by (cases h) (auto split: if_splits)

lemma hrank_pos: "0 < hrank h"
  by (cases h) auto

lemma read_rank: "helpWithShareValue_step q v k sh = (Some k', sh') \<Longrightarrow> wrank k' < wrank k"
  by (cases k) (auto split: if_splits)

lemma hrank_le: "hrank h \<le> 8"
  by (cases h) auto

lemma orank_le: "orank pc \<le> 27"
proof (cases pc)
  case (OHelp old new v act h)
  then show ?thesis using hrank_le [of h] by simp
next
  case (ORead v k)
  then show ?thesis by (cases k) auto
qed auto

lemma step_rank:
  assumes "O_process_step p pc sh = OGoto pc' sh'"
  shows "orank pc' < orank pc"
proof (cases pc)
  case (OHelp old new v act h)
  then show ?thesis using assms help_rank hrank_pos [of h]
    by (auto split: option.splits prod.splits)
next
  case (ORead v k)
  then show ?thesis using assms read_rank by (auto split: option.splits prod.splits)
qed (use assms in \<open>auto simp: Let_def split: if_splits sum.splits prod.splits bool.splits\<close>)

definition starts :: "u16 \<Rightarrow> oevent \<Rightarrow> bool" where
  "starts p e \<longleftrightarrow> (case e of OStart q old new op priv \<Rightarrow> q = p | OStartRead q \<Rightarrow> q = p | _ \<Rightarrow> False)"

lemma exec_rank:
  assumes e: "oexec e s = Some s'" and a: "oaborted s' = None" and n: "\<not> starts p e"
  shows "(if e = ORun p then 1 else 0) + orank (opcs s' p) \<le> orank (opcs s p)"
proof (cases e)
  case (ORun q)
  then have r: "s' = orun s q" "opcs s q \<noteq> OIdle" "oaborted s = None" using e by (auto simp: oexec_def split: if_splits)
  show ?thesis
  proof (cases "q = p")
    case True
    have "0 < orank (opcs s p)" using r(2) True hrank_pos
      by (cases "opcs s p") (auto, metis gr0I orank.simps(22) wrank.elims zero_neq_numeral zero_neq_one)
    then show ?thesis using True ORun r a step_rank [of p "opcs s p" "osh s"]
      by (auto simp: orun_def onote_def Suc_le_eq split: ooutcome.splits opc.splits)
  qed (use orun_other ORun r in auto)
qed (use e n in \<open>auto simp: oexec_def ostart_def starts_def split: if_splits\<close>)

lemma aborted_stays: "oexec_all es s = Some s' \<Longrightarrow> oaborted s' = None \<Longrightarrow> oaborted s = None"
  by (cases es) (auto simp: oexec_def split: option.splits if_splits)

text \<open>
  C24: The operation and the read are wait-free. Between two starts a process takes at most 27 steps, whatever the
  other processes do and whatever is evicted, and a process that has not returned can always take its next
  step.
\<close>

theorem opt_fasas_wait_free:
  assumes "oexec_all es s = Some s'" and "oaborted s' = None" and "list_all (\<lambda>e. \<not> starts p e) es"
  shows "count_list es (ORun p) + orank (opcs s' p) \<le> orank (opcs s p) \<and> orank (opcs s p) \<le> 27 \<and>
    (orank (opcs s' p) = 0 \<longleftrightarrow> opcs s' p = OIdle) \<and> (opcs s' p \<noteq> OIdle \<longrightarrow> oexec (ORun p) s' \<noteq> None)"
proof -
  have "count_list es (ORun p) + orank (opcs s' p) \<le> orank (opcs s p)"
    using assms
  proof (induction es arbitrary: s)
    case (Cons e es)
    then obtain s1 where s1: "oexec e s = Some s1" "oexec_all es s1 = Some s'" by (auto split: option.splits)
    have "(if e = ORun p then 1 else 0) + orank (opcs s1 p) \<le> orank (opcs s p)"
      using exec_rank [OF s1(1) aborted_stays [OF s1(2) Cons.prems(2)]] Cons.prems(3) by simp
    then show ?case using Cons.IH [OF s1(2) Cons.prems(2)] Cons.prems(3) by auto
  qed simp
  moreover have "orank pc = 0 \<longleftrightarrow> pc = OIdle" for pc
  proof (cases pc)
    case (ORead v k)
    then show ?thesis by (cases k) auto
  qed (use hrank_pos in auto)
  ultimately show ?thesis using orank_le assms(2) by (auto simp: oexec_def)
qed

section \<open>Executions without reuse of a sequence number\<close>

text \<open>A test of \<open>reuses\<close> on the processes of the pool, and runs that respect it.\<close>

definition oprocs :: "osys \<Rightarrow> u16 list" where
  "oprocs s = map of_nat [1..<Suc (unat (omax (osh s)))]"

definition sees :: "osys \<Rightarrow> u64 list" where
  "sees s = oword s # onword s # List.map_filter (\<lambda>p. held (opcs s p)) (oprocs s)"

definition takes_fresh :: "osys \<Rightarrow> oevent \<Rightarrow> bool" where
  "takes_fresh s e \<longleftrightarrow> (case e of
     ORun p \<Rightarrow> (case opcs s p of
        OSetStatus v \<Rightarrow> list_all (\<lambda>x. \<not> (tag_process x = p \<and> tag_seq x = (getSeqId (dsc s p) + 1) AND 0xF)) (sees s)
      | _ \<Rightarrow> True)
   | _ \<Rightarrow> True)"

fun oexec_fresh :: "oevent list \<Rightarrow> osys \<Rightarrow> osys option" where
  "oexec_fresh [] s = Some s"
| "oexec_fresh (e # es) s = (if takes_fresh s e then Option.bind (oexec e s) (oexec_fresh es) else None)"

definition only_processes :: "osys \<Rightarrow> bool" where
  "only_processes s \<longleftrightarrow> (\<forall>p. opcs s p \<noteq> OIdle \<longrightarrow> is_process (osh s) p)"

lemma omax_step: "O_process_step p pc sh = OGoto pc' sh' \<Longrightarrow> omax sh' = omax sh"
  "O_process_step p pc sh = ORet r sh' \<Longrightarrow> omax sh' = omax sh"
proof -
  have h: "O_helpProcess_step q t act old h sh = (r, sh') \<Longrightarrow> omax sh' = omax sh" for q t act old h r sh'
    by (cases h) (auto split: if_splits)
  have w: "helpWithShareValue_step q v k sh = (r, sh') \<Longrightarrow> omax sh' = omax sh" for q v k r sh'
    by (cases k) (auto split: if_splits)
  show "O_process_step p pc sh = OGoto pc' sh' \<Longrightarrow> omax sh' = omax sh"
    by (cases pc) (auto simp: Let_def O_addDescriptorToShareVar_def
        split: if_splits sum.splits prod.splits option.splits bool.splits dest: h w)
  show "O_process_step p pc sh = ORet r sh' \<Longrightarrow> omax sh' = omax sh"
    by (cases pc) (auto simp: Let_def O_addDescriptorToShareVar_def
        split: if_splits sum.splits prod.splits option.splits bool.splits dest: h w)
qed

lemma only_processes_exec:
  assumes "only_processes s" and "oexec e s = Some s'"
  shows "only_processes s'"
proof (cases e)
  case (ORun p)
  then have r: "s' = orun s p" "opcs s p \<noteq> OIdle" using assms(2) by (auto simp: oexec_def split: if_splits)
  have "omax (osh s') = omax (osh s)"
    unfolding r(1) orun_def using omax_step [of p "opcs s p" "osh s"]
    by (auto simp: onote_def split: ooutcome.splits opc.splits)
  moreover have "opcs s q \<noteq> OIdle" if "opcs s' q \<noteq> OIdle" for q
    using that r orun_other [of q p s] by (cases "q = p") auto
  ultimately show ?thesis using assms(1) by (simp add: only_processes_def is_process_def)
qed (use assms in \<open>auto simp: oexec_def ostart_def omay_start_def only_processes_def is_process_def split: if_splits\<close>)

lemma fresh_not_reuses:
  assumes "only_processes s" and "takes_fresh s e"
  shows "\<not> reuses s e"
proof
  assume "reuses s e"
  then obtain p v x where r: "e = ORun p" "opcs s p = OSetStatus v" "in_sight s x"
    "tagged x p ((getSeqId (dsc s p) + 1) AND 0xF)" by (auto simp: reuses_def)
  have "x \<in> set (sees s)"
  proof -
    have "q \<in> set (oprocs s)" if "held (opcs s q) = Some x" for q
    proof -
      have "opcs s q \<noteq> OIdle" using that by auto
      then have "is_process (osh s) q" using assms(1) by (simp add: only_processes_def)
      then show ?thesis unfolding oprocs_def by (rule process_listed)
    qed
    then show ?thesis using r(3) by (force simp: sees_def in_sight_def List.map_filter_def)
  qed
  then show False using assms(2) r by (auto simp: takes_fresh_def list_all_iff tagged_def)
qed

lemma fresh_reach:
  assumes "oexec_fresh es s = Some s'" and "only_processes s" and "reach (ostarts v0) ostep s"
  shows "reach (ostarts v0) ostep s' \<and> only_processes s'"
  using assms
proof (induction es arbitrary: s)
  case (Cons e es)
  then obtain s1 where s1: "takes_fresh s e" "oexec e s = Some s1" "oexec_fresh es s1 = Some s'"
    by (auto split: if_splits simp: bind_eq_Some_conv)
  have "ostep s s1" using s1(2) fresh_not_reuses [OF Cons.prems(2) s1(1)] by (auto simp: ostep_def)
  then show ?case
    using Cons.IH [OF s1(3) only_processes_exec [OF Cons.prems(2) s1(2)]] reach_step [OF Cons.prems(3)] by blast
qed simp

section \<open>Sample runs\<close>

definition osample :: osys where
  "osample = \<lparr>osh = \<lparr>omem = (\<lambda>_. 5), onvm = (\<lambda>_. 5), odescs = new_OptmizedFASASDescriptor,
       ondescs = new_OptmizedFASASDescriptor, omax = 2\<rparr>, oaddr = 64, opcs = (\<lambda>_. OIdle), oresults = [],
     oaborted = None, olog = [], oeff = (\<lambda>_. None)\<rparr>"

lemma osample_starts: "ostarts 5 osample" "only_processes osample"
proof -
  have "isValidValue 5" by (simp add: isValidValue_def)
  then show "ostarts 5 osample" "only_processes osample"
    by (simp_all add: ostarts_def oinit_def osample_def only_processes_def)
qed

definition first_op :: "oevent list" where
  "first_op = OStart 1 5 7 FASASOp 128 # replicate 19 (ORun 1)"

text \<open>The first operation of process 1 is complete, the second one of process 2 has started.\<close>

theorem opt_fasas_atomic_witness:
  "\<exists>s s'. reach (ostarts 5) ostep s \<and> ostep s s' \<and> olog s = [(1, 5, 7)] \<and> oresults s = [(1, OProc True)] \<and>
     actual_value (oword s) = 7 \<and> oaborted s = None"
proof -
  have "case oexec_fresh first_op osample of None \<Rightarrow> False
     | Some s \<Rightarrow> olog s = [(1, 5, 7)] \<and> oresults s = [(1, OProc True)] \<and> opcs s 2 = OIdle \<and>
         omax (osh s) = 2 \<and> oaborted s = None"
    by code_simp
  then obtain s where s: "oexec_fresh first_op osample = Some s" "olog s = [(1, 5, 7)]" "oresults s = [(1, OProc True)]"
    "opcs s 2 = OIdle" "omax (osh s) = 2" "oaborted s = None"
    by (auto split: option.splits)
  have r: "reach (ostarts 5) ostep s"
    using fresh_reach [OF s(1) osample_starts(2) reach_init [of "ostarts 5", OF osample_starts(1)]] by simp
  obtain s' where "oexec (OStartRead 2) s = Some s'" using s by (simp add: oexec_def is_process_def)
  moreover have "\<not> reuses s (OStartRead 2)" by (simp add: reuses_def)
  ultimately have st: "ostep s s'" by (auto simp: ostep_def)
  show ?thesis using opt_fasas_atomic [OF r st] r st s(2,3) by (auto simp: ofinal_def)
qed


theorem opt_fasas_wait_free_witness:
  "\<exists>s'. oexec_all (replicate 19 (ORun 1)) (ostart osample 1 5 7 FASASOp 128) = Some s' \<and>
     count_list (replicate 19 (ORun 1)) (ORun 1) + orank (opcs s' 1) \<le> 27"
proof -
  have "case oexec_all (replicate 19 (ORun 1)) (ostart osample 1 5 7 FASASOp 128) of
      None \<Rightarrow> False | Some s \<Rightarrow> oaborted s = None" by code_simp
  then obtain s' where s: "oexec_all (replicate 19 (ORun 1)) (ostart osample 1 5 7 FASASOp 128) = Some s'" "oaborted s' = None"
    by (auto split: option.splits)
  have "list_all (\<lambda>e. \<not> starts 1 e) (replicate 19 (ORun 1))" by (simp add: starts_def list_all_iff)
  note wf = opt_fasas_wait_free [OF s this]
  have "count_list (replicate 19 (ORun 1)) (ORun 1) + orank (opcs s' 1) \<le> 27"
    by (rule le_trans [OF conjunct1 [OF wf] conjunct1 [OF conjunct2 [OF wf]]])
  then show ?thesis using s(1) by blast
qed

section \<open>A torn descriptor\<close>

text \<open>
  C25: Between the store of the new value and the store of the status the descriptor describes no operation. When the
  cache line is written back in this window and the shared word still has the value of the previous operation of the same process, the check
  of recovery compares that value with the new one and stops: after a completed
  operation 5 to 7, the first stores of an operation 7 to 9 of the same process, an eviction and a crash, the pool
  cannot be opened.
\<close>

theorem opt_fasas_torn_descriptor:
  "\<exists>s. reach (ostarts 5) ostep s \<and> oresults s = [(1, OProc True)] \<and> actual_value (onword s) = 7 \<and>
     recoverDescriptor (durable_descs s) (onvm (osh s)) = Inl ''value not match''"
proof -
  let ?es = "first_op @ OStart 1 7 9 FASASOp 128 # replicate 5 (ORun 1) @ [OEvictDesc 1]"
  have "case oexec_fresh ?es osample of None \<Rightarrow> False
     | Some s \<Rightarrow> oresults s = [(1, OProc True)] \<and> actual_value (onword s) = 7 \<and>
         recoverDescriptor (durable_descs s) (onvm (osh s)) = Inl ''value not match''"
    by code_simp
  then obtain s where "oexec_fresh ?es osample = Some s" "oresults s = [(1, OProc True)]" "actual_value (onword s) = 7"
    "recoverDescriptor (durable_descs s) (onvm (osh s)) = Inl ''value not match''"
    by (auto split: option.splits)
  then show ?thesis
    using fresh_reach [OF _ osample_starts(2) reach_init [of "ostarts 5", OF osample_starts(1)]] by blast
qed

end
