(* ===== verification/Ofasas_Pool.thy ===== *)
theory Ofasas_Pool
  imports Ofasas
begin

text \<open>
  The pool of the second form of the fetch-and-store-and-store operation: every process has its own
  descriptor for every shared word, and \<open>getDescriptor\<close> finds it.
\<close>

lemma unat_ucast_up: "unat (ucast (x :: u16) :: u32) = unat x"
  using less_trans [OF unsigned_less [of x], of "2 ^ 32"]
  by (simp add: unsigned_ucast_eq take_bit_nat_eq_self_iff)

text \<open>The next process number.\<close>

lemma next_process:
  assumes "unat x < unat maxn" and "unat maxn < 65536"
  shows "unat (ucast ((ucast (x :: u16) + 1) mod maxn :: u32) :: u16) = (unat x + 1) mod unat maxn"
proof -
  have "unat (ucast x + 1 :: u32) = unat x + 1"
    using assms by (simp add: unat_word_ariths unat_ucast_up)
  then have m: "unat ((ucast x + 1) mod maxn :: u32) = (unat x + 1) mod unat maxn"
    by (simp add: unat_mod_distrib)
  moreover have "(unat x + 1) mod unat maxn < 65536" using assms by (metis less_trans mod_less_divisor not_less_zero gr0I)
  ultimately show ?thesis by (simp add: unsigned_ucast_eq take_bit_nat_eq_self_iff)
qed

lemma created_length [simp]: "length (createNewDescriptor maxn n x) = n"
  by (induction n arbitrary: x) auto

lemma created_nth:
  assumes "unat x < unat maxn" and "unat maxn < 65536" and "i < n"
  shows "unat (o_pid (createNewDescriptor maxn n x ! i)) = (unat x + i) mod unat maxn + 1"
  using assms(1,3)
proof (induction n arbitrary: x i)
  case (Suc n)
  show ?case
  proof (cases i)
    case 0
    have "unat (x + 1) = unat x + 1" using Suc.prems(1) assms(2) by (simp add: unat_word_ariths)
    then show ?thesis using 0 Suc.prems(1) by (simp add: new_OptmizedFASASDescriptor_def)
  next
    case (Suc j)
    let ?y = "ucast ((ucast x + 1) mod maxn :: u32) :: u16"
    have y: "unat ?y = (unat x + 1) mod unat maxn" by (rule next_process [OF Suc.prems(1) assms(2)])
    then have "unat ?y < unat maxn" using Suc.prems(1) by simp
    from Suc.IH [OF this, of j] show ?thesis using Suc.prems(2) Suc y by (simp add: mod_add_left_eq)
  qed
qed simp

text \<open>
  C29: In a pool created on an empty area for \<open>maximumThreadNum_\<close> processes and \<open>locs\<close> shared words, \<open>getDescriptor\<close> returns for
  every process and every word the descriptor at \<open>maximumThreadNum_ * locationId + processId\<close>, which carries the number of the process
  plus one; no two pairs share a descriptor. A word behind the last one gives the null pointer as
  long as the 32 bit product does not wrap, and a process number out of range stops the process.
\<close>

theorem opt_pool_lookup:
  assumes "o_op (ds ! 0) = 0" and "descPtr \<noteq> 0" and "0 < maxn" and "unat maxn < 65536" and "unat sz = unat maxn * locs"
  shows "\<exists>po. new_OptmizedFASASDescriptorPool sz maxn descPtr (descPtr - 64) (ucast sz) ds m = Inr (po, m) \<and>
    (\<forall>pid loc. unat pid < unat maxn \<longrightarrow> unat loc < locs \<longrightarrow>
       getDescriptor po pid loc = Inr (Some (unat maxn * unat loc + unat pid)) \<and>
       unat maxn * unat loc + unat pid < length (descriptors po) \<and>
       unat (o_pid (descriptors po ! (unat maxn * unat loc + unat pid))) = unat pid + 1) \<and>
    (\<forall>pid loc pid' loc'. unat pid < unat maxn \<longrightarrow> unat loc < locs \<longrightarrow> unat pid' < unat maxn \<longrightarrow> unat loc' < locs \<longrightarrow>
       getDescriptor po pid loc = getDescriptor po pid' loc' \<longrightarrow> pid = pid' \<and> loc = loc') \<and>
    (\<forall>pid loc. unat pid < unat maxn \<longrightarrow> locs \<le> unat loc \<longrightarrow> unat maxn * unat loc + unat pid < 2 ^ 32 \<longrightarrow>
       getDescriptor po pid loc = Inr None) \<and>
    (\<forall>pid loc. unat maxn \<le> unat pid \<longrightarrow> getDescriptor po pid loc = Inl ''processId not right '')"
proof -
  let ?po = "\<lparr>poolSize = sz, maximumThreadNum = maxn, descriptors = createNewDescriptor maxn (unat sz) 0\<rparr>"
  have new: "new_OptmizedFASASDescriptorPool sz maxn descPtr (descPtr - 64) (ucast sz) ds m = Inr (?po, m)"
    using assms(1-3) by (auto simp: new_OptmizedFASASDescriptorPool_def)
  have small: "ucast (pid :: u16) < maxn \<longleftrightarrow> unat pid < unat maxn" for pid
    by (simp add: word_less_nat_alt unat_ucast_up)
  have off: "unat (maxn * loc + ucast pid) = unat maxn * unat loc + unat pid"
    if "unat maxn * unat loc + unat pid < 2 ^ 32" for loc and pid :: u16
    using that by (simp add: unat_word_ariths unat_ucast_up)
  have bound: "unat maxn * unat loc + unat pid < unat sz" if "unat pid < unat maxn" "unat loc < locs" for pid :: u16 and loc :: u32
  proof -
    have "unat maxn * unat loc + unat pid < unat maxn * (unat loc + 1)" using that(1) by simp
    also have "\<dots> \<le> unat maxn * locs" using that(2) by (intro mult_le_mono2) simp
    finally show ?thesis using assms(5) by simp
  qed
  have szl: "unat sz < 2 ^ 32" using unsigned_less [of sz] by simp
  have pidn: "unat (o_pid (descriptors ?po ! (unat maxn * unat loc + unat pid))) = unat pid + 1"
    if "unat pid < unat maxn" "unat loc < locs" for pid :: u16 and loc :: u32
    using created_nth [of 0 maxn "unat maxn * unat loc + unat pid" "unat sz"] bound [OF that] assms(3,4) that(1)
    by (simp add: word_less_nat_alt)
  have found: "getDescriptor ?po pid loc = Inr (Some (unat maxn * unat loc + unat pid))"
    if "unat pid < unat maxn" "unat loc < locs" for pid loc
  proof -
    have o: "unat (maxn * loc + ucast pid) = unat maxn * unat loc + unat pid"
      by (rule off) (use bound [OF that] szl in simp)
    then have "\<not> sz \<le> maxn * loc + ucast pid" using bound [OF that] by (simp add: word_le_nat_alt)
    then show ?thesis using pidn [OF that] o small [of pid] that(1) by (simp add: getDescriptor_def Let_def)
  qed
  have inj: "pid = pid' \<and> loc = loc'"
    if "unat pid < unat maxn" "unat loc < locs" "unat pid' < unat maxn" "unat loc' < locs"
      "getDescriptor ?po pid loc = getDescriptor ?po pid' loc'" for pid pid' loc loc'
  proof -
    have e: "unat maxn * unat loc + unat pid = unat maxn * unat loc' + unat pid'"
      using found [OF that(1,2)] found [OF that(3,4)] that(5) by simp
    then have "(unat maxn * unat loc + unat pid) mod unat maxn = (unat maxn * unat loc' + unat pid') mod unat maxn"
      "(unat maxn * unat loc + unat pid) div unat maxn = (unat maxn * unat loc' + unat pid') div unat maxn" by simp_all
    then have "unat pid = unat pid'" "unat loc = unat loc'" using that(1,3) by simp_all
    then show ?thesis by (simp add: word_unat_eq_iff)
  qed
  have out: "getDescriptor ?po pid loc = Inr None"
    if "unat pid < unat maxn" "locs \<le> unat loc" "unat maxn * unat loc + unat pid < 2 ^ 32" for pid loc
  proof -
    have "unat sz \<le> unat maxn * unat loc + unat pid" unfolding assms(5)
      by (rule trans_le_add1) (rule mult_le_mono2 [OF that(2)])
    then have "sz \<le> maxn * loc + ucast pid" using off [OF that(3)] by (simp add: word_le_nat_alt)
    then show ?thesis using small [of pid] that(1) by (simp add: getDescriptor_def Let_def)
  qed
  have wrong: "getDescriptor ?po pid loc = Inl ''processId not right ''" if "unat maxn \<le> unat pid" for pid loc
    using small [of pid] that by (simp add: getDescriptor_def)
  show ?thesis
    by (rule exI [of _ ?po]) (use new found inj out wrong bound pidn in auto)
qed

text \<open>Two processes and three words.\<close>

theorem opt_pool_lookup_witness:
  "\<exists>po. new_OptmizedFASASDescriptorPool 6 2 4096 4032 6 [(new_OptmizedFASASDescriptor 0)\<lparr>o_op := 0\<rparr>] (\<lambda>_. 0) = Inr (po, \<lambda>_. 0) \<and>
     getDescriptor po 1 2 = Inr (Some 5) \<and> getDescriptor po 1 3 = Inr None"
proof -
  have u: "unat (2 :: u32) = 2" "unat (6 :: u32) = 6" "unat (3 :: u32) = 3" "unat (1 :: u16) = 1" by simp_all
  show ?thesis
    using opt_pool_lookup [of "[(new_OptmizedFASASDescriptor 0)\<lparr>o_op := 0\<rparr>]" 4096 2 6 3 "\<lambda>_. 0"] u by auto
qed

end
