(* ===== verification/Tls_Allocator.thy ===== *)
theory Tls_Allocator
  imports Pmwcas_Prelude
begin

text \<open>
  \<open>TlsAllocator\<close> (\<open>src/src/environment/environment_linux.h\<close>), the allocator of the Linux build: memory is cut
  from slabs that a thread takes from the region of a NUMA node and is kept in lists per thread and
  size when it is freed. Addresses are 64 bit words; the headers in front of the blocks are a map from
  addresses. What the operating system answers (the regions and the node of the present core) is
  a parameter.
\<close>

section \<open>Data\<close>

definition kSlabSize :: u64 where "kSlabSize = 64 * 1024 * 1024"
definition kNumaMemorySize :: u64 where "kNumaMemorySize = 10000 * (1024 * 1024)"

record header =
  h_size :: u64
  h_next :: u64

definition sizeof_header :: u64 where "sizeof_header = 64"

definition GetData :: "u64 \<Rightarrow> u64" where "GetData h = h + sizeof_header"

definition ExtractHeader :: "u64 \<Rightarrow> u64" where "ExtractHeader p = p - sizeof_header"

record block_list =
  bl_head :: u64
  bl_tail :: u64

record slab =
  sl_allocated :: u64
  sl_memory :: u64

definition new_Slab :: slab where "new_Slab = \<lparr>sl_allocated = 0, sl_memory = 0\<rparr>"

text \<open>
  The allocator: the region of each node and how much of it is taken, the headers, and the two
  thread-local variables as functions of the thread.
\<close>

record alloc =
  numa_memory :: "nat \<Rightarrow> u64"
  numa_allocated :: "nat \<Rightarrow> u64"
  headers :: "u64 \<Rightarrow> header"
  tls_map :: "nat \<Rightarrow> u64 \<Rightarrow> block_list option"
  slabs :: "nat \<Rightarrow> slab"

definition new_TlsAllocator :: "(nat \<Rightarrow> u64) \<Rightarrow> (u64 \<Rightarrow> header) \<Rightarrow> alloc" where
  "new_TlsAllocator regions hs = \<lparr>numa_memory = regions, numa_allocated = (\<lambda>_. 0), headers = hs,
     tls_map = (\<lambda>_ _. None), slabs = (\<lambda>_. new_Slab)\<rparr>"

text \<open>The constructor maps a region for each of the nodes 0 to \<open>numa_max_node()\<close>; the destructor gives these back.\<close>

definition destroy_TlsAllocator :: "nat \<Rightarrow> alloc \<Rightarrow> u64 list" where
  "destroy_TlsAllocator numa_max_node a = map (numa_memory a) [0 ..< numa_max_node]"

lemma destroy_forgets_last_region:
  "map (numa_memory a) [0 ..< numa_max_node + 1] = destroy_TlsAllocator numa_max_node a @ [numa_memory a numa_max_node]"
  by (simp add: destroy_TlsAllocator_def)

section \<open>Block lists\<close>

definition BlockList_Get :: "(u64 \<Rightarrow> header) \<Rightarrow> block_list \<Rightarrow> u64 \<times> block_list" where
  "BlockList_Get hs bl =
     (if bl_head bl \<noteq> 0 then
        (GetData (bl_head bl),
         if bl_head bl = bl_tail bl then \<lparr>bl_head = 0, bl_tail = 0\<rparr>
         else bl\<lparr>bl_head := h_next (hs (bl_head bl))\<rparr>)
      else (0, bl))"

definition BlockList_Put :: "(u64 \<Rightarrow> header) \<Rightarrow> block_list \<Rightarrow> u64 \<Rightarrow> (u64 \<Rightarrow> header) \<times> block_list" where
  "BlockList_Put hs bl h =
     (if bl_head bl = 0 then (hs, \<lparr>bl_head = h, bl_tail = h\<rparr>)
      else (let hs1 = hs(bl_tail bl := (hs (bl_tail bl))\<lparr>h_next := h\<rparr>) in
            (hs1(h := (hs1 h)\<lparr>h_next := 0\<rparr>), bl\<lparr>bl_tail := h\<rparr>)))"

section \<open>Slabs\<close>

text \<open>
  \<open>Slab::Allocate\<close> of thread \<open>t\<close>. The list has the nodes that \<open>numa_node_of_cpu\<close> answers in the rounds of the loop;
  \<open>None\<close> means that more rounds are needed.
\<close>

fun Slab_Allocate :: "nat list \<Rightarrow> nat \<Rightarrow> u64 \<Rightarrow> alloc \<Rightarrow> (u64 \<times> alloc) checked option" where
  "Slab_Allocate nodes t n a =
     (let sl = slabs a t in
      if sl_memory sl \<noteq> 0 \<and> sl_allocated sl + n \<le> kSlabSize
      then Some (Inr (sl_memory sl + sl_allocated sl,
             a\<lparr>slabs := (slabs a)(t := sl\<lparr>sl_allocated := sl_allocated sl + n\<rparr>)\<rparr>))
      else (case nodes of
              [] \<Rightarrow> None
            | node # rest \<Rightarrow>
                let off = numa_allocated a node;
                    a1 = a\<lparr>numa_allocated := (numa_allocated a)(node := off + kSlabSize),
                           slabs := (slabs a)(t := \<lparr>sl_allocated = 0, sl_memory = numa_memory a node + off\<rparr>)\<rparr>
                in if off \<ge> kNumaMemorySize then Some (Inl ''Not enough memory'')
                   else Slab_Allocate rest t n a1))"

declare Slab_Allocate.simps [simp del]

section \<open>Allocation and release\<close>

definition block_size :: "u64 \<Rightarrow> u64" where
  "block_size nSize = (nSize + sizeof_header + 64 - 1) div 64 * 64"

definition TlsAllocate :: "nat list \<Rightarrow> nat \<Rightarrow> u64 \<Rightarrow> alloc \<Rightarrow> (u64 \<times> alloc) checked option" where
  "TlsAllocate nodes t nSize a =
     (let n = block_size nSize; z = n - sizeof_header;
          (pBytes, a1) = (case tls_map a t z of
             None \<Rightarrow> (0, a)
           | Some bl \<Rightarrow> (case BlockList_Get (headers a) bl of
               (p, bl') \<Rightarrow> (p, a\<lparr>tls_map := (tls_map a)(t := (tls_map a t)(z \<mapsto> bl'))\<rparr>)))
      in if pBytes \<noteq> 0 then Some (Inr (pBytes, a1))
         else map_option (\<lambda>r. bind_checked r (\<lambda>(p, a2).
                if p \<noteq> 0 then Inr (p + sizeof_header, a2\<lparr>headers := (headers a2)(p := \<lparr>h_size = z, h_next = 0\<rparr>)\<rparr>)
                else Inr (0, a2)))
              (Slab_Allocate nodes t n a1))"

definition Allocate :: "nat list \<Rightarrow> nat \<Rightarrow> u64 \<Rightarrow> alloc \<Rightarrow> (u64 \<times> alloc) checked option" where
  "Allocate nodes t nSize a = TlsAllocate nodes t nSize a"

definition Free :: "nat \<Rightarrow> u64 \<Rightarrow> alloc \<Rightarrow> alloc" where
  "Free t pBytes a =
     (let h = ExtractHeader pBytes; hs = (headers a)(h := (headers a h)\<lparr>h_next := 0\<rparr>); z = h_size (hs h) in
      case tls_map a t z of
        None \<Rightarrow> a\<lparr>headers := hs, tls_map := (tls_map a)(t := (tls_map a t)(z \<mapsto> \<lparr>bl_head = h, bl_tail = h\<rparr>))\<rparr>
      | Some bl \<Rightarrow> (case BlockList_Put hs bl h of
          (hs', bl') \<Rightarrow> a\<lparr>headers := hs', tls_map := (tls_map a)(t := (tls_map a t)(z \<mapsto> bl'))\<rparr>))"

definition AllocateAligned :: "nat list \<Rightarrow> nat \<Rightarrow> u64 \<Rightarrow> u32 \<Rightarrow> alloc \<Rightarrow> (u64 \<times> alloc) checked option" where
  "AllocateAligned nodes t nSize nAlignment a =
     (if nAlignment = 64 then Allocate nodes t nSize a else Some (Inl ''unsupported alignment.''))"

definition FreeAligned :: "nat \<Rightarrow> u64 \<Rightarrow> alloc \<Rightarrow> alloc" where
  "FreeAligned t pBytes a = Free t pBytes a"

section \<open>A block list is a queue\<close>

text \<open>The blocks of a list from its head to its tail.\<close>

fun chain :: "(u64 \<Rightarrow> header) \<Rightarrow> u64 \<Rightarrow> u64 list \<Rightarrow> bool" where
  "chain hs p [] = False"
| "chain hs p [x] \<longleftrightarrow> p = x"
| "chain hs p (x # y # ys) \<longleftrightarrow> p = x \<and> chain hs (h_next (hs x)) (y # ys)"

definition holds :: "(u64 \<Rightarrow> header) \<Rightarrow> block_list \<Rightarrow> u64 list \<Rightarrow> bool" where
  "holds hs bl xs \<longleftrightarrow> (if xs = [] then bl_head bl = 0 else chain hs (bl_head bl) xs \<and> bl_tail bl = last xs) \<and>
     0 \<notin> set xs \<and> distinct xs"

locale fifo =
  fixes stored :: "'s \<Rightarrow> 'q \<Rightarrow> 'a list \<Rightarrow> bool" and get :: "'s \<Rightarrow> 'q \<Rightarrow> 'a option \<times> 'q" and put :: "'s \<Rightarrow> 'q \<Rightarrow> 'a \<Rightarrow> 's \<times> 'q"
    and fit :: "'a \<Rightarrow> bool"
  assumes get_empty: "stored s q [] \<Longrightarrow> get s q = (None, q)"
    and get_first: "stored s q (x # xs) \<Longrightarrow> \<exists>q'. get s q = (Some x, q') \<and> stored s q' xs"
    and put_last: "stored s q xs \<Longrightarrow> fit x \<Longrightarrow> x \<notin> set xs \<Longrightarrow> put s q x = (s', q') \<Longrightarrow> stored s' q' (xs @ [x])"
begin

text \<open>What is put first comes out first.\<close>

lemma put_get:
  assumes "stored s q xs" and "fit x" and "x \<notin> set xs" and "put s q x = (s', q')"
  shows "\<exists>y q''. get s' q' = (Some y, q'') \<and> stored s' q'' (tl (xs @ [x])) \<and> y = hd (xs @ [x])"
proof -
  have "stored s' q' (hd (xs @ [x]) # tl (xs @ [x]))" using put_last [OF assms] by simp
  then show ?thesis using get_first by blast
qed

end

lemma chain_frame: "(\<And>x. x \<in> set (butlast xs) \<Longrightarrow> h_next (hs' x) = h_next (hs x)) \<Longrightarrow> chain hs p xs \<Longrightarrow> chain hs' p xs"
  by (induction hs p xs rule: chain.induct) auto

lemma chain_snoc:
  assumes "chain hs p xs" and "distinct (xs @ [y])" and "h_next (hs' (last xs)) = y"
    and "\<And>x. x \<in> set (butlast xs) \<Longrightarrow> h_next (hs' x) = h_next (hs x)"
  shows "chain hs' p (xs @ [y])"
  using assms by (induction hs p xs rule: chain.induct) auto

lemma chain_head: "chain hs p xs \<Longrightarrow> p = hd xs \<and> xs \<noteq> []"
  by (cases "(hs, p, xs)" rule: chain.cases) auto

lemma holds_empty: "holds hs bl [] \<longleftrightarrow> bl_head bl = 0"
  by (simp add: holds_def)

lemma holds_get:
  assumes "holds hs bl (x # xs)"
  shows "\<exists>bl'. BlockList_Get hs bl = (GetData x, bl') \<and> holds hs bl' xs"
proof (cases xs)
  case Nil
  then show ?thesis using assms by (auto simp: holds_def BlockList_Get_def)
next
  case (Cons y ys)
  have c: "bl_head bl = x" "chain hs (h_next (hs x)) (y # ys)" "bl_tail bl = last (y # ys)" "x \<noteq> 0" "x \<notin> set (y # ys)"
    "distinct (y # ys)" "0 \<notin> set (y # ys)"
    using assms Cons by (auto simp: holds_def)
  have "last (y # ys) \<in> set (y # ys)" by (rule last_in_set) simp
  then have "bl_head bl \<noteq> bl_tail bl" using c(1,3,5) by (simp only:) metis
  then show ?thesis using c Cons by (auto simp: BlockList_Get_def holds_def)
qed

lemma holds_put:
  assumes "holds hs bl xs" and "h \<noteq> 0" and "h \<notin> set xs" and "BlockList_Put hs bl h = (hs', bl')"
  shows "holds hs' bl' (xs @ [h])" and "\<And>x. h_size (hs' x) = h_size (hs x)"
    and "\<And>x. x \<notin> set xs \<Longrightarrow> x \<noteq> h \<Longrightarrow> hs' x = hs x"
proof -
  show "holds hs' bl' (xs @ [h])"
  proof (cases "xs = []")
    case True
    then show ?thesis using assms by (auto simp: holds_def BlockList_Put_def)
  next
    case False
    have c: "chain hs (bl_head bl) xs" "bl_tail bl = last xs" "distinct xs" "0 \<notin> set xs"
      using assms(1) False by (auto simp: holds_def)
    have hd0: "bl_head bl \<noteq> 0" using chain_head [OF c(1)] c(4) hd_in_set [of xs] by metis
    have l: "last xs \<noteq> h" "last xs \<in> set xs" using False assms(3) last_in_set by metis+
    have hs': "hs' = (hs(last xs := (hs (last xs))\<lparr>h_next := h\<rparr>))(h := (hs h)\<lparr>h_next := 0\<rparr>)" "bl' = bl\<lparr>bl_tail := h\<rparr>"
      using assms(4) hd0 c(2) l by (auto simp: BlockList_Put_def Let_def)
    have b: "x \<noteq> last xs" "x \<noteq> h" if "x \<in> set (butlast xs)" for x
      using that c(3) False assms(3) in_set_butlastD [OF that] by (auto, metis append_butlast_last_id distinct_butlast not_distinct_conv_prefix)
    have "chain hs' (bl_head bl) (xs @ [h])"
      by (rule chain_snoc [OF c(1)]) (use c(3) assms(3) hs' l b in auto)
    then show ?thesis using c assms(2,3) hs'(2) False by (simp add: holds_def)
  qed
  show "h_size (hs' x) = h_size (hs x)" for x
    using assms(4) by (auto simp: BlockList_Put_def Let_def split: if_splits)
  show "hs' x = hs x" if "x \<notin> set xs" "x \<noteq> h" for x
  proof -
    have "bl_head bl \<noteq> 0 \<Longrightarrow> bl_tail bl \<in> set xs"
      using assms(1) by (cases "xs = []") (auto simp: holds_def)
    then show ?thesis using assms(4) that by (auto simp: BlockList_Put_def Let_def split: if_splits)
  qed
qed

lemma holds_frame: "(\<And>x. x \<in> set xs \<Longrightarrow> hs' x = hs x) \<Longrightarrow> holds hs bl xs \<Longrightarrow> holds hs' bl xs"
  unfolding holds_def using chain_frame [of xs hs' hs] in_set_butlastD by (fastforce split: if_splits)

definition get_block :: "(u64 \<Rightarrow> header) \<Rightarrow> block_list \<Rightarrow> u64 option \<times> block_list" where
  "get_block hs bl = (case BlockList_Get hs bl of (p, bl') \<Rightarrow> (if bl_head bl = 0 then None else Some (ExtractHeader p), bl'))"

interpretation blq: fifo holds get_block BlockList_Put "\<lambda>h. h \<noteq> 0"
proof unfold_locales
  show "holds hs bl [] \<Longrightarrow> get_block hs bl = (None, bl)" for hs bl
    by (simp add: holds_empty get_block_def BlockList_Get_def)
  show "\<exists>bl'. get_block hs bl = (Some x, bl') \<and> holds hs bl' xs" if "holds hs bl (x # xs)" for hs bl x xs
  proof -
    have "bl_head bl = x" "x \<noteq> 0" using that chain_head [of hs "bl_head bl" "x # xs"] by (auto simp: holds_def)
    then show ?thesis using holds_get [OF that] by (auto simp: get_block_def ExtractHeader_def GetData_def)
  qed
  show "holds hs bl xs \<Longrightarrow> x \<noteq> 0 \<Longrightarrow> x \<notin> set xs \<Longrightarrow> BlockList_Put hs bl x = (hs', bl') \<Longrightarrow> holds hs' bl' (xs @ [x])"
    for hs bl xs x hs' bl' by (rule holds_put(1))
qed

end
