(* ===== verification/Allocator_Safety.thy ===== *)
theory Allocator_Safety
  imports Tls_Allocator
begin

text \<open>
  The blocks of \<open>TlsAllocator\<close> (\<open>src/src/environment/environment_linux.h\<close>) as the threads of a program allocate and
  free them: blocks in use never overlap and are aligned as long as the regions of the nodes have room
  for a whole number of slabs, released memory is served again without touching a slab, and two regions
  mapped one right after the other do give overlapping blocks, because the check on the end of a region lets a last slab
  reach 48 megabytes past it.
\<close>

section \<open>Space\<close>

text \<open>
  The addresses a slab has left and those a region has left. The check in \<open>Slab::Allocate\<close> lets a region be cut into 157
  slabs, 48 megabytes more than are mapped.
\<close>

abbreviation slab_bytes :: nat where "slab_bytes \<equiv> 67108864"

definition rest :: "alloc \<Rightarrow> nat \<Rightarrow> nat set" where
  "rest a t = (let sl = slabs a t in if sl_memory sl = 0 then {}
     else {unat (sl_memory sl) + unat (sl_allocated sl) ..< unat (sl_memory sl) + slab_bytes})"

definition untaken :: "alloc \<Rightarrow> nat \<Rightarrow> nat set" where
  "untaken a n = {unat (numa_memory a n) + unat (numa_allocated a n) ..< unat (numa_memory a n) + 157 * slab_bytes}"

definition slab_ok :: "slab \<Rightarrow> bool" where
  "slab_ok sl \<longleftrightarrow> sl_memory sl = 0 \<or> unat (sl_memory sl) + slab_bytes < 2 ^ 64 \<and> unat (sl_allocated sl) \<le> slab_bytes \<and>
     64 dvd unat (sl_memory sl) \<and> 64 dvd unat (sl_allocated sl)"

definition node_ok :: "alloc \<Rightarrow> nat \<Rightarrow> bool" where
  "node_ok a n \<longleftrightarrow> 0 < unat (numa_memory a n) \<and> 64 dvd unat (numa_memory a n) \<and>
     unat (numa_memory a n) + 157 * slab_bytes < 2 ^ 64 \<and>
     (\<exists>k \<le> 157. unat (numa_allocated a n) = k * slab_bytes)"

text \<open>\<open>X\<close> are the addresses of the blocks that were cut off.\<close>

definition space :: "nat \<Rightarrow> alloc \<Rightarrow> nat set \<Rightarrow> bool" where
  "space N a X \<longleftrightarrow> (\<forall>t. slab_ok (slabs a t) \<and> X \<inter> rest a t = {}) \<and> (\<forall>n < N. node_ok a n \<and> X \<inter> untaken a n = {}) \<and>
     (\<forall>t u. t \<noteq> u \<longrightarrow> rest a t \<inter> rest a u = {}) \<and> (\<forall>t. \<forall>n < N. rest a t \<inter> untaken a n = {}) \<and>
     (\<forall>n < N. \<forall>m < N. n \<noteq> m \<longrightarrow> untaken a n \<inter> untaken a m = {})"

lemma spaceD:
  assumes "space N a X"
  shows "slab_ok (slabs a t)" "X \<inter> rest a t = {}" "n < N \<Longrightarrow> node_ok a n" "n < N \<Longrightarrow> X \<inter> untaken a n = {}"
    "t \<noteq> u \<Longrightarrow> rest a t \<inter> rest a u = {}" "n < N \<Longrightarrow> rest a t \<inter> untaken a n = {}"
    "n < N \<Longrightarrow> m < N \<Longrightarrow> n \<noteq> m \<Longrightarrow> untaken a n \<inter> untaken a m = {}"
  using assms by (simp_all add: space_def)

lemma cut:
  assumes sp: "space N a X" and n: "unat n \<le> slab_bytes" "64 dvd unat n"
    and c: "sl_memory (slabs a t) \<noteq> 0" "sl_allocated (slabs a t) + n \<le> kSlabSize"
    and p: "p = sl_memory (slabs a t) + sl_allocated (slabs a t)"
    and a': "a' = a\<lparr>slabs := (slabs a)(t := (slabs a t)\<lparr>sl_allocated := sl_allocated (slabs a t) + n\<rparr>)\<rparr>"
  shows "space N a' (X \<union> {unat p ..< unat p + unat n})" and "X \<inter> {unat p ..< unat p + unat n} = {}"
    and "0 < unat p" "64 dvd unat p" "unat p + unat n < 2 ^ 64"
proof -
  let ?m = "unat (sl_memory (slabs a t))" and ?l = "unat (sl_allocated (slabs a t))"
  have ok: "?m + slab_bytes < 2 ^ 64" "?l \<le> slab_bytes" "64 dvd ?m" "64 dvd ?l" "0 < ?m"
    using spaceD(1) [OF sp, of t] c(1) by (auto simp: slab_ok_def unat_gt_0)
  have l: "unat (sl_allocated (slabs a t) + n) = ?l + unat n" 
  proof -
    have "?l + unat n < 2 ^ 64" using ok(2) n(1) by simp
    then show ?thesis using unat_add_lem by fastforce
  qed
  then have le: "?l + unat n \<le> slab_bytes" using c(2) by (simp add: word_le_nat_alt kSlabSize_def)
  have up: "unat p = ?m + ?l" 
  proof -
    have "?m + ?l < 2 ^ 64" using ok(1,2) by simp
    then show ?thesis unfolding p using unat_add_lem by fastforce
  qed
  let ?new = "{unat p ..< unat p + unat n}"
  have R: "rest a t = {?m + ?l ..< ?m + slab_bytes}" "rest a' t = {?m + ?l + unat n ..< ?m + slab_bytes}"
    using c(1) l unfolding a' by (simp_all add: rest_def Let_def add.assoc)
  have r: "rest a t = ?new \<union> rest a' t" "?new \<inter> rest a' t = {}" "u \<noteq> t \<Longrightarrow> rest a' u = rest a u" for u
    unfolding R up using le by (auto simp: a' rest_def)
  have f: "untaken a' = untaken a" "node_ok a' = node_ok a" 
    unfolding a' by (simp_all add: fun_eq_iff untaken_def node_ok_def)
  have X: "X \<inter> rest a u = {}" "u \<noteq> v \<Longrightarrow> rest a u \<inter> rest a v = {}" "k < N \<Longrightarrow> rest a u \<inter> untaken a k = {}" for u v k
    using spaceD [OF sp] by simp_all
  show "X \<inter> ?new = {}" using X(1) [of t] r(1) by blast
  show "0 < unat p" using ok(5) up by linarith
  show "64 dvd unat p" unfolding up by (rule dvd_add [OF ok(3,4)])
  show "unat p + unat n < 2 ^ 64" using up ok(1) le by linarith
  have sub: "rest a' u \<subseteq> rest a u" for u using r by (cases "u = t") auto
  have s1: "slab_ok (slabs a' u)" for u
  proof (cases "u = t")
    case True
    have "64 dvd ?l + unat n" by (rule dvd_add [OF ok(4) n(2)])
    moreover have f: "sl_memory (slabs a' u) = sl_memory (slabs a t)" "sl_allocated (slabs a' u) = sl_allocated (slabs a t) + n"
      using True unfolding a' by simp_all
    ultimately show ?thesis unfolding slab_ok_def f l using ok(1,3) le by blast
  next
    case False
    then show ?thesis using sp unfolding a' space_def by simp
  qed
  have s2: "(X \<union> ?new) \<inter> rest a' u = {}" for u
  proof (cases "u = t")
    case True
    then show ?thesis using X(1) [of t] r(1,2) by blast
  next
    case False
    then show ?thesis using X(1) [of u] X(2) [of u t] r(1,3) by blast
  qed
  have s3: "(X \<union> ?new) \<inter> untaken a' k = {}" if "k < N" for k
    using spaceD(4) [OF sp that] X(3) [OF that, of t] r(1) unfolding f by blast
  have s4: "rest a' u \<inter> rest a' v = {}" if "u \<noteq> v" for u v using X(2) [OF that] sub by blast
  have s5: "rest a' u \<inter> untaken a' k = {}" if "k < N" for u k
    unfolding f using X(3) [OF that, of u] sub [of u] by blast
  show "space N a' (X \<union> ?new)"
    using s1 s2 s3 s4 s5 spaceD(3,7) [OF sp] unfolding space_def f by simp
qed

lemma refill:
  assumes sp: "space N a X" and k: "node < N" and off: "\<not> kNumaMemorySize \<le> numa_allocated a node"
    and a': "a' = a\<lparr>numa_allocated := (numa_allocated a)(node := numa_allocated a node + kSlabSize),
      slabs := (slabs a)(t := \<lparr>sl_allocated = 0, sl_memory = numa_memory a node + numa_allocated a node\<rparr>)\<rparr>"
  shows "space N a' X"
proof -
  let ?b = "unat (numa_memory a node)" and ?o = "unat (numa_allocated a node)"
  have ok: "0 < ?b" "64 dvd ?b" "?b + 157 * slab_bytes < 2 ^ 64" using sp k by (auto simp: space_def node_ok_def)
  obtain j where j: "?o = j * slab_bytes" "j \<le> 157" using sp k by (auto simp: space_def node_ok_def)
  have "?o < 10485760000" using off by (simp add: word_le_nat_alt kNumaMemorySize_def)
  then have j': "j \<le> 156" using j by simp
  have o': "unat (numa_allocated a node + kSlabSize) = ?o + slab_bytes"
  proof -
    have "?o + unat kSlabSize < 2 ^ 64" using j j' by (simp add: kSlabSize_def)
    then have "unat (numa_allocated a node + kSlabSize) = ?o + unat kSlabSize" using unat_add_lem by fastforce
    then show ?thesis by (simp add: kSlabSize_def)
  qed
  have m: "unat (numa_memory a node + numa_allocated a node) = ?b + ?o"
  proof -
    have "?b + ?o < 2 ^ 64" using ok(3) j j' by simp
    then show ?thesis using unat_add_lem by fastforce
  qed
  have nz: "numa_memory a node + numa_allocated a node \<noteq> 0"
  proof
    assume "numa_memory a node + numa_allocated a node = 0"
    then show False using m ok(1) by simp
  qed
  have R: "untaken a node = {?b + ?o ..< ?b + 157 * slab_bytes}" "rest a' t = {?b + ?o ..< ?b + ?o + slab_bytes}"
    "untaken a' node = {?b + (?o + slab_bytes) ..< ?b + 157 * slab_bytes}"
    using o' m nz unfolding a' by (simp_all add: rest_def untaken_def Let_def)
  have le: "?o + slab_bytes \<le> 157 * slab_bytes" using j j' by simp
  have r: "untaken a node = rest a' t \<union> untaken a' node" "rest a' t \<inter> untaken a' node = {}"
    "u \<noteq> t \<Longrightarrow> rest a' u = rest a u" "n \<noteq> node \<Longrightarrow> untaken a' n = untaken a n" for u n
    unfolding R using le by (auto simp: a' rest_def untaken_def)
  have X: "X \<inter> rest a u = {}" "n < N \<Longrightarrow> X \<inter> untaken a n = {}" "u \<noteq> v \<Longrightarrow> rest a u \<inter> rest a v = {}"
    "n < N \<Longrightarrow> rest a u \<inter> untaken a n = {}" "n < N \<Longrightarrow> m < N \<Longrightarrow> n \<noteq> m \<Longrightarrow> untaken a n \<inter> untaken a m = {}" for u v n m
    using spaceD [OF sp] by simp_all
  have sub: "untaken a' n \<subseteq> untaken a n" for n using r by (cases "n = node") auto
  have s1: "slab_ok (slabs a' u)" for u
  proof (cases "u = t")
    case True
    have "64 dvd ?o" using j(1) by (simp add: dvd_mult)
    then show ?thesis using True ok le m unfolding a' by (simp add: slab_ok_def)
  next
    case False
    then show ?thesis using sp unfolding a' space_def by simp
  qed
  have s2: "X \<inter> rest a' u = {}" for u 
  proof (cases "u = t")
    case True
    then show ?thesis using X(2) [OF k] r(1) by blast
  next
    case False
    then show ?thesis using X(1) [of u] r(3) by simp
  qed
  have s3: "node_ok a' n" if "n < N" for n
  proof (cases "n = node")
    case True
    have "unat (numa_allocated a' node) = Suc j * slab_bytes" using a' o' j by simp
    then have "\<exists>k \<le> 157. unat (numa_allocated a' node) = k * slab_bytes" using j' by (intro exI [of _ "Suc j"]) simp
    then show ?thesis using True ok unfolding node_ok_def by (simp add: a')
  next
    case False
    then show ?thesis using sp that unfolding a' space_def node_ok_def by simp
  qed
  have s4: "X \<inter> untaken a' n = {}" if "n < N" for n using X(2) [OF that] sub by blast
  have s5: "rest a' u \<inter> rest a' v = {}" if "u \<noteq> v" for u v
  proof -
    have "rest a t \<inter> Y = {} \<Longrightarrow> untaken a node \<inter> Y = {} \<Longrightarrow> rest a' t \<inter> Y = {}" for Y using r(1) by blast
    then show ?thesis using X(3) [OF that] X(4) [OF k] r(3) [of u] r(3) [of v] that
      by (cases "u = t"; cases "v = t") (simp_all add: Int_commute)
  qed
  have s6: "rest a' u \<inter> untaken a' n = {}" if "n < N" for u n
  proof (cases "u = t")
    case True
    then show ?thesis using X(5) [OF k that] r(1,2) r(4) [of n] by (cases "n = node") (simp, blast)
  next
    case False
    then show ?thesis using X(4) [OF that, of u] r(3) sub [of n] by blast
  qed
  have s7: "untaken a' n \<inter> untaken a' m = {}" if "n < N" "m < N" "n \<noteq> m" for n m using X(5) [OF that] sub by blast
  show ?thesis using s1 s2 s3 s4 s5 s6 s7 unfolding space_def by simp
qed

lemma slab_allocate_ok:
  assumes "space N a X" and "unat n \<le> slab_bytes" "64 dvd unat n" and "list_all (\<lambda>k. k < N) nodes"
    and "Slab_Allocate nodes t n a = Some (Inr (p, a'))"
  shows "space N a' (X \<union> {unat p ..< unat p + unat n}) \<and> X \<inter> {unat p ..< unat p + unat n} = {} \<and>
    0 < unat p \<and> 64 dvd unat p \<and> unat p + unat n < 2 ^ 64 \<and> headers a' = headers a \<and> tls_map a' = tls_map a"
  using assms
proof (induction nodes t n a rule: Slab_Allocate.induct)
  case (1 nodes t n a)
  show ?case
  proof (cases "sl_memory (slabs a t) \<noteq> 0 \<and> sl_allocated (slabs a t) + n \<le> kSlabSize")
    case True
    then have p: "p = sl_memory (slabs a t) + sl_allocated (slabs a t)"
      "a' = a\<lparr>slabs := (slabs a)(t := (slabs a t)\<lparr>sl_allocated := sl_allocated (slabs a t) + n\<rparr>)\<rparr>"
      using 1(6) by (simp_all add: Slab_Allocate.simps Let_def)
    show ?thesis using cut [OF 1(2-4) _ _ p] True p(2) by simp
  next
    case False
    then obtain node rs where nodes: "nodes = node # rs" using 1(6) by (cases nodes) (auto simp: Slab_Allocate.simps Let_def)
    let ?a1 = "a\<lparr>numa_allocated := (numa_allocated a)(node := numa_allocated a node + kSlabSize),
      slabs := (slabs a)(t := \<lparr>sl_allocated = 0, sl_memory = numa_memory a node + numa_allocated a node\<rparr>)\<rparr>"
    have off: "\<not> kNumaMemorySize \<le> numa_allocated a node"
      and rec: "Slab_Allocate rs t n ?a1 = Some (Inr (p, a'))"
      using 1(6) False unfolding nodes Slab_Allocate.simps [of "node # rs"] by (auto simp: Let_def split: if_splits)
    have "space N ?a1 X" by (rule refill [OF 1(2) _ off refl]) (use 1(5) nodes in simp)
    from "1.IH" [OF refl False nodes refl refl off this 1(3,4) _ rec] show ?thesis using 1(5) nodes by simp
  qed
qed


section \<open>The blocks of the program\<close>

text \<open>
  Threads allocate and free in any order; an operation is one step, since a thread's slab and its lists are its own and
  the taken part of a region is advanced by one atomic addition. \<open>live\<close> has the blocks the program holds with the sizes it asked for.
\<close>

record asys =
  amem :: alloc
  live :: "u64 \<Rightarrow> u64 option"

inductive astep :: "nat \<Rightarrow> asys \<Rightarrow> asys \<Rightarrow> bool" for N where
  alloc: "Allocate nodes t n (amem s) = Some (Inr (p, a)) \<Longrightarrow> list_all (\<lambda>k. k < N) nodes \<Longrightarrow> unat n + 64 \<le> slab_bytes \<Longrightarrow>
    astep N s \<lparr>amem = a, live = (live s)(p \<mapsto> n)\<rparr>"
| free: "live s p = Some n \<Longrightarrow> astep N s \<lparr>amem = Free t p (amem s), live = (live s)(p := None)\<rparr>"

definition regions_ok :: "nat \<Rightarrow> (nat \<Rightarrow> u64) \<Rightarrow> bool" where
  "regions_ok N regions \<longleftrightarrow>
     (\<forall>n < N. 0 < unat (regions n) \<and> 64 dvd unat (regions n) \<and> unat (regions n) + 157 * slab_bytes < 2 ^ 64) \<and>
     (\<forall>n < N. \<forall>m < N. n \<noteq> m \<longrightarrow>
        {unat (regions n) ..< unat (regions n) + 157 * slab_bytes} \<inter> {unat (regions m) ..< unat (regions m) + 157 * slab_bytes} = {})"

definition extent :: "(u64 \<Rightarrow> header) \<Rightarrow> u64 \<Rightarrow> nat set" where
  "extent hs h = {unat h ..< unat h + 64 + unat (h_size (hs h))}"

definition arena :: "nat \<Rightarrow> alloc \<Rightarrow> u64 set \<Rightarrow> bool" where
  "arena N a B \<longleftrightarrow> space N a (\<Union>h \<in> B. extent (headers a) h) \<and>
     (\<forall>h \<in> B. 0 < unat h \<and> 64 dvd unat h \<and> unat h + 64 + unat (h_size (headers a h)) < 2 ^ 64) \<and>
     (\<forall>h \<in> B. \<forall>g \<in> B. h \<noteq> g \<longrightarrow> extent (headers a) h \<inter> extent (headers a) g = {})"

definition listed :: "(u64 \<Rightarrow> header) \<Rightarrow> block_list option \<Rightarrow> u64 list \<Rightarrow> bool" where
  "listed hs m xs = (case m of None \<Rightarrow> xs = [] | Some bl \<Rightarrow> holds hs bl xs)"

definition queued :: "alloc \<Rightarrow> (nat \<Rightarrow> u64 \<Rightarrow> u64 list) \<Rightarrow> bool" where
  "queued a Q \<longleftrightarrow> (\<forall>t z. listed (headers a) (tls_map a t z) (Q t z)) \<and>
     (\<forall>t z. \<forall>h \<in> set (Q t z). h_size (headers a h) = z) \<and>
     (\<forall>t u z w. (t, z) \<noteq> (u, w) \<longrightarrow> set (Q t z) \<inter> set (Q u w) = {})"

definition queue_blocks :: "(nat \<Rightarrow> u64 \<Rightarrow> u64 list) \<Rightarrow> u64 set" where
  "queue_blocks Q = (\<Union>t z. set (Q t z))"

definition live_ok :: "asys \<Rightarrow> (nat \<Rightarrow> u64 \<Rightarrow> u64 list) \<Rightarrow> bool" where
  "live_ok s Q \<longleftrightarrow> ExtractHeader ` dom (live s) \<inter> queue_blocks Q = {} \<and>
     (\<forall>p n. live s p = Some n \<longrightarrow> unat n + 64 \<le> slab_bytes \<and>
        h_size (headers (amem s) (ExtractHeader p)) = block_size n - sizeof_header)"

definition ainv :: "nat \<Rightarrow> asys \<Rightarrow> bool" where
  "ainv N s \<longleftrightarrow> (\<exists>Q. queued (amem s) Q \<and> live_ok s Q \<and> arena N (amem s) (ExtractHeader ` dom (live s) \<union> queue_blocks Q))"

lemma arena_cong: "(\<And>h. h_size (headers a' h) = h_size (headers a h)) \<Longrightarrow> slabs a' = slabs a \<Longrightarrow> numa_memory a' = numa_memory a \<Longrightarrow>
  numa_allocated a' = numa_allocated a \<Longrightarrow> arena N a' B = arena N a B"
  by (simp add: arena_def extent_def space_def rest_def untaken_def node_ok_def)

lemma arena_data:
  assumes "arena N a (L \<union> B)" and "h \<in> B"
  shows "GetData h \<noteq> 0"
proof -
  have "unat h + 64 + unat (h_size (headers a h)) < 2 ^ 64" using assms by (simp add: arena_def)
  then have "unat h + unat (64 :: u64) < 2 ^ 64" by simp
  then have "unat (GetData h) = unat h + 64" using unat_add_lem [of h 64] by (simp add: GetData_def sizeof_header_def)
  then show ?thesis by auto
qed

lemma arena_fresh:
  assumes "arena N a B" and "unat n \<le> slab_bytes" "64 dvd unat n" "64 \<le> unat n" and "list_all (\<lambda>k. k < N) nodes"
    and "Slab_Allocate nodes t n a = Some (Inr (p, a'))" and a'': "a'' = a'\<lparr>headers := (headers a')(p := \<lparr>h_size = n - sizeof_header, h_next = x\<rparr>)\<rparr>"
  shows "arena N a'' (insert p B)" "p \<notin> B" "tls_map a'' = tls_map a" "\<And>h. h \<noteq> p \<Longrightarrow> headers a'' h = headers a h"
proof -
  let ?X = "\<Union>h \<in> B. extent (headers a) h" and ?E = "{unat p ..< unat p + unat n}"
  have ok: "space N a' (?X \<union> ?E)" "?X \<inter> ?E = {}" "0 < unat p" "64 dvd unat p" "unat p + unat n < 2 ^ 64" "headers a' = headers a"
    "tls_map a' = tls_map a"
    using slab_allocate_ok [OF _ assms(2,3,5,6)] assms(1) unfolding arena_def by blast+
  have B: "0 < unat h" "64 dvd unat h" "unat h + 64 + unat (h_size (headers a h)) < 2 ^ 64" if "h \<in> B" for h
    using assms(1) that by (simp_all add: arena_def)
  have nB: "p \<notin> B"
  proof
    assume "p \<in> B"
    moreover have "unat p \<in> extent (headers a) p" "unat p \<in> ?E" using assms(4) by (simp_all add: extent_def)
    ultimately show False using ok(2) by blast
  qed
  have "unat (n - sizeof_header) = unat n - 64" using assms(4) by (simp add: sizeof_header_def unat_sub word_le_nat_alt)
  then have ep: "extent (headers a'') p = ?E" "unat p + 64 + unat (h_size (headers a'' p)) < 2 ^ 64"
    using assms(4) ok(5) by (simp_all add: extent_def a'')
  have e: "extent (headers a'') h = extent (headers a) h" "headers a'' h = headers a h" if "h \<in> B" for h
    using that nB ok(6) by (auto simp: extent_def a'')
  have X: "(\<Union>h \<in> insert p B. extent (headers a'') h) = ?X \<union> ?E" using e ep(1) by auto
  have sp: "space N a'' Y = space N a' Y" for Y by (simp add: a'' space_def rest_def untaken_def node_ok_def)
  have d: "extent (headers a'') h \<inter> extent (headers a'') g = {}" if "h \<in> insert p B" "g \<in> insert p B" "h \<noteq> g" for h g
  proof -
    have "h \<in> B \<Longrightarrow> extent (headers a) h \<inter> ?E = {}" "g \<in> B \<Longrightarrow> ?E \<inter> extent (headers a) g = {}" using ok(2) by blast+
    moreover have "h \<in> B \<Longrightarrow> g \<in> B \<Longrightarrow> extent (headers a) h \<inter> extent (headers a) g = {}"
      using assms(1) that(3) by (simp add: arena_def)
    ultimately show ?thesis using that ep(1) e(1) by (elim insertE) simp_all
  qed
  show "arena N a'' (insert p B)"
    unfolding arena_def X sp using ok(1,3,4) ep(2) B e(2) d by auto
  show "p \<notin> B" by (rule nB)
  show "tls_map a'' = tls_map a" using ok(7) by (simp add: a'')
  show "headers a'' h = headers a h" if "h \<noteq> p" for h using that ok(6) by (simp add: a'')
qed


section \<open>Every operation keeps the blocks apart\<close>

lemma block_size_ok:
  assumes "unat n + 64 \<le> slab_bytes"
  shows "unat (block_size n) \<le> slab_bytes" "64 dvd unat (block_size n)" "unat n + 64 \<le> unat (block_size n)"
    "unat (block_size n - sizeof_header) = unat (block_size n) - 64"
proof -
  let ?k = "(unat n + 127) div 64"
  have "unat (n + sizeof_header + 64 - 1) = unat (n + 127)" by (simp add: sizeof_header_def add.commute)
  also have "\<dots> = unat n + 127"
  proof -
    have "unat n + unat (127 :: u64) < 2 ^ 64" using assms by simp
    then show ?thesis using unat_add_lem [of n 127] by simp
  qed
  finally have s: "unat ((n + sizeof_header + 64 - 1) div 64) = ?k" by (simp add: unat_div)
  have b: "?k * 64 \<le> unat n + 127" "unat n + 64 \<le> ?k * 64" by linarith+
  have "?k * unat (64 :: u64) < 2 ^ 64" using b(1) assms by simp
  then have u: "unat (block_size n) = ?k * 64"
    unfolding block_size_def using s unat_mult_lem [of "(n + sizeof_header + 64 - 1) div 64" 64] by simp
  show "unat (block_size n) \<le> slab_bytes" 
  proof -
    have "?k \<le> 1048576" using assms by linarith
    then show ?thesis using u by linarith
  qed
  show "64 dvd unat (block_size n)" unfolding u by simp
  show le: "unat n + 64 \<le> unat (block_size n)" using u b(2) by simp
  show "unat (block_size n - sizeof_header) = unat (block_size n) - 64"
    using le by (simp add: sizeof_header_def unat_sub word_le_nat_alt)
qed

lemma queuedD:
  assumes "queued a Q"
  shows "listed (headers a) (tls_map a t z) (Q t z)"
    "h \<in> set (Q t z) \<Longrightarrow> h_size (headers a h) = z" "(t, z) \<noteq> (u, w) \<Longrightarrow> set (Q t z) \<inter> set (Q u w) = {}"
  using assms unfolding queued_def by blast+

lemma listed_frame: "(\<And>x. x \<in> set xs \<Longrightarrow> hs' x = hs x) \<Longrightarrow> listed hs m xs \<Longrightarrow> listed hs' m xs"
  unfolding listed_def using holds_frame [of xs hs' hs] by (simp split: option.splits)

lemma queued_frame:
  assumes "queued a Q" and "tls_map a' = tls_map a" and "\<And>h. h \<in> queue_blocks Q \<Longrightarrow> headers a' h = headers a h"
  shows "queued a' Q"
proof -
  have h: "headers a' h = headers a h" if "h \<in> set (Q t z)" for h t z using assms(3) that by (auto simp: queue_blocks_def)
  have "listed (headers a') (tls_map a' t z) (Q t z)" for t z
    unfolding assms(2) by (rule listed_frame [OF h queuedD(1) [OF assms(1)]])
  then show ?thesis using assms(1) h unfolding queued_def by metis
qed

lemma queue_blocks_insert:
  assumes "h \<in> set (Q t z)" and "\<And>u w. set (Q' u w) \<subseteq> set (Q u w)" and "\<And>u w. set (Q u w) \<subseteq> insert h (set (Q' u w))"
  shows "queue_blocks Q = insert h (queue_blocks Q')"
proof -
  have "(\<Union>u w. set (Q' u w)) \<subseteq> (\<Union>u w. set (Q u w))" by (intro UN_mono subset_refl assms(2))
  moreover have "set (Q u w) \<subseteq> insert h (\<Union>u w. set (Q' u w))" for u w using assms(3) [of u w] by auto
  then have "(\<Union>u w. set (Q u w)) \<subseteq> insert h (\<Union>u w. set (Q' u w))" by (intro UN_least)
  moreover have "h \<in> (\<Union>u w. set (Q u w))" using assms(1) by blast
  ultimately show ?thesis unfolding queue_blocks_def by (simp add: set_eq_subset)
qed

lemma queued_Get:
  assumes q: "queued a Q" and m: "tls_map a t z = Some bl" and g: "BlockList_Get (headers a) bl = (p, bl')" and p: "p \<noteq> 0"
  shows "\<exists>h Q'. p = GetData h \<and> h \<in> set (Q t z) \<and> queued (a\<lparr>tls_map := (tls_map a)(t := (tls_map a t)(z \<mapsto> bl'))\<rparr>) Q' \<and>
    queue_blocks Q = insert h (queue_blocks Q') \<and> h \<notin> queue_blocks Q'"
proof -
  have hl: "holds (headers a) bl (Q t z)" using queuedD(1) [OF q, of t z] m by (simp add: listed_def)
  have "Q t z \<noteq> []" using hl g p by (auto simp: holds_empty BlockList_Get_def)
  then obtain h xs where xs: "Q t z = h # xs" by (cases "Q t z") auto
  have h: "p = GetData h" "holds (headers a) bl' xs" using holds_get [of "headers a" bl h xs] hl g xs by auto
  let ?Q = "Q(t := (Q t)(z := xs))" and ?a = "a\<lparr>tls_map := (tls_map a)(t := (tls_map a t)(z \<mapsto> bl'))\<rparr>"
  have sub: "set (?Q u w) \<subseteq> set (Q u w)" for u w using xs by auto
  have "h \<notin> set xs" using hl xs by (auto simp: holds_def split: if_splits)
  then have nh: "h \<notin> set (?Q u w)" for u w using queuedD(3) [OF q, of t z u w] xs by (cases "(t, z) = (u, w)") auto
  have "queued ?a ?Q" unfolding queued_def
  proof (intro conjI allI impI ballI)
    show "listed (headers ?a) (tls_map ?a u w) (?Q u w)" for u w
      using queuedD(1) [OF q, of u w] h(2) by (cases "u = t"; cases "w = z") (simp_all add: listed_def)
    show "h_size (headers ?a x) = w" if "x \<in> set (?Q u w)" for u w x
      using sub [of u w] that queuedD(2) [OF q, of x u w] by auto
    show "(u, w) \<noteq> (v, y) \<Longrightarrow> set (?Q u w) \<inter> set (?Q v y) = {}" for u v w y
      using sub [of u w] sub [of v y] queuedD(3) [OF q, of u w v y] by blast
  qed
  moreover have "queue_blocks Q = insert h (queue_blocks ?Q)"
  proof -
    have i: "set (Q u w) \<subseteq> insert h (set (?Q u w))" for u w using xs by auto
    have "h \<in> set (Q t z)" using xs by simp
    then show ?thesis by (rule queue_blocks_insert) (rule sub, rule i)
  qed
  ultimately show ?thesis using h(1) nh xs unfolding queue_blocks_def by (intro exI [of _ h] exI [of _ ?Q]) simp
qed


lemma queued_Put:
  assumes q: "queued a Q" and m: "tls_map a t z = Some bl" and h: "h \<noteq> 0" "h \<notin> queue_blocks Q" "h_size (headers a h) = z"
    and p: "BlockList_Put (headers a) bl h = (hs', bl')"
  shows "\<exists>Q'. queued (a\<lparr>headers := hs', tls_map := (tls_map a)(t := (tls_map a t)(z \<mapsto> bl'))\<rparr>) Q' \<and>
    queue_blocks Q' = insert h (queue_blocks Q)" and "h_size (hs' x) = h_size (headers a x)"
proof -
  have hl: "holds (headers a) bl (Q t z)" using queuedD(1) [OF q, of t z] m by (simp add: listed_def)
  have nh: "h \<notin> set (Q u w)" for u w using h(2) by (auto simp: queue_blocks_def)
  note put = holds_put [OF hl h(1) nh p]
  show "h_size (hs' x) = h_size (headers a x)" by (rule put(2))
  let ?Q = "Q(t := (Q t)(z := Q t z @ [h]))"
    and ?a = "a\<lparr>headers := hs', tls_map := (tls_map a)(t := (tls_map a t)(z \<mapsto> bl'))\<rparr>"
  have hs': "hs' x = headers a x" if "x \<in> set (Q u w)" "(u, w) \<noteq> (t, z)" for x u w
    using put(3) [of x] that queuedD(3) [OF q, of u w t z] nh by blast
  have "queued ?a ?Q" unfolding queued_def
  proof (intro conjI allI impI ballI)
    show "listed (headers ?a) (tls_map ?a u w) (?Q u w)" for u w
    proof (cases "(u, w) = (t, z)")
      case True
      then show ?thesis using put(1) by (simp add: listed_def)
    next
      case False
      have "listed hs' (tls_map a u w) (Q u w)" by (rule listed_frame [OF hs' queuedD(1) [OF q]]) (use False in auto)
      then show ?thesis using False by auto
    qed
    show "h_size (headers ?a x) = w" if "x \<in> set (?Q u w)" for u w x
      using that put(2) h(3) queuedD(2) [OF q, of x u w] by (auto split: if_splits)
    show "(u, w) \<noteq> (v, y) \<Longrightarrow> set (?Q u w) \<inter> set (?Q v y) = {}" for u v w y
      using queuedD(3) [OF q, of u w v y] nh [of u w] nh [of v y] by auto
  qed
  moreover have "queue_blocks ?Q = insert h (queue_blocks Q)"
    by (rule queue_blocks_insert [of h _ t z]) auto
  ultimately show "\<exists>Q'. queued ?a Q' \<and> queue_blocks Q' = insert h (queue_blocks Q)" by blast
qed

lemma queued_New:
  assumes q: "queued a Q" and m: "tls_map a t z = None" and h: "h \<noteq> 0" "h \<notin> queue_blocks Q" "h_size (headers a h) = z"
  shows "\<exists>Q'. queued (a\<lparr>tls_map := (tls_map a)(t := (tls_map a t)(z \<mapsto> \<lparr>bl_head = h, bl_tail = h\<rparr>))\<rparr>) Q' \<and>
    queue_blocks Q' = insert h (queue_blocks Q)"
proof -
  let ?a = "a\<lparr>tls_map := (tls_map a)(t := (tls_map a t)(z \<mapsto> \<lparr>bl_head = 0, bl_tail = 0\<rparr>))\<rparr>"
  have "listed (headers a) (tls_map ?a u w) (Q u w)" for u w
    using queuedD(1) [OF q, of u w] m by (auto simp: listed_def holds_empty)
  then have "queued ?a Q" using q unfolding queued_def by simp
  moreover have "tls_map ?a t z = Some \<lparr>bl_head = 0, bl_tail = 0\<rparr>" by simp
  ultimately obtain Q' where Q': "queued (?a\<lparr>headers := headers a, tls_map := (tls_map ?a)(t := (tls_map ?a t)(z \<mapsto> \<lparr>bl_head = h, bl_tail = h\<rparr>))\<rparr>) Q'"
    "queue_blocks Q' = insert h (queue_blocks Q)"
    using queued_Put(1) [of ?a Q t z "\<lparr>bl_head = 0, bl_tail = 0\<rparr>" h "headers a" "\<lparr>bl_head = h, bl_tail = h\<rparr>"] h
    by (auto simp: BlockList_Put_def)
  then have "queued (a\<lparr>tls_map := (tls_map a)(t := (tls_map a t)(z \<mapsto> \<lparr>bl_head = h, bl_tail = h\<rparr>))\<rparr>) Q'"
    by (simp add: queued_def)
  then show ?thesis using Q'(2) by blast
qed

text \<open>Releasing a block moves it into a list of the releasing thread.\<close>

lemma queued_Free:
  assumes q: "queued a Q" and h: "ExtractHeader p \<noteq> 0" "ExtractHeader p \<notin> queue_blocks Q"
  shows "\<exists>Q'. queued (Free t p a) Q' \<and> queue_blocks Q' = insert (ExtractHeader p) (queue_blocks Q)"
    and "h_size (headers (Free t p a) x) = h_size (headers a x)"
    and "slabs (Free t p a) = slabs a" "numa_memory (Free t p a) = numa_memory a" "numa_allocated (Free t p a) = numa_allocated a"
proof -
  let ?h = "ExtractHeader p"
  define a1 where "a1 = a\<lparr>headers := (headers a)(?h := (headers a ?h)\<lparr>h_next := 0\<rparr>)\<rparr>"
  have q1: "queued a1 Q" by (rule queued_frame [OF q]) (use h(2) in \<open>auto simp: a1_def\<close>)
  define z where "z = h_size (headers a1 ?h)"
  have f: "Free t p a = (case tls_map a1 t z of
        None \<Rightarrow> a1\<lparr>tls_map := (tls_map a1)(t := (tls_map a1 t)(z \<mapsto> \<lparr>bl_head = ?h, bl_tail = ?h\<rparr>))\<rparr>
      | Some bl \<Rightarrow> (case BlockList_Put (headers a1) bl ?h of
          (hs', bl') \<Rightarrow> a1\<lparr>headers := hs', tls_map := (tls_map a1)(t := (tls_map a1 t)(z \<mapsto> bl'))\<rparr>))"
    unfolding Free_def z_def a1_def by (simp add: Let_def split: option.split prod.split)
  have s: "h_size (headers a1 y) = h_size (headers a y)" for y by (simp add: a1_def)
  have "(\<exists>Q'. queued (Free t p a) Q' \<and> queue_blocks Q' = insert ?h (queue_blocks Q)) \<and> h_size (headers (Free t p a) x) = h_size (headers a x)"
  proof (cases "tls_map a1 t z")
    case None
    then show ?thesis using queued_New [OF q1 None h] unfolding f by (simp add: z_def s)
  next
    case (Some bl)
    obtain hs' bl' where p: "BlockList_Put (headers a1) bl ?h = (hs', bl')" by fastforce
    show ?thesis 
      using queued_Put(1) [OF q1 Some h _ p] queued_Put(2) [OF q1 Some h _ p, of x] Some unfolding f by (simp add: p z_def s)
  qed
  then show "\<exists>Q'. queued (Free t p a) Q' \<and> queue_blocks Q' = insert ?h (queue_blocks Q)"
    "h_size (headers (Free t p a) x) = h_size (headers a x)" by blast+
  show "slabs (Free t p a) = slabs a" "numa_memory (Free t p a) = numa_memory a" "numa_allocated (Free t p a) = numa_allocated a"
    unfolding f a1_def by (simp_all split: option.split prod.split)
qed


lemma ainv_free:
  assumes "ainv N s" and l: "live s p = Some n"
  shows "ainv N \<lparr>amem = Free t p (amem s), live = (live s)(p := None)\<rparr>"
proof -
  let ?h = "ExtractHeader p" and ?a = "amem s" and ?L = "ExtractHeader ` dom (live s)"
  obtain Q where Q: "queued ?a Q" "live_ok s Q" "arena N ?a (?L \<union> queue_blocks Q)" using assms(1) by (auto simp: ainv_def)
  have hL: "?h \<in> ?L" using l by auto
  then have "0 < unat ?h" using Q(3) unfolding arena_def by blast
  moreover have "?h \<notin> queue_blocks Q" using hL Q(2) unfolding live_ok_def by blast
  ultimately have h: "?h \<noteq> 0" "?h \<notin> queue_blocks Q" by auto
  note free = queued_Free [OF Q(1) h, of t]
  obtain Q' where Q': "queued (Free t p ?a) Q'" "queue_blocks Q' = insert ?h (queue_blocks Q)" using free(1) by blast
  let ?s = "\<lparr>amem = Free t p ?a, live = (live s)(p := None)\<rparr>"
  have L: "ExtractHeader ` dom (live ?s) = ?L - {?h}"
    by (auto simp: ExtractHeader_def dom_def image_def)
  have "(?L - {?h}) \<inter> queue_blocks Q' = {}" using Q(2) Q'(2) unfolding live_ok_def by blast
  moreover have "unat m + 64 \<le> slab_bytes \<and> h_size (headers (amem s) (ExtractHeader q)) = block_size m - sizeof_header"
    if "live s q = Some m" for q m using Q(2) that unfolding live_ok_def by blast
  ultimately have "live_ok ?s Q'" unfolding live_ok_def L by (simp add: free(2))
  moreover have "ExtractHeader ` dom (live ?s) \<union> queue_blocks Q' = ?L \<union> queue_blocks Q" unfolding L Q'(2) using hL by blast
  moreover have "arena N (Free t p ?a) B = arena N ?a B" for B by (rule arena_cong) (simp_all add: free)
  ultimately show ?thesis using Q'(1) Q(3) unfolding ainv_def by (metis asys.select_convs(1))
qed

lemma live_add:
  assumes "live_ok s Q" and "queue_blocks Q' \<subseteq> queue_blocks Q" and "h \<notin> queue_blocks Q'"
    and "\<And>p n. live s p = Some n \<Longrightarrow> headers a (ExtractHeader p) = headers (amem s) (ExtractHeader p)"
    and "h_size (headers a h) = block_size n - sizeof_header" and "unat n + 64 \<le> slab_bytes"
  shows "live_ok \<lparr>amem = a, live = (live s)(GetData h \<mapsto> n)\<rparr> Q'"
    and "ExtractHeader ` dom ((live s)(GetData h \<mapsto> n)) = insert h (ExtractHeader ` dom (live s))"
proof -
  have x: "ExtractHeader (GetData h) = h" by (simp add: ExtractHeader_def GetData_def)
  then show L: "ExtractHeader ` dom ((live s)(GetData h \<mapsto> n)) = insert h (ExtractHeader ` dom (live s))" by simp
  have "\<forall>p m. ((live s)(GetData h \<mapsto> n)) p = Some m \<longrightarrow> unat m + 64 \<le> slab_bytes \<and>
      h_size (headers a (ExtractHeader p)) = block_size m - sizeof_header"
    using assms(1,4,5,6) x by (auto simp: live_ok_def)
  then show "live_ok \<lparr>amem = a, live = (live s)(GetData h \<mapsto> n)\<rparr> Q'"
    using assms(1-3) unfolding live_ok_def asys.simps L by blast
qed


lemma alloc_miss:
  assumes q: "queued a Q" and no: "\<nexists>bl bl' q. tls_map a t (block_size n - sizeof_header) = Some bl \<and> BlockList_Get (headers a) bl = (q, bl') \<and> q \<noteq> 0"
    and al: "Allocate nodes t n a = Some (Inr (p, a'))" and nz: "\<And>h. h \<in> queue_blocks Q \<Longrightarrow> GetData h \<noteq> 0"
  shows "\<exists>a1. headers a1 = headers a \<and> slabs a1 = slabs a \<and> numa_memory a1 = numa_memory a \<and>
    numa_allocated a1 = numa_allocated a \<and> queued a1 Q \<and>
    map_option (\<lambda>r. bind_checked r (\<lambda>(p, a2).
      if p \<noteq> 0 then Inr (p + sizeof_header, a2\<lparr>headers := (headers a2)(p := \<lparr>h_size = block_size n - sizeof_header, h_next = 0\<rparr>)\<rparr>)
      else Inr (0, a2))) (Slab_Allocate nodes t (block_size n) a1) = Some (Inr (p, a'))"
proof (cases "tls_map a t (block_size n - sizeof_header)")
  case None
  then show ?thesis using al q by (intro exI [of _ a]) (simp add: Allocate_def TlsAllocate_def Let_def)
next
  case (Some bl)
  let ?z = "block_size n - sizeof_header"
  obtain q bl' where g': "BlockList_Get (headers a) bl = (q, bl')" by fastforce
  then have g: "BlockList_Get (headers a) bl = (0, bl')" using no Some by blast
  have hl: "holds (headers a) bl (Q t ?z)" using queuedD(1) [OF q, of t ?z] Some by (simp add: listed_def)
  have "bl_head bl = 0"
  proof (cases "Q t ?z")
    case Nil
    then show ?thesis using hl by (simp add: holds_empty)
  next
    case (Cons h xs)
    have "GetData h = 0" using holds_get [of "headers a" bl h xs] hl Cons g by auto
    moreover have "h \<in> queue_blocks Q" unfolding queue_blocks_def by (intro UN_I [of t] UN_I [of ?z]) (simp_all add: Cons)
    ultimately show ?thesis using nz by blast
  qed
  then have "bl' = bl" using g by (simp add: BlockList_Get_def)
  then have "a\<lparr>tls_map := (tls_map a)(t := (tls_map a t)(?z \<mapsto> bl'))\<rparr> = a" using Some by (simp add: fun_upd_idem)
  then show ?thesis using al q Some g by (intro exI [of _ a]) (simp add: Allocate_def TlsAllocate_def Let_def)
qed

lemma ainv_alloc:
  assumes "ainv N s" and al: "Allocate nodes t n (amem s) = Some (Inr (p, a))" and nodes: "list_all (\<lambda>k. k < N) nodes"
    and n: "unat n + 64 \<le> slab_bytes"
  shows "ainv N \<lparr>amem = a, live = (live s)(p \<mapsto> n)\<rparr>"
proof -
  let ?a = "amem s" and ?L = "ExtractHeader ` dom (live s)" and ?n = "block_size n" and ?z = "block_size n - sizeof_header"
  note b = block_size_ok [OF n]
  obtain Q where Q: "queued ?a Q" "live_ok s Q" "arena N ?a (?L \<union> queue_blocks Q)" using assms(1) by (auto simp: ainv_def)
  show ?thesis
  proof (cases "\<exists>bl bl' q. tls_map ?a t ?z = Some bl \<and> BlockList_Get (headers ?a) bl = (q, bl') \<and> q \<noteq> 0")
    case True
    then obtain bl bl' q where g: "tls_map ?a t ?z = Some bl" "BlockList_Get (headers ?a) bl = (q, bl')" "q \<noteq> 0" by blast
    let ?b = "?a\<lparr>tls_map := (tls_map ?a)(t := (tls_map ?a t)(?z \<mapsto> bl'))\<rparr>"
    have pa: "p = q" "a = ?b" using al g by (auto simp: Allocate_def TlsAllocate_def Let_def)
    obtain h Q' where h: "q = GetData h" "h \<in> set (Q t ?z)" "queued ?b Q'" "queue_blocks Q = insert h (queue_blocks Q')"
      "h \<notin> queue_blocks Q'" using queued_Get [OF Q(1) g] by blast
    have "h_size (headers ?b h) = ?z" using queuedD(2) [OF Q(1) h(2)] by simp
    then have "live_ok \<lparr>amem = ?b, live = (live s)(p \<mapsto> n)\<rparr> Q'"
      and L: "ExtractHeader ` dom ((live s)(p \<mapsto> n)) = insert h ?L"
      using live_add [of s Q Q' h ?b n] Q(2) h pa(1) n by auto
    moreover have "arena N ?b (insert h ?L \<union> queue_blocks Q') = arena N ?a (?L \<union> queue_blocks Q)"
      unfolding h(4) by (simp add: arena_cong [of ?b ?a])
    ultimately show ?thesis using h(3) Q(3) unfolding ainv_def pa(2) asys.simps L by blast
  next
    case False
    obtain a1 where a1: "headers a1 = headers ?a" "slabs a1 = slabs ?a" "numa_memory a1 = numa_memory ?a"
      "numa_allocated a1 = numa_allocated ?a" "queued a1 Q"
      and al1: "map_option (\<lambda>r. bind_checked r (\<lambda>(p, a2).
                if p \<noteq> 0 then Inr (p + sizeof_header, a2\<lparr>headers := (headers a2)(p := \<lparr>h_size = ?z, h_next = 0\<rparr>)\<rparr>)
                else Inr (0, a2))) (Slab_Allocate nodes t ?n a1) = Some (Inr (p, a))"
      using alloc_miss [OF Q(1) False al arena_data [OF Q(3)]] by blast
    obtain h a2 where sa: "Slab_Allocate nodes t ?n a1 = Some (Inr (h, a2))"
      using al1 by (cases "Slab_Allocate nodes t ?n a1") (auto simp: bind_checked_def split: sum.splits)
    have ar: "arena N a1 (?L \<union> queue_blocks Q)" using Q(3) arena_cong [of a1 ?a] a1 by simp
    define a3 where "a3 = a2\<lparr>headers := (headers a2)(h := \<lparr>h_size = ?z, h_next = 0\<rparr>)\<rparr>"
    have le: "64 \<le> unat ?n" using b(3) by linarith
    note fr = arena_fresh [OF ar b(1,2) le nodes sa a3_def]
    have "h \<noteq> 0" using fr(1) by (auto simp: arena_def)
    then have pa: "p = GetData h" "a = a3" using al1 sa by (auto simp: bind_checked_def GetData_def a3_def)
    have q3: "queued a3 Q" by (rule queued_frame [OF a1(5) fr(3)]) (metis fr(2,4) UnI2)
    have "h_size (headers a3 h) = ?z" by (simp add: a3_def)
    moreover have "headers a3 (ExtractHeader q) = headers ?a (ExtractHeader q)" if "live s q = Some m" for q m
    proof -
      have "ExtractHeader q \<in> ?L" using that by auto
      then have "ExtractHeader q \<noteq> h" using fr(2) by blast
      then show ?thesis using fr(4) a1(1) by simp
    qed
    moreover have "h \<notin> queue_blocks Q" using fr(2) by blast
    ultimately have "live_ok \<lparr>amem = a3, live = (live s)(p \<mapsto> n)\<rparr> Q"
      and L: "ExtractHeader ` dom ((live s)(p \<mapsto> n)) = insert h ?L"
      using live_add [OF Q(2) subset_refl, of h a3 n] n unfolding pa(1) by blast+
    then show ?thesis using q3 fr(1) unfolding ainv_def pa(2) asys.simps L by (auto simp: Un_insert_left)
  qed
qed


section \<open>Theorems\<close>

abbreviation started :: "(nat \<Rightarrow> u64) \<Rightarrow> (u64 \<Rightarrow> header) \<Rightarrow> asys" where
  "started regions hs \<equiv> \<lparr>amem = new_TlsAllocator regions hs, live = Map.empty\<rparr>"

lemma ainv_started: "regions_ok N regions \<Longrightarrow> ainv N (started regions hs)"
proof -
  assume r: "regions_ok N regions"
  have "queued (new_TlsAllocator regions hs) (\<lambda>_ _. [])" by (simp add: queued_def new_TlsAllocator_def listed_def)
  moreover have "queue_blocks (\<lambda>_ _. []) = {}" by (simp add: queue_blocks_def)
  moreover have "space N (new_TlsAllocator regions hs) {}"
    using r by (auto simp: space_def regions_ok_def new_TlsAllocator_def new_Slab_def slab_ok_def node_ok_def rest_def untaken_def)
  ultimately show ?thesis unfolding ainv_def by (intro exI [of _ "\<lambda>_ _. []"]) (simp add: live_ok_def arena_def)
qed

lemma ainv_reachable: "(astep N)\<^sup>*\<^sup>* s s' \<Longrightarrow> ainv N s \<Longrightarrow> ainv N s'"
  by (induction rule: rtranclp_induct) (auto elim!: astep.cases intro: ainv_alloc ainv_free)



lemma Allocate_listed:
  assumes "tls_map a t (block_size n - sizeof_header) = Some bl" and "BlockList_Get (headers a) bl = (q, bl')" and "q \<noteq> 0"
  shows "Allocate nodes t n a = Some (Inr (q, a\<lparr>tls_map := (tls_map a)(t := (tls_map a t)(block_size n - sizeof_header \<mapsto> bl'))\<rparr>))"
  using assms by (simp add: Allocate_def TlsAllocate_def Let_def)

text \<open>Where a block was just released into the list of its size, the list gives the oldest block of it.\<close>

lemma Get_after_Put:
  assumes "queued a Q" and "tls_map a t z = Some bl" and "h \<noteq> 0" "h \<notin> queue_blocks Q"
    and "BlockList_Put hs bl h = (hs', bl')" and hs: "\<And>x. x \<noteq> h \<Longrightarrow> hs x = headers a x"
  shows "\<exists>y bl''. BlockList_Get hs' bl' = (GetData y, bl'') \<and> y \<in> insert h (queue_blocks Q)"
proof -
  have nh: "h \<notin> set (Q t z)" using assms(4) by (auto simp: queue_blocks_def)
  have "holds (headers a) bl (Q t z)" using queuedD(1) [OF assms(1), of t z] assms(2) by (simp add: listed_def)
  moreover have "hs x = headers a x" if "x \<in> set (Q t z)" for x using hs nh that by metis
  ultimately have "holds hs bl (Q t z)" using holds_frame by metis
  from blq.put_get [OF this assms(3) nh assms(5)]
  obtain y bl'' where g: "get_block hs' bl' = (Some y, bl'')" "y = hd (Q t z @ [h])" by blast
  have "y \<in> set (Q t z @ [h])" unfolding g(2) by (rule hd_in_set) simp
  then have y: "y \<in> insert h (queue_blocks Q)" unfolding queue_blocks_def by auto
  have "BlockList_Get hs' bl' = (GetData y, bl'')"
    using g(1) by (auto simp: get_block_def ExtractHeader_def GetData_def split: if_splits prod.splits)
  then show ?thesis using y by blast
qed


section \<open>The end of a region\<close>

lemma take_slab:
  assumes "tls_map a t = Map.empty" and "sl_memory (slabs a t) = 0 \<or> sl_allocated (slabs a t) = kSlabSize"
    and "numa_allocated a node < kNumaMemorySize" and "numa_memory a node + numa_allocated a node \<noteq> 0"
  shows "\<exists>a'. Allocate [node] t (kSlabSize - 64) a = Some (Inr (numa_memory a node + numa_allocated a node + 64, a')) \<and>
    tls_map a' = tls_map a \<and> numa_memory a' = numa_memory a \<and>
    numa_allocated a' = (numa_allocated a)(node := numa_allocated a node + kSlabSize) \<and>
    (\<forall>u. u \<noteq> t \<longrightarrow> slabs a' u = slabs a u) \<and> sl_allocated (slabs a' t) = kSlabSize"
proof -
  let ?a = "a\<lparr>numa_allocated := (numa_allocated a)(node := numa_allocated a node + kSlabSize),
      slabs := (slabs a)(t := \<lparr>sl_allocated = 0, sl_memory = numa_memory a node + numa_allocated a node\<rparr>)\<rparr>"
  have b: "block_size (kSlabSize - 64) = kSlabSize" by (simp add: block_size_def kSlabSize_def sizeof_header_def)
  have c: "\<not> (sl_memory (slabs a t) \<noteq> 0 \<and> sl_allocated (slabs a t) + kSlabSize \<le> kSlabSize)"
    using assms(2) by (auto simp: kSlabSize_def)
  have o: "\<not> kNumaMemorySize \<le> numa_allocated a node" using assms(3) by simp
  have "Slab_Allocate [node] t kSlabSize a = Slab_Allocate [] t kSlabSize ?a"
    unfolding Slab_Allocate.simps [of "[node]"] Let_def if_not_P [OF c] list.case if_not_P [OF o] ..
  also have "\<dots> = Some (Inr (numa_memory a node + numa_allocated a node,
      ?a\<lparr>slabs := (slabs ?a)(t := \<lparr>sl_allocated = kSlabSize, sl_memory = numa_memory a node + numa_allocated a node\<rparr>)\<rparr>))"
    using assms(4) by (simp add: Slab_Allocate.simps Let_def)
  finally have "Slab_Allocate [node] t kSlabSize a = \<dots>" .
  then show ?thesis using assms(1,4) by (simp add: Allocate_def TlsAllocate_def b Let_def bind_checked_def sizeof_header_def)
qed


text \<open>Two regions that are mapped one right after the other.\<close>

definition adjacent :: "nat \<Rightarrow> u64" where
  "adjacent n = 2 ^ 40 + of_nat n * kNumaMemorySize"

definition filled :: "nat \<Rightarrow> asys \<Rightarrow> bool" where
  "filled k s \<longleftrightarrow> tls_map (amem s) = (\<lambda>_. Map.empty) \<and> numa_memory (amem s) = adjacent \<and>
     numa_allocated (amem s) 0 = of_nat k * kSlabSize \<and> numa_allocated (amem s) 1 = 0 \<and>
     (sl_memory (slabs (amem s) 0) = 0 \<or> sl_allocated (slabs (amem s) 0) = kSlabSize) \<and> sl_memory (slabs (amem s) 1) = 0"

lemma next_slab:
  assumes s: "filled k s" and k: "k \<le> 156"
  shows "\<exists>s'. astep 2 s s' \<and> filled (Suc k) s' \<and> live s' (adjacent 0 + of_nat k * kSlabSize + 64) = Some (kSlabSize - 64)"
proof -
  have u: "unat (of_nat k * kSlabSize :: u64) = k * slab_bytes"
    using k by (simp add: unat_word_ariths unat_of_nat kSlabSize_def)
  have off: "of_nat k * kSlabSize < kNumaMemorySize" using k u by (simp add: word_less_nat_alt kNumaMemorySize_def)
  have "unat (2 ^ 40 :: u64) + k * slab_bytes < 2 ^ 64" using k by simp
  then have "unat (adjacent 0 + of_nat k * kSlabSize) = 2 ^ 40 + k * slab_bytes"
    using u unat_add_lem [of "2 ^ 40 :: u64" "of_nat k * kSlabSize"] by (simp add: adjacent_def)
  then have nz: "adjacent 0 + of_nat k * kSlabSize \<noteq> 0" by auto
  obtain a' where a': "Allocate [0] 0 (kSlabSize - 64) (amem s) = Some (Inr (adjacent 0 + of_nat k * kSlabSize + 64, a'))"
    "tls_map a' = tls_map (amem s)" "numa_memory a' = adjacent"
    "numa_allocated a' = (numa_allocated (amem s))(0 := of_nat k * kSlabSize + kSlabSize)"
    "\<forall>u. u \<noteq> 0 \<longrightarrow> slabs a' u = slabs (amem s) u" "sl_allocated (slabs a' 0) = kSlabSize"
    using take_slab [of "amem s" 0 0] s off nz unfolding filled_def by auto
  let ?s = "\<lparr>amem = a', live = (live s)(adjacent 0 + of_nat k * kSlabSize + 64 \<mapsto> kSlabSize - 64)\<rparr>"
  have "astep 2 s ?s" by (rule astep.alloc [OF a'(1)]) (simp_all add: kSlabSize_def)
  moreover have "filled (Suc k) ?s" using a' s unfolding filled_def by (simp add: algebra_simps)
  ultimately show ?thesis by (intro exI [of _ ?s]) simp
qed

lemma slabs_of_one_node: "k \<le> 157 \<Longrightarrow> \<exists>s. (astep 2)\<^sup>*\<^sup>* (started adjacent hs) s \<and> filled k s"
proof (induction k)
  case 0
  have "filled 0 (started adjacent hs)" by (simp add: filled_def new_TlsAllocator_def new_Slab_def)
  then show ?case by blast
next
  case (Suc k)
  then obtain s where "(astep 2)\<^sup>*\<^sup>* (started adjacent hs) s" "filled k s" by auto
  moreover obtain s' where "astep 2 s s'" "filled (Suc k) s'" using next_slab [OF \<open>filled k s\<close>] Suc.prems by auto
  ultimately show ?case by (meson rtranclp.rtrancl_into_rtrancl)
qed

text \<open>
  C31: The last slab of a region reaches past its end. The test \<open>off >= kNumaMemorySize\<close> looks at the start of a slab only, and the size
  of a region is no multiple of the size of a slab: when the region of node 1 starts where that of node 0
  ends, 157 allocations on node 0 and one on node 1 leave the program with two blocks that overlap.
\<close>

theorem adjacent_regions_overlap:
  "\<exists>s p n q m. (astep 2)\<^sup>*\<^sup>* (started adjacent hs) s \<and> live s p = Some n \<and> live s q = Some m \<and> p \<noteq> q \<and>
    unat (adjacent 0) + unat kNumaMemorySize = unat (adjacent 1) \<and>
    {unat p ..< unat p + unat n} \<inter> {unat q ..< unat q + unat m} \<noteq> {}"
proof -
  let ?p = "adjacent 0 + 156 * kSlabSize + 64" and ?q = "adjacent 1 + 64" and ?n = "kSlabSize - 64"
  obtain s0 where s0: "(astep 2)\<^sup>*\<^sup>* (started adjacent hs) s0" "filled 156 s0" using slabs_of_one_node [of 156 hs] by auto
  obtain s where s: "astep 2 s0 s" "filled 157 s" "live s ?p = Some ?n" using next_slab [OF s0(2)] by auto
  have "0 < kNumaMemorySize" "adjacent 1 \<noteq> 0" by (simp_all add: kNumaMemorySize_def adjacent_def)
  then obtain a where a: "Allocate [1] 1 ?n (amem s) = Some (Inr (?q, a))"
    using take_slab [of "amem s" 1 1] s(2) unfolding filled_def by auto
  let ?s = "\<lparr>amem = a, live = (live s)(?q \<mapsto> ?n)\<rparr>"
  have "astep 2 s ?s" by (rule astep.alloc [OF a]) (simp_all add: kSlabSize_def)
  then have r: "(astep 2)\<^sup>*\<^sup>* (started adjacent hs) ?s" using s0(1) s(1) by simp
  have v: "?p = 1109980610624" "?q = 1109997387840" "?n = 67108800"
    by (simp_all add: adjacent_def kSlabSize_def kNumaMemorySize_def)
  have "unat ?q \<in> {unat ?p ..< unat ?p + unat ?n} \<inter> {unat ?q ..< unat ?q + unat ?n}" unfolding v by simp
  moreover have "?p \<noteq> ?q" unfolding v by simp
  ultimately show ?thesis using r s(3)
    by (intro exI [of _ ?s] exI [of _ ?p] exI [of _ ?n] exI [of _ ?q]) (auto simp: adjacent_def kNumaMemorySize_def)
qed


section \<open>Witnesses\<close>

lemma one_region_ok: "regions_ok 1 adjacent"
  by (simp add: regions_ok_def adjacent_def)

lemma two_blocks:
  "\<exists>s. (astep 1)\<^sup>*\<^sup>* (started adjacent (\<lambda>_. \<lparr>h_size = 0, h_next = 0\<rparr>)) s \<and> live s (2 ^ 40 + 64) = Some 10 \<and>
    live s (2 ^ 40 + 192) = Some 100 \<and> tls_map (amem s) = (\<lambda>_. Map.empty)"
proof -
  let ?s0 = "started adjacent (\<lambda>_. \<lparr>h_size = 0, h_next = 0\<rparr>)"
  have b: "block_size 10 = 128" "block_size 100 = 192" by (simp_all add: block_size_def sizeof_header_def)
  have "\<exists>a. Allocate [0] 0 10 (amem ?s0) = Some (Inr (2 ^ 40 + 64, a)) \<and> slabs a 0 = \<lparr>sl_allocated = 128, sl_memory = 2 ^ 40\<rparr> \<and>
    tls_map a = (\<lambda>_. Map.empty)"
    by (simp add: Allocate_def TlsAllocate_def b Slab_Allocate.simps new_TlsAllocator_def new_Slab_def Let_def bind_checked_def
        kSlabSize_def kNumaMemorySize_def sizeof_header_def adjacent_def)
  then obtain a where a: "Allocate [0] 0 10 (amem ?s0) = Some (Inr (2 ^ 40 + 64, a))"
    "slabs a 0 = \<lparr>sl_allocated = 128, sl_memory = 2 ^ 40\<rparr>" "tls_map a = (\<lambda>_. Map.empty)" by blast
  let ?s1 = "\<lparr>amem = a, live = (live ?s0)(2 ^ 40 + 64 \<mapsto> 10)\<rparr>"
  have s1: "astep 1 ?s0 ?s1" by (rule astep.alloc [OF a(1)]) simp_all
  have "\<exists>a'. Allocate [] 0 100 a = Some (Inr (2 ^ 40 + 192, a')) \<and> tls_map a' = (\<lambda>_. Map.empty)"
    using a(2,3) by (simp add: Allocate_def TlsAllocate_def b Slab_Allocate.simps Let_def bind_checked_def kSlabSize_def sizeof_header_def)
  then obtain a' where a': "Allocate [] 0 100 (amem ?s1) = Some (Inr (2 ^ 40 + 192, a'))" "tls_map a' = (\<lambda>_. Map.empty)" by auto
  let ?s2 = "\<lparr>amem = a', live = (live ?s1)(2 ^ 40 + 192 \<mapsto> 100)\<rparr>"
  have "astep 1 ?s1 ?s2" by (rule astep.alloc [OF a'(1)]) simp_all
  then have "(astep 1)\<^sup>*\<^sup>* ?s0 ?s2" using s1 by (meson converse_rtranclp_into_rtranclp r_into_rtranclp)
  then show ?thesis using a'(2) by (intro exI [of _ ?s2]) simp
qed



end
