(* ===== verification/Metrics.thy ===== *)
theory Metrics
  imports Status
begin

text \<open>
  The counters of the library (\<open>src/src/mwcas/metrics.h\<close>) and the array of objects per thread they are kept in
  (\<open>src/src/util/core_local.h\<close>, \<open>CoreLocal<MwCASMetrics *>\<close>). A pointer to a metrics object is its number in the order of
  allocation; whether an allocation succeeds is an argument. An access outside the array or through a null pointer,
  undefined in C++, is an error value. Of a \<open>Status\<close> only the code is kept.
\<close>

section \<open>Counters\<close>

record mwcas_metrics =
  succeeded_update_count :: u64
  failed_update_count :: u64
  read_count :: u64
  descriptor_scavenge_count :: u64
  help_attempt_count :: u64
  bailed_help_count :: u64
  descriptor_alloc_count :: u64

definition new_MwCASMetrics :: mwcas_metrics where
  "new_MwCASMetrics = \<lparr>succeeded_update_count = 0, failed_update_count = 0, read_count = 0, descriptor_scavenge_count = 0,
     help_attempt_count = 0, bailed_help_count = 0, descriptor_alloc_count = 0\<rparr>"

definition metrics_plus :: "mwcas_metrics \<Rightarrow> mwcas_metrics \<Rightarrow> mwcas_metrics" where
  "metrics_plus a b = \<lparr>succeeded_update_count = succeeded_update_count a + succeeded_update_count b,
     failed_update_count = failed_update_count a + failed_update_count b,
     read_count = read_count a + read_count b,
     descriptor_scavenge_count = descriptor_scavenge_count a + descriptor_scavenge_count b,
     help_attempt_count = help_attempt_count a + help_attempt_count b,
     bailed_help_count = bailed_help_count a + bailed_help_count b,
     descriptor_alloc_count = descriptor_alloc_count a + descriptor_alloc_count b\<rparr>"

definition metrics_minus :: "mwcas_metrics \<Rightarrow> mwcas_metrics \<Rightarrow> mwcas_metrics" where
  "metrics_minus a b = \<lparr>succeeded_update_count = succeeded_update_count a - succeeded_update_count b,
     failed_update_count = failed_update_count a - failed_update_count b,
     read_count = read_count a - read_count b,
     descriptor_scavenge_count = descriptor_scavenge_count a - descriptor_scavenge_count b,
     help_attempt_count = help_attempt_count a - help_attempt_count b,
     bailed_help_count = bailed_help_count a - bailed_help_count b,
     descriptor_alloc_count = descriptor_alloc_count a - descriptor_alloc_count b\<rparr>"

definition GetUpdateAttemptCount :: "mwcas_metrics \<Rightarrow> u64" where
  "GetUpdateAttemptCount a = succeeded_update_count a + failed_update_count a"

datatype counter = Read | SucceededUpdate | FailedUpdate | DescriptorScavenge | HelpAttempt | BailedHelp | DescriptorAlloc

fun bump :: "counter \<Rightarrow> mwcas_metrics \<Rightarrow> mwcas_metrics" where
  "bump Read a = a\<lparr>read_count := read_count a + 1\<rparr>"
| "bump SucceededUpdate a = a\<lparr>succeeded_update_count := succeeded_update_count a + 1\<rparr>"
| "bump FailedUpdate a = a\<lparr>failed_update_count := failed_update_count a + 1\<rparr>"
| "bump DescriptorScavenge a = a\<lparr>descriptor_scavenge_count := descriptor_scavenge_count a + 1\<rparr>"
| "bump HelpAttempt a = a\<lparr>help_attempt_count := help_attempt_count a + 1\<rparr>"
| "bump BailedHelp a = a\<lparr>bailed_help_count := bailed_help_count a + 1\<rparr>"
| "bump DescriptorAlloc a = a\<lparr>descriptor_alloc_count := descriptor_alloc_count a + 1\<rparr>"

section \<open>One object per thread\<close>

text \<open>
  \<open>objects\<close> is \<open>objects_\<close> (\<open>None\<close> the null pointer) with an entry per object, \<open>my_idx\<close> the variables \<open>initialized\<close> and \<open>idx\<close> of
  each thread, \<open>heap\<close> the metrics objects.
\<close>

record msys =
  enabled :: bool
  objects :: "nat option list option"
  core_count :: u32
  next_free_object :: u32
  my_idx :: "nat \<Rightarrow> u32 option"
  heap :: "mwcas_metrics list"

definition new_msys :: "bool \<Rightarrow> msys" where
  "new_msys on = \<lparr>enabled = on, objects = None, core_count = 0, next_free_object = 0, my_idx = (\<lambda>_. None), heap = []\<rparr>"

definition CoreLocal_Initialize :: "bool \<Rightarrow> msys \<Rightarrow> (code \<times> msys) checked" where
  "CoreLocal_Initialize got s =
     (if objects s \<noteq> None then Inl ''already initialized''
      else let s1 = s\<lparr>core_count := 80\<rparr> in
        if \<not> got then Inr (kOutOfMemory, s1) else Inr (kOk, s1\<lparr>objects := Some (replicate (unat (core_count s1)) None)\<rparr>))"

definition CoreLocal_Uninitialize :: "msys \<Rightarrow> code \<times> msys" where
  "CoreLocal_Uninitialize s =
     (if objects s = None then (kCorruption, s) else (kOk, s\<lparr>objects := None, next_free_object := 0\<rparr>))"

definition MyObject :: "nat \<Rightarrow> msys \<Rightarrow> (u32 \<times> msys) checked" where
  "MyObject t s =
     (let fresh = Inr (next_free_object s, s\<lparr>next_free_object := next_free_object s + 1, my_idx := (my_idx s)(t \<mapsto> next_free_object s)\<rparr>) in
      case my_idx s t of
        None \<Rightarrow> fresh
      | Some idx \<Rightarrow>
          if objects s = None \<and> idx = 0 then fresh
          else if core_count s = 0 \<or> idx \<le> core_count s - 1 then Inr (idx, s)
          else Inl ''invalid tls value'')"

definition load_object :: "u32 \<Rightarrow> msys \<Rightarrow> nat option checked" where
  "load_object i s = (case objects s of
     None \<Rightarrow> Inl ''null array'' | Some os \<Rightarrow> if unat i < length os then Inr (os ! unat i) else Inl ''out of bounds'')"

definition store_object :: "u32 \<Rightarrow> nat \<Rightarrow> msys \<Rightarrow> msys checked" where
  "store_object i p s = (case objects s of
     None \<Rightarrow> Inl ''null array''
   | Some os \<Rightarrow> if unat i < length os then Inr (s\<lparr>objects := Some (os[unat i := Some p])\<rparr>) else Inl ''out of bounds'')"

section \<open>Operations\<close>

definition Metrics_Initialize :: "bool \<Rightarrow> msys \<Rightarrow> (code \<times> msys) checked" where
  "Metrics_Initialize got s =
     (if enabled s then bind_checked (CoreLocal_Initialize got s) (\<lambda>(_, s'). Inr (kOk, s')) else Inr (kOk, s))"

definition Metrics_Uninitialize :: "msys \<Rightarrow> code \<times> msys" where
  "Metrics_Uninitialize s = (if enabled s then CoreLocal_Uninitialize s else (kOk, s))"

text \<open>The destructor of \<open>BaseDescriptorPool\<close> does nothing else.\<close>

definition destroy_BaseDescriptorPool :: "msys \<Rightarrow> msys" where
  "destroy_BaseDescriptorPool s = snd (Metrics_Uninitialize s)"

definition ThreadInitialize :: "bool \<Rightarrow> nat \<Rightarrow> msys \<Rightarrow> (code \<times> msys) checked" where
  "ThreadInitialize got t s =
     (if enabled s then
        if \<not> got then Inr (kOutOfMemory, s)
        else let p = length (heap s); s1 = s\<lparr>heap := heap s @ [new_MwCASMetrics]\<rparr> in
             bind_checked (MyObject t s1) (\<lambda>(i, s2). bind_checked (store_object i p s2) (\<lambda>s3. Inr (kOk, s3)))
      else Inr (kOk, s))"

definition MyMetric :: "nat \<Rightarrow> msys \<Rightarrow> (nat option \<times> msys) checked" where
  "MyMetric t s =
     (if \<not> enabled s then Inl ''metrics is disabled''
      else bind_checked (MyObject t s) (\<lambda>(i, s1). bind_checked (load_object i s1) (\<lambda>p. Inr (p, s1))))"

definition Add :: "counter \<Rightarrow> nat \<Rightarrow> msys \<Rightarrow> msys checked" where
  "Add c t s =
     (if enabled s then
        bind_checked (MyMetric t s) (\<lambda>(p, s1). case p of
          None \<Rightarrow> Inl ''null metrics'' | Some q \<Rightarrow> Inr (s1\<lparr>heap := (heap s1)[q := bump c (heap s1 ! q)]\<rparr>))
      else Inr s)"

fun Sum_loop :: "nat list \<Rightarrow> msys \<Rightarrow> mwcas_metrics \<Rightarrow> mwcas_metrics checked" where
  "Sum_loop [] s acc = Inr acc"
| "Sum_loop (i # is) s acc =
     bind_checked (load_object (of_nat i) s) (\<lambda>p. case p of
       None \<Rightarrow> Inl ''null metrics'' | Some q \<Rightarrow> Sum_loop is s (metrics_plus acc (heap s ! q)))"

definition Sum :: "msys \<Rightarrow> mwcas_metrics \<Rightarrow> mwcas_metrics checked" where
  "Sum s acc = (if enabled s then Sum_loop [0 ..< unat (next_free_object s)] s acc else Inr acc)"

section \<open>Histories\<close>

datatype mevent = Start | Stop | ThreadInit nat | Count counter nat

fun mrun :: "mevent list \<Rightarrow> msys \<Rightarrow> msys checked" where
  "mrun [] s = Inr s"
| "mrun (Start # es) s = bind_checked (Metrics_Initialize True s) (\<lambda>(_, s1). mrun es s1)"
| "mrun (Stop # es) s = mrun es (destroy_BaseDescriptorPool s)"
| "mrun (ThreadInit t # es) s = bind_checked (ThreadInitialize True t s) (\<lambda>(_, s1). mrun es s1)"
| "mrun (Count c t # es) s = bind_checked (Add c t s) (mrun es)"

text \<open>What an observer counts, and the use the class asks for: every thread initializes once before it counts, within the array.\<close>

fun tally :: "mevent list \<Rightarrow> mwcas_metrics" where
  "tally [] = new_MwCASMetrics"
| "tally (Count c t # es) = bump c (tally es)"
| "tally (_ # es) = tally es"

fun proper :: "nat list \<Rightarrow> mevent list \<Rightarrow> bool" where
  "proper ts [] = True"
| "proper ts (ThreadInit t # es) \<longleftrightarrow> t \<notin> set ts \<and> length ts < 80 \<and> proper (ts @ [t]) es"
| "proper ts (Count c t # es) \<longleftrightarrow> t \<in> set ts \<and> proper ts es"
| "proper ts (_ # es) = False"

lemma bump_plus [simp]: "metrics_plus (bump c a) b = bump c (metrics_plus a b)" "metrics_plus a (bump c b) = bump c (metrics_plus a b)"
  by (cases c; simp add: metrics_plus_def algebra_simps)+

lemma plus_new [simp]: "metrics_plus a new_MwCASMetrics = a"
  by (simp add: metrics_plus_def new_MwCASMetrics_def)

theorem metrics_minus_plus: "metrics_minus (metrics_plus a b) b = a"
  by (simp add: metrics_plus_def metrics_minus_def)

lemma foldl_bump: "foldl metrics_plus (bump c a) ms = bump c (foldl metrics_plus a ms)"
  by (induction ms arbitrary: a) auto

lemma foldl_update: "i < length ms \<Longrightarrow> foldl metrics_plus a (ms[i := bump c (ms ! i)]) = bump c (foldl metrics_plus a ms)"
proof (induction ms arbitrary: a i)
  case Nil
  then show ?case by simp
next
  case (Cons m ms)
  then show ?case by (cases i) (simp_all add: foldl_bump)
qed

text \<open>The state when the threads of \<open>ts\<close> have initialized, in this order.\<close>

definition kept :: "nat list \<Rightarrow> msys \<Rightarrow> bool" where
  "kept ts s \<longleftrightarrow> enabled s \<and> core_count s = 80 \<and> length ts \<le> 80 \<and> distinct ts \<and> length (heap s) = length ts \<and>
     next_free_object s = of_nat (length ts) \<and>
     (\<forall>t. t \<notin> set ts \<longrightarrow> my_idx s t = None) \<and> (\<forall>i < length ts. my_idx s (ts ! i) = Some (of_nat i)) \<and>
     (\<exists>os. objects s = Some os \<and> length os = 80 \<and> (\<forall>i < length ts. os ! i = Some i))"

lemma unat_small: "i \<le> 80 \<Longrightarrow> unat (of_nat i :: u32) = i"
  by (simp add: unat_of_nat)

lemma kept_init:
  assumes "kept ts s" and "t \<notin> set ts" and "length ts < 80"
  shows "\<exists>s'. ThreadInitialize True t s = Inr (kOk, s') \<and> kept (ts @ [t]) s' \<and> heap s' = heap s @ [new_MwCASMetrics]"
proof -
  obtain os where os: "objects s = Some os" "length os = 80" "\<forall>i < length ts. os ! i = Some i" using assms(1) by (auto simp: kept_def)
  have n: "next_free_object s = of_nat (length ts)" "unat (of_nat (length ts) :: u32) = length ts" "my_idx s t = None" "enabled s"
    "length (heap s) = length ts"
    using assms by (auto simp: kept_def unat_small)
  let ?s = "s\<lparr>heap := heap s @ [new_MwCASMetrics], next_free_object := of_nat (length ts) + 1, my_idx := (my_idx s)(t \<mapsto> of_nat (length ts)),
    objects := Some (os[length ts := Some (length ts)])\<rparr>"
  have "ThreadInitialize True t s = Inr (kOk, ?s)"
    using n os assms(3) by (simp add: ThreadInitialize_def MyObject_def store_object_def bind_checked_def Let_def)
  moreover have "kept (ts @ [t]) ?s"
    using assms os n by (auto simp: kept_def nth_append nth_list_update less_Suc_eq)
  ultimately show ?thesis by (intro exI [of _ ?s]) simp
qed

lemma kept_add:
  assumes "kept ts s" and "t \<in> set ts"
  shows "\<exists>s'. Add c t s = Inr s' \<and> kept ts s' \<and> (\<exists>i < length (heap s). heap s' = (heap s)[i := bump c (heap s ! i)])"
proof -
  obtain i where i: "i < length ts" "t = ts ! i" using assms(2) by (auto simp: in_set_conv_nth)
  obtain os where os: "objects s = Some os" "length os = 80" "os ! i = Some i" using assms(1) i by (auto simp: kept_def)
  have n: "my_idx s t = Some (of_nat i)" "unat (of_nat i :: u32) = i" "enabled s" "core_count s = 80" "length (heap s) = length ts" "i < 80"
    using assms i by (auto simp: kept_def unat_small)
  have "of_nat i \<le> (79 :: u32)" using n(2,6) by (simp add: word_le_nat_alt)
  then have "Add c t s = Inr (s\<lparr>heap := (heap s)[i := bump c (heap s ! i)]\<rparr>)"
    using n os by (simp add: Add_def MyMetric_def MyObject_def load_object_def bind_checked_def Let_def)
  moreover have "kept ts (s\<lparr>heap := (heap s)[i := bump c (heap s ! i)]\<rparr>)" using assms(1) by (simp add: kept_def)
  ultimately show ?thesis using i n(5) by (intro exI conjI) auto
qed

lemma Sum_kept:
  assumes "kept ts s"
  shows "Sum s a = Inr (foldl metrics_plus a (heap s))"
proof -
  obtain os where os: "objects s = Some os" "length os = 80" "\<forall>i < length ts. os ! i = Some i" using assms by (auto simp: kept_def)
  have n: "unat (next_free_object s) = length ts" "length (heap s) = length ts" "length ts \<le> 80" "enabled s"
    using assms by (auto simp: kept_def unat_small)
  have "k \<le> length ts \<Longrightarrow> Sum_loop [k ..< length ts] s a = Inr (foldl metrics_plus a (drop k (heap s)))" for k
  proof (induction "length ts - k" arbitrary: k a)
    case 0
    then show ?case using n by simp
  next
    case (Suc j)
    then have k: "k < length ts" "unat (of_nat k :: u32) = k" using n by (auto simp: unat_small)
    then have "load_object (of_nat k) s = Inr (Some k)" using os n(3) by (simp add: load_object_def)
    moreover have "[k ..< length ts] = k # [Suc k ..< length ts]" using k(1) by (rule upt_conv_Cons)
    moreover have "drop k (heap s) = heap s ! k # drop (Suc k) (heap s)" using k(1) n(2) by (simp add: Cons_nth_drop_Suc)
    ultimately show ?case using Suc(1) [of "Suc k"] Suc(2) k(1) by (simp add: bind_checked_def)
  qed
  from this [of 0] show ?thesis using n by (simp add: Sum_def)
qed


lemma mrun_kept:
  "kept ts s \<Longrightarrow> proper ts es \<Longrightarrow> \<exists>s' ts'. mrun es s = Inr s' \<and> kept ts' s' \<and>
    foldl metrics_plus a (heap s') = foldl metrics_plus (metrics_plus a (tally es)) (heap s)"
proof (induction ts es arbitrary: s rule: proper.induct)
  case (1 ts)
  then show ?case by auto
next
  case (2 ts t es)
  then obtain s1 where s1: "ThreadInitialize True t s = Inr (kOk, s1)" "kept (ts @ [t]) s1" "heap s1 = heap s @ [new_MwCASMetrics]"
    using kept_init [of ts s t] by auto
  show ?case using 2(1) [OF s1(2)] 2(3) s1(1,3) by auto
next
  case (3 ts c t es)
  then obtain s1 i where s1: "Add c t s = Inr s1" "kept ts s1" "i < length (heap s)" "heap s1 = (heap s)[i := bump c (heap s ! i)]"
    using kept_add [of ts s t c] by auto
  show ?case using 3(1) [OF s1(2)] 3(3) s1 by (auto simp: foldl_update foldl_bump)
qed auto

lemma kept_start: "\<exists>s. Metrics_Initialize True (new_msys True) = Inr (kOk, s) \<and> kept [] s \<and> heap s = []"
  by (simp add: Metrics_Initialize_def CoreLocal_Initialize_def new_msys_def kept_def Let_def)

text \<open>
  C37: The sum of the counters is exact. After the start of the metrics, however many threads (80 at most) initialize themselves once
  and count in any order afterwards, nothing fails, and \<open>Sum\<close> has in each of its seven fields the number of
  events counted by all threads, modulo \<open>2^64\<close>.
\<close>

theorem metrics_sum_exact:
  assumes "proper [] es"
  shows "\<exists>s. mrun (Start # es) (new_msys True) = Inr s \<and> Sum s new_MwCASMetrics = Inr (tally es)"
proof -
  obtain s0 where s0: "Metrics_Initialize True (new_msys True) = Inr (kOk, s0)" "kept [] s0" "heap s0 = []" using kept_start by blast
  obtain s ts where s: "mrun es s0 = Inr s" "kept ts s"
    "foldl metrics_plus new_MwCASMetrics (heap s) = foldl metrics_plus (metrics_plus new_MwCASMetrics (tally es)) (heap s0)"
    using mrun_kept [OF s0(2) assms] by blast
  have "metrics_plus new_MwCASMetrics m = m" for m by (simp add: metrics_plus_def new_MwCASMetrics_def)
  then show ?thesis using s0 s Sum_kept [OF s(2)] by (intro exI [of _ s]) simp
qed

theorem metrics_sum_exact_witness:
  "\<exists>s. mrun [Start, ThreadInit 4, Count Read 4, ThreadInit 9, Count SucceededUpdate 9, Count Read 9] (new_msys True) = Inr s \<and>
    Sum s new_MwCASMetrics = Inr (new_MwCASMetrics\<lparr>read_count := 2, succeeded_update_count := 1\<rparr>)"
  using metrics_sum_exact [of "[ThreadInit 4, Count Read 4, ThreadInit 9, Count SucceededUpdate 9, Count Read 9]"]
  by (simp add: new_MwCASMetrics_def)

text \<open>
  The array has room for 80 threads only. \<open>MyObject\<close> compares the index of a thread with the size of the array on later calls but not
  when it hands the index out: of 81 different threads that initialize, the last writes outside the array.
\<close>

theorem metrics_array_overrun:
  assumes "distinct ts" and "length ts = 80" and "t \<notin> set ts"
  shows "mrun (Start # map ThreadInit ts @ [ThreadInit t]) (new_msys True) = Inl ''out of bounds''"
proof -
  obtain s0 where s0: "Metrics_Initialize True (new_msys True) = Inr (kOk, s0)" "kept [] s0" using kept_start by blast
  have run: "\<exists>s'. mrun (map ThreadInit us @ es) s = mrun es s' \<and> kept (vs @ us) s'"
    if "kept vs s" "distinct (vs @ us)" "length (vs @ us) \<le> 80" for us vs es s
    using that
  proof (induction us arbitrary: vs s)
    case Nil
    then show ?case by auto
  next
    case (Cons u us)
    then obtain s1 where s1: "ThreadInitialize True u s = Inr (kOk, s1)" "kept (vs @ [u]) s1" using kept_init [of vs s u] by auto
    then show ?case using Cons.IH [OF s1(2)] Cons.prems by auto
  qed
  obtain s where s: "mrun (map ThreadInit ts @ [ThreadInit t]) s0 = mrun [ThreadInit t] s" "kept ts s"
    using run [OF s0(2), of ts "[ThreadInit t]"] assms by auto
  obtain os where os: "objects s = Some os" "length os = 80" using s(2) by (auto simp: kept_def)
  have "next_free_object s = 80" "my_idx s t = None" "enabled s" using s(2) assms by (auto simp: kept_def)
  then have "mrun [ThreadInit t] s = Inl ''out of bounds''"
    using os by (simp add: ThreadInitialize_def MyObject_def store_object_def Let_def)
  then show ?thesis using s0(1) s(1) by simp
qed

theorem metrics_array_overrun_witness:
  "mrun (Start # map ThreadInit [0 ..< 80] @ [ThreadInit 80]) (new_msys True) = Inl ''out of bounds''"
  by (rule metrics_array_overrun) simp_all

text \<open>
  A restart mixes threads up. \<open>Uninitialize\<close> makes the array start again at index 0, but a thread keeps the index it got before: after
  a restart a new thread and an old one have the same entry, and what the new thread counted is lost from the sum.
\<close>

theorem metrics_restart_loses_counts:
  "\<exists>s. mrun [Start, ThreadInit 0, Stop, Start, ThreadInit 1, Count Read 1, ThreadInit 0] (new_msys True) = Inr s \<and>
    Sum s new_MwCASMetrics = Inr new_MwCASMetrics \<and>
    tally [Start, ThreadInit 0, Stop, Start, ThreadInit 1, Count Read 1, ThreadInit 0] = new_MwCASMetrics\<lparr>read_count := 1\<rparr>"
  by (simp add: Metrics_Initialize_def CoreLocal_Initialize_def destroy_BaseDescriptorPool_def Metrics_Uninitialize_def CoreLocal_Uninitialize_def new_msys_def Let_def
      ThreadInitialize_def MyObject_def store_object_def Add_def MyMetric_def load_object_def Sum_def new_MwCASMetrics_def metrics_plus_def
      nth_list_update)

end
