(* ===== verification/Library.thy ===== *)
theory Library
  imports Status
begin

text \<open>
  The library-wide objects (\<open>src/src/common/allocator_internal.h\<close>, \<open>.cc\<close>, \<open>environment_internal.h\<close>, \<open>.cc\<close>, \<open>pmwcas_internal.cc\<close>)
  and the registry of thread-local variables in class \<open>Thread\<close>. The functions that create the allocator and the
  environment are parameters: a function from the state of the world to a status code, the object and the new state.
\<close>

section \<open>Allocator and environment\<close>

text \<open>\<open>None\<close> is a null \<open>unique_ptr\<close>; \<open>destroyed\<close> has the objects given to their destroy functions, oldest first.\<close>

datatype 'a owned = AnAllocator 'a | AnEnvironment 'a

record ('w, 'a) library =
  world :: 'w
  lib_allocator :: "'a option"
  lib_environment :: "'a option"
  destroyed :: "'a owned list"

type_synonym ('w, 'a) create = "'w \<Rightarrow> code \<times> 'a \<times> 'w"

definition Allocator_Initialize :: "('w, 'a) create \<Rightarrow> ('w, 'a) library \<Rightarrow> code \<times> ('w, 'a) library" where
  "Allocator_Initialize create l =
     (if lib_allocator l \<noteq> None then (kCorruption, l)
      else case create (world l) of
        (c, x, w) \<Rightarrow> if c \<noteq> kOk then (c, l\<lparr>world := w\<rparr>) else (kOk, l\<lparr>world := w, lib_allocator := Some x\<rparr>))"

definition Environment_Initialize :: "('w, 'a) create \<Rightarrow> ('w, 'a) library \<Rightarrow> code \<times> ('w, 'a) library" where
  "Environment_Initialize create l =
     (if lib_environment l \<noteq> None then (kCorruption, l)
      else case create (world l) of
        (c, x, w) \<Rightarrow> if c \<noteq> kOk then (c, l\<lparr>world := w\<rparr>) else (kOk, l\<lparr>world := w, lib_environment := Some x\<rparr>))"

definition Allocator_Uninitialize :: "('w, 'a) library \<Rightarrow> ('w, 'a) library" where
  "Allocator_Uninitialize l = (case lib_allocator l of None \<Rightarrow> l
     | Some x \<Rightarrow> l\<lparr>lib_allocator := None, destroyed := destroyed l @ [AnAllocator x]\<rparr>)"

definition Environment_Uninitialize :: "('w, 'a) library \<Rightarrow> ('w, 'a) library" where
  "Environment_Uninitialize l = (case lib_environment l of None \<Rightarrow> l
     | Some x \<Rightarrow> l\<lparr>lib_environment := None, destroyed := destroyed l @ [AnEnvironment x]\<rparr>)"

definition InitLibrary_allocator :: "('w, 'a) create \<Rightarrow> ('w, 'a) library \<Rightarrow> code \<times> ('w, 'a) library" where
  "InitLibrary_allocator create_allocator l = Allocator_Initialize create_allocator l"

definition InitLibrary :: "('w, 'a) create \<Rightarrow> ('w, 'a) create \<Rightarrow> ('w, 'a) library \<Rightarrow> code \<times> ('w, 'a) library" where
  "InitLibrary create_allocator create_environment l =
     (case Allocator_Initialize create_allocator l of
        (c, l1) \<Rightarrow> if c \<noteq> kOk then (c, l1) else Environment_Initialize create_environment l1)"

definition UninitLibrary :: "('w, 'a) library \<Rightarrow> ('w, 'a) library" where
  "UninitLibrary l = Allocator_Uninitialize (Environment_Uninitialize l)"

lemmas library_defs = InitLibrary_def InitLibrary_allocator_def UninitLibrary_def Allocator_Initialize_def Environment_Initialize_def
  Allocator_Uninitialize_def Environment_Uninitialize_def

text \<open>
  The library starts at most once, and a stop undoes a start. From an empty library, \<open>InitLibrary\<close> succeeds exactly if both create
  functions do, and then both objects are there; a second start fails with \<open>Corruption\<close> and changes nothing; and
  stopping destroys the environment first and then the allocator, each once. If only the environment fails, the
  allocator stays, so that another start fails without \<open>UninitLibrary\<close>.
\<close>

theorem library_lifecycle:
  assumes "lib_allocator l = None" and "lib_environment l = None" and "ca (world l) = (c1, x, w1)" and "ce w1 = (c2, y, w2)"
    and "InitLibrary ca ce l = (c, l')"
  shows "c = (if c1 \<noteq> kOk then c1 else c2) \<and>
    (c = kOk \<longrightarrow> lib_allocator l' = Some x \<and> lib_environment l' = Some y \<and> InitLibrary ca ce l' = (kCorruption, l') \<and>
       UninitLibrary l' = l\<lparr>world := w2, destroyed := destroyed l @ [AnEnvironment y, AnAllocator x]\<rparr>) \<and>
    (c1 = kOk \<and> c2 \<noteq> kOk \<longrightarrow> lib_allocator l' = Some x \<and> lib_environment l' = None \<and> InitLibrary ca ce l' = (kCorruption, l')) \<and>
    (c1 \<noteq> kOk \<longrightarrow> l' = l\<lparr>world := w1\<rparr>)"
  using assms by (auto simp: library_defs split: if_splits)

theorem library_lifecycle_witness:
  "\<exists>l'. InitLibrary (\<lambda>n. (kOk, n, n + 1)) (\<lambda>n. (kOk, n, n + 1))
      \<lparr>world = 5 :: nat, lib_allocator = None, lib_environment = None, destroyed = []\<rparr> = (kOk, l') \<and>
    UninitLibrary l' = \<lparr>world = 7, lib_allocator = None, lib_environment = None, destroyed = [AnEnvironment 6, AnAllocator 5]\<rparr>"
proof -
  let ?l = "\<lparr>world = 5 :: nat, lib_allocator = None, lib_environment = None, destroyed = []\<rparr>" and ?c = "\<lambda>n :: nat. (kOk, n, n + 1)"
  obtain c l' where i: "InitLibrary ?c ?c ?l = (c, l')" by fastforce
  then show ?thesis using library_lifecycle [of ?l ?c kOk 5 6 ?c kOk 6 7 c l'] by simp
qed

section \<open>Thread-local variables\<close>

text \<open>
  Thread ids are numbers, 0 the id of a \<open>std::thread\<close> that is not joinable. \<open>registry\<close> is an association list in the order in which
  the \<open>unordered_map\<close> is walked; \<open>tls_vars\<close> are the variables at their addresses.
\<close>

type_synonym tls_list = "(u64 \<times> u64) list"

record tsys =
  registry :: "(nat \<times> tls_list) list"
  tls_vars :: "u64 \<Rightarrow> u64"

definition RegisterTls :: "nat \<Rightarrow> u64 \<Rightarrow> u64 \<Rightarrow> tsys \<Rightarrow> tsys" where
  "RegisterTls this_id ptr val s =
     (let r = (if map_of (registry s) this_id = None then (this_id, []) # registry s else registry s) in
      s\<lparr>registry := map (\<lambda>(i, l). (i, if i = this_id then l @ [(ptr, val)] else l)) r\<rparr>)"

fun reset_list :: "tls_list \<Rightarrow> (u64 \<Rightarrow> u64) \<Rightarrow> u64 \<Rightarrow> u64" where
  "reset_list [] m = m"
| "reset_list ((ptr, val) # l) m = reset_list l (m(ptr := val))"

definition ClearTls :: "nat \<Rightarrow> bool \<Rightarrow> tsys \<Rightarrow> tsys" where
  "ClearTls tid destroy s =
     (case map_of (registry s) tid of
        None \<Rightarrow> s
      | Some l \<Rightarrow> s\<lparr>tls_vars := reset_list l (tls_vars s),
          registry := (if destroy then filter (\<lambda>(i, _). i \<noteq> tid) (registry s)
                        else map (\<lambda>(i, l). (i, if i = tid then [] else l)) (registry s))\<rparr>)"

definition ClearRegistry :: "bool \<Rightarrow> tsys \<Rightarrow> tsys" where
  "ClearRegistry destroy s =
     s\<lparr>tls_vars := fold (\<lambda>(_, l). reset_list l) (registry s) (tls_vars s),
       registry := (if destroy then [] else map (\<lambda>(i, _). (i, [])) (registry s))\<rparr>"

text \<open>\<open>std::thread::join\<close> leaves the thread object with the id 0; \<open>Thread::join\<close> looks at the id after it.\<close>

definition Thread_join :: "nat \<Rightarrow> tsys \<Rightarrow> (nat \<times> tsys) checked" where
  "Thread_join tid s = (if tid = 0 then Inl ''not joinable'' else let tid' = 0 in Inr (tid', ClearTls tid' False s))"

definition Thread_destructor :: "nat \<Rightarrow> tsys \<Rightarrow> tsys checked" where
  "Thread_destructor tid s = (let s' = ClearTls tid True s in if tid \<noteq> 0 then Inl ''terminate'' else Inr s')"

definition registered :: "tsys \<Rightarrow> (nat \<times> u64 \<times> u64) set" where
  "registered s = {(i, p, v). \<exists>l. (i, l) \<in> set (registry s) \<and> (p, v) \<in> set l}"

text \<open>What the class keeps: ids of running threads only, each once.\<close>

definition registry_ok :: "tsys \<Rightarrow> bool" where
  "registry_ok s \<longleftrightarrow> distinct (map fst (registry s)) \<and> 0 \<notin> fst ` set (registry s)"

inductive tstep :: "tsys \<Rightarrow> tsys \<Rightarrow> bool" where
  register: "i \<noteq> 0 \<Longrightarrow> tstep s (RegisterTls i p v s)"
| assign: "tstep s (s\<lparr>tls_vars := (tls_vars s)(p := v)\<rparr>)"
| join: "Thread_join i s = Inr (i', s') \<Longrightarrow> tstep s s'"
| destruct: "Thread_destructor i s = Inr s' \<Longrightarrow> tstep s s'"
| clear: "tstep s (ClearRegistry destroy s)"


lemma registered_iff: "(i, p, v) \<in> registered s \<longleftrightarrow> (\<exists>l. (i, l) \<in> set (registry s) \<and> (p, v) \<in> set l)"
  by (simp add: registered_def)

lemma registered_RegisterTls: "registered (RegisterTls i p v s) = insert (i, p, v) (registered s)"
proof -
  let ?r = "if map_of (registry s) i = None then (i, []) # registry s else registry s"
  have r: "registry (RegisterTls i p v s) = map (\<lambda>(j, l). (j, if j = i then l @ [(p, v)] else l)) ?r" by (simp add: RegisterTls_def Let_def)
  have ex: "\<exists>l. (i, l) \<in> set ?r" using map_of_SomeD [of "registry s" i] by (cases "map_of (registry s) i") auto
  have old: "(\<exists>l. (j, l) \<in> set ?r \<and> x \<in> set l) \<longleftrightarrow> (\<exists>l. (j, l) \<in> set (registry s) \<and> x \<in> set l)" for j and x :: "u64 \<times> u64" by auto
  have "(j, q, w) \<in> registered (RegisterTls i p v s) \<longleftrightarrow> (j, q, w) = (i, p, v) \<or> (j, q, w) \<in> registered s" for j q w
  proof -
    have "(j, q, w) \<in> registered (RegisterTls i p v s) \<longleftrightarrow>
        (\<exists>l. (j, l) \<in> set ?r \<and> (q, w) \<in> set (if j = i then l @ [(p, v)] else l))" unfolding registered_iff r by auto
    also have "\<dots> \<longleftrightarrow> (j, q, w) = (i, p, v) \<or> (\<exists>l. (j, l) \<in> set ?r \<and> (q, w) \<in> set l)" using ex by (cases "j = i") auto
    finally show ?thesis unfolding old registered_iff .
  qed
  then show ?thesis by auto
qed

lemma reset_list_map_of: "reset_list l m p = (case map_of (rev l) p of None \<Rightarrow> m p | Some v \<Rightarrow> v)"
proof (induction l arbitrary: m)
  case (Cons a l)
  then show ?case by (cases a) (simp add: map_add_def split: option.split)
qed simp

lemma reset_list_append: "reset_list (l @ l') m = reset_list l' (reset_list l m)"
proof (induction l arbitrary: m)
  case (Cons a l)
  then show ?case by (cases a) (simp add: fun_upd_def)
qed simp

lemma fold_reset: "fold (\<lambda>(_, l). reset_list l) r m = reset_list (concat (map snd r)) m"
  by (induction r arbitrary: m) (auto simp: reset_list_append)

lemma registered_concat: "(p, v) \<in> set (concat (map snd (registry s))) \<longleftrightarrow> (\<exists>i. (i, p, v) \<in> registered s)"
  unfolding registered_iff by force

lemma ClearRegistry_vars: "tls_vars (ClearRegistry d s) p = (case map_of (rev (concat (map snd (registry s)))) p of None \<Rightarrow> tls_vars s p | Some v \<Rightarrow> v)"
  by (simp add: ClearRegistry_def fold_reset reset_list_map_of)

text \<open>
  \<open>ClearRegistry\<close> leaves no registered value behind. If all registrations of a variable name the same value, whatever the order in which the
  map is walked every registered variable gets that value, no other variable changes, and
  nothing is registered any more; a registration adds exactly itself.
\<close>

theorem clear_registry_resets:
  assumes "\<forall>(i, p, v) \<in> registered s. \<forall>(j, q, w) \<in> registered s. p = q \<longrightarrow> v = w"
  shows "(\<forall>(i, p, v) \<in> registered s. tls_vars (ClearRegistry d s) p = v) \<and>
    (\<forall>p. (\<nexists>i v. (i, p, v) \<in> registered s) \<longrightarrow> tls_vars (ClearRegistry d s) p = tls_vars s p) \<and>
    registered (ClearRegistry d s) = {} \<and> registered (RegisterTls k x y s) = insert (k, x, y) (registered s)"
proof (intro conjI allI impI)
  let ?c = "rev (concat (map snd (registry s)))"
  have c: "(p, v) \<in> set ?c \<longleftrightarrow> (\<exists>i. (i, p, v) \<in> registered s)" for p v unfolding set_rev by (rule registered_concat)
  show "\<forall>(i, p, v) \<in> registered s. tls_vars (ClearRegistry d s) p = v"
  proof clarify
    fix i p v
    assume r: "(i, p, v) \<in> registered s"
    then have "(p, v) \<in> set ?c" using c by blast
    then have "p \<in> fst ` set ?c" by (rule rev_image_eqI) simp
    then have "map_of ?c p \<noteq> None" unfolding map_of_eq_None_iff by blast
    then obtain w where w: "map_of ?c p = Some w" by blast
    then obtain j where "(j, p, w) \<in> registered s" using map_of_SomeD [of ?c p w] c by blast
    then have "w = v" using assms r by fastforce
    then show "tls_vars (ClearRegistry d s) p = v" using w by (simp add: ClearRegistry_vars)
  qed
  show "tls_vars (ClearRegistry d s) p = tls_vars s p" if "\<nexists>i v. (i, p, v) \<in> registered s" for p
  proof -
    have "map_of ?c p = None" using that c map_of_SomeD [of ?c p] by (cases "map_of ?c p") blast+
    then show ?thesis by (simp add: ClearRegistry_vars)
  qed
  show "registered (ClearRegistry d s) = {}" by (auto simp: registered_def ClearRegistry_def)
  show "registered (RegisterTls k x y s) = insert (k, x, y) (registered s)" by (rule registered_RegisterTls)
qed

lemma registered_empty: "registered \<lparr>registry = [], tls_vars = m\<rparr> = {}"
  by (simp add: registered_def)

theorem clear_registry_resets_witness:
  "tls_vars (ClearRegistry True (RegisterTls 3 64 0 \<lparr>registry = [], tls_vars = (\<lambda>_. 7)\<rparr>)) 64 = 0"
proof -
  let ?s = "RegisterTls 3 64 0 \<lparr>registry = [], tls_vars = (\<lambda>_. 7)\<rparr>"
  have r: "registered ?s = {(3, 64, 0)}" by (simp add: registered_RegisterTls registered_empty)
  show ?thesis using clear_registry_resets [of ?s True] unfolding r by simp
qed

lemma tstep_ok: "tstep s s' \<Longrightarrow> registry_ok s \<Longrightarrow> registry_ok s'"
proof (induction rule: tstep.induct)
  case (register i s p v)
  then show ?case
    by (auto simp: RegisterTls_def registry_ok_def map_of_eq_None_iff comp_def case_prod_unfold image_image)
next
  case (join i s i' s')
  then have "map_of (registry s) 0 = None" by (simp add: registry_ok_def map_of_eq_None_iff)
  then have "s' = s" using join(1) by (auto simp: Thread_join_def ClearTls_def Let_def split: if_splits)
  then show ?case using join by simp
next
  case (destruct i s s')
  then have "map_of (registry s) 0 = None" by (simp add: registry_ok_def map_of_eq_None_iff)
  then have "s' = s" using destruct(1) by (auto simp: Thread_destructor_def ClearTls_def Let_def split: if_splits)
  then show ?case using destruct by simp
qed (auto simp: registry_ok_def ClearRegistry_def comp_def case_prod_unfold image_image)

text \<open>
  C38: Joining a thread resets nothing. \<open>Thread::join\<close> and the destructor look up the id of the thread object after \<open>std::thread::join\<close> has
  cleared it, and no thread registers under that id: in every reachable state they leave the variables and the
  registry of the joined thread as they are.
\<close>

theorem join_resets_nothing:
  assumes "tstep\<^sup>*\<^sup>* \<lparr>registry = [], tls_vars = m\<rparr> s" and "i \<noteq> 0"
  shows "Thread_join i s = Inr (0, s) \<and> Thread_destructor 0 s = Inr s"
proof -
  have "registry_ok s" using assms(1)
  proof (induction rule: rtranclp_induct)
    case base
    then show ?case by (simp add: registry_ok_def)
  next
    case (step s s')
    then show ?case using tstep_ok by blast
  qed
  then have "map_of (registry s) 0 = None" by (simp add: registry_ok_def map_of_eq_None_iff)
  then show ?thesis using assms(2) by (simp add: Thread_join_def Thread_destructor_def ClearTls_def)
qed

theorem join_resets_nothing_witness:
  "\<exists>s. registered s = {(3, 64, 0)} \<and> tls_vars s 64 = 7 \<and> Thread_join 3 s = Inr (0, s)"
proof -
  let ?s = "RegisterTls 3 64 0 \<lparr>registry = [], tls_vars = (\<lambda>_. 7)\<rparr>"
  have "tstep\<^sup>*\<^sup>* \<lparr>registry = [], tls_vars = (\<lambda>_. 7)\<rparr> ?s" by (intro r_into_rtranclp tstep.register) simp
  moreover have "registered ?s = {(3, 64, 0)}" by (simp add: registered_RegisterTls registered_empty)
  moreover have "tls_vars ?s 64 = 7" by (simp add: RegisterTls_def)
  ultimately show ?thesis using join_resets_nothing [of "\<lambda>_. 7" ?s 3] by auto
qed

end
