(* ===== verification/Affinity.thy ===== *)
theory Affinity
  imports Status
begin

text \<open>
  \<open>LinuxEnvironment::SetThreadAffinity\<close> (\<open>src/src/environment/environment_linux.cc\<close>): the core a thread is bound to for each pattern, at the widths of
  the code (\<open>uint64_t\<close> cores, \<open>uint32_t\<close> intermediate values). The number of cores and the answer of the operating system are
  arguments.
\<close>

definition balance_numa_nodes :: "u32 \<Rightarrow> u64 \<Rightarrow> u64 checked" where
  "balance_numa_nodes core_count core =
     (if core_count mod 4 \<noteq> 0 then Inl ''Unexpected system configuration!''
      else let logical_core_count = core_count div 4 in
      if logical_core_count mod 2 \<noteq> 0 then Inl ''Unexpected system configuration!''
      else let physical_core_count = logical_core_count div 2;
          numa_node = ucast (core mod 4) :: u32; numa_core = ucast (core div 4) :: u32;
          numa_core' = (if numa_core < physical_core_count then numa_core * 2
                        else (numa_core - physical_core_count) * 2 + 1)
      in Inr (ucast (numa_node * logical_core_count + numa_core')))"

text \<open>The switch of pattern 4; its default label is misspelt, so that another core is left as it is.\<close>

definition crossfire :: "u64 \<Rightarrow> u64" where
  "crossfire core =
     (if core < 24 then [0, 4, 8, 12, 16, 20, 1, 5, 9, 13, 17, 21, 2, 6, 10, 14, 18, 22, 3, 7, 11, 15, 19, 23] ! unat core
      else core)"

definition spread :: "u64 \<Rightarrow> u64" where
  "spread orig_core =
     (let core = (if orig_core \<ge> 32 then orig_core - 32 else orig_core);
          pcore = ucast ((core mod 4) * 8 + core div 4) :: u32
      in ucast (if orig_core \<ge> 32 then pcore + 32 else pcore))"

definition affinity_core :: "nat \<Rightarrow> u32 \<Rightarrow> u64 \<Rightarrow> u64 checked" where
  "affinity_core affinity_pattern core_count core =
     (if affinity_pattern = 3 then balance_numa_nodes core_count core
      else if affinity_pattern = 4 then Inr (crossfire core)
      else if affinity_pattern = 5 then Inr (spread core)
      else if core_count = 0 then Inl ''division by zero''
      else Inr (core mod ucast core_count))"

definition SetThreadAffinity :: "(u64 \<Rightarrow> bool) \<Rightarrow> nat \<Rightarrow> u32 \<Rightarrow> u64 \<Rightarrow> code checked" where
  "SetThreadAffinity setaffinity affinity_pattern core_count core =
     bind_checked (affinity_core affinity_pattern core_count core) (\<lambda>c. Inr (if setaffinity c then kOk else kAborted))"

text \<open>The cores for which a pattern is meant.\<close>

definition cores_of :: "nat \<Rightarrow> u32 \<Rightarrow> nat" where
  "cores_of affinity_pattern core_count = (if affinity_pattern = 4 then 24 else if affinity_pattern = 5 then 64 else unat core_count)"

section \<open>The patterns are permutations\<close>

definition interleave :: "nat \<Rightarrow> nat \<Rightarrow> nat" where
  "interleave P a = (if a < P then 2 * a else 2 * (a - P) + 1)"

lemma interleave_less: "a < 2 * P \<Longrightarrow> interleave P a < 2 * P"
  by (auto simp: interleave_def)

lemma interleave_inj: "a < 2 * P \<Longrightarrow> b < 2 * P \<Longrightarrow> interleave P a = interleave P b \<Longrightarrow> a = b"
  by (auto simp: interleave_def split: if_splits) presburger+

lemma place_inj:
  fixes L :: nat
  assumes "x mod 4 * L + u = y mod 4 * L + v" and "u < L" "v < L"
  shows "x mod 4 = y mod 4 \<and> u = v"
proof -
  have "(x mod 4 * L + u) div L = x mod 4" "(y mod 4 * L + v) div L = y mod 4" using assms(2,3) by auto
  then show ?thesis using assms(1) by (metis add_left_cancel)
qed

lemma unat_widen: "unat (ucast (w :: u32) :: u64) = unat w"
proof -
  have "unat w < 2 ^ 32" using unsigned_less [of w, where ?'a = nat] by simp
  then show ?thesis by (simp add: unsigned_ucast_eq take_bit_eq_mod)
qed

lemma unat_narrow: "unat (w :: u64) < 2 ^ 32 \<Longrightarrow> unat (ucast w :: u32) = unat w"
  by (simp add: unsigned_ucast_eq take_bit_eq_mod)

lemma unat_double: "unat (w :: u32) < 2 ^ 31 \<Longrightarrow> unat (w * 2) = 2 * unat w \<and> unat (w * 2 + 1) = 2 * unat w + 1"
  by (simp add: unat_word_ariths)

lemma balance_nat:
  assumes "unat cc = 8 * P" and "unat core < 8 * P"
  shows "\<exists>r. balance_numa_nodes cc core = Inr r \<and> unat r = unat core mod 4 * (2 * P) + interleave P (unat core div 4)"
proof -
  let ?x = "unat core"
  have P: "8 * P < 2 ^ 32"
  proof -
    have "unat cc < 2 ^ 32" using unsigned_less [of cc, where ?'a = nat] by simp
    then show ?thesis using assms(1) by simp
  qed
  have L: "unat (cc div 4) = 2 * P" "unat (cc div 4 div 2) = P" using assms(1) by (simp_all add: unat_div)
  have c: "cc mod 4 = 0" "cc div 4 mod 2 = 0"
  proof -
    have "unat (cc mod 4) = 0" "unat (cc div 4 mod 2) = 0" using assms(1) L by (simp_all add: unat_mod)
    then show "cc mod 4 = 0" "cc div 4 mod 2 = 0" by (simp_all only: unsigned_eq_0_iff)
  qed
  have n: "unat (ucast (core mod 4) :: u32) = ?x mod 4" "unat (ucast (core div 4) :: u32) = ?x div 4"
    using assms(2) P unat_narrow [of "core mod 4"] unat_narrow [of "core div 4"] by (simp_all add: unat_mod unat_div)
  have a: "?x div 4 < 2 * P" using assms(2) by linarith
  let ?n = "ucast (core div 4) :: u32"
  let ?i = "if ?n < cc div 4 div 2 then ?n * 2 else (?n - cc div 4 div 2) * 2 + 1"
  have i: "unat ?i = interleave P (?x div 4)"
  proof (cases "?x div 4 < P")
    case True
    then show ?thesis using n(2) L P unat_double [of ?n] by (simp add: interleave_def word_less_nat_alt)
  next
    case False
    then have "unat (?n - cc div 4 div 2) = ?x div 4 - P" using n(2) L by (simp add: unat_sub word_le_nat_alt)
    then have "unat ((?n - cc div 4 div 2) * 2 + 1) = 2 * (?x div 4 - P) + 1" using unat_double [of "?n - cc div 4 div 2"] a P by simp
    moreover have "\<not> ?n < cc div 4 div 2" using False n(2) L by (simp add: word_less_nat_alt)
    ultimately show ?thesis using False by (simp add: interleave_def)
  qed
  have "?x mod 4 * (2 * P) \<le> 3 * (2 * P)" by (intro mult_right_mono) auto
  then have b: "?x mod 4 * (2 * P) + interleave P (?x div 4) < 8 * P" using interleave_less [OF a] by linarith
  have "?x mod 4 * (2 * P) < 2 ^ 32" using b P by linarith
  then have m: "unat (ucast (core mod 4) * (cc div 4)) = ?x mod 4 * (2 * P)"
    using unat_mult_lem [of "ucast (core mod 4) :: u32" "cc div 4"] unfolding n(1) L(1) by simp
  have "?x mod 4 * (2 * P) + interleave P (?x div 4) < 2 ^ 32" using b P by linarith
  then have "unat (ucast (core mod 4) * (cc div 4) + ?i) = ?x mod 4 * (2 * P) + interleave P (?x div 4)"
    using unat_add_lem [of "ucast (core mod 4) * (cc div 4)" ?i] unfolding m i by simp
  then show ?thesis using c by (simp add: balance_numa_nodes_def Let_def unat_widen)
qed


lemma balance_permutes:
  assumes "unat cc = 8 * P" and "unat c < 8 * P" "unat d < 8 * P" and "c \<noteq> d"
  shows "\<exists>r q. balance_numa_nodes cc c = Inr r \<and> balance_numa_nodes cc d = Inr q \<and> r \<noteq> q \<and> unat r < unat cc"
proof -
  obtain r q where r: "balance_numa_nodes cc c = Inr r" "unat r = unat c mod 4 * (2 * P) + interleave P (unat c div 4)"
    "balance_numa_nodes cc d = Inr q" "unat q = unat d mod 4 * (2 * P) + interleave P (unat d div 4)"
    using balance_nat [OF assms(1,2)] balance_nat [OF assms(1,3)] by blast
  have a: "unat c div 4 < 2 * P" "unat d div 4 < 2 * P" using assms(2,3) by linarith+
  note l = interleave_less [OF a(1)] interleave_less [OF a(2)]
  have "r \<noteq> q"
  proof
    assume "r = q"
    then have "unat c mod 4 = unat d mod 4" "unat c div 4 = unat d div 4"
      using r place_inj [OF _ l, of "unat c" "unat d"] interleave_inj [OF a] by auto
    then have "unat c = unat d" by (metis div_mult_mod_eq)
    then show False using assms(4) by (simp add: word_unat_eq_iff)
  qed
  moreover have "unat c mod 4 * (2 * P) \<le> 3 * (2 * P)" by (intro mult_right_mono) auto
  then have "unat r < unat cc" using r(2) l(1) assms(1) by linarith
  ultimately show ?thesis using r by blast
qed

lemma crossfire_permutes:
  assumes "unat c < 24" "unat d < 24" "c \<noteq> d"
  shows "crossfire c \<noteq> crossfire d \<and> unat (crossfire c) < 24"
proof -
  let ?l = "[0, 4, 8, 12, 16, 20, 1, 5, 9, 13, 17, 21, 2, 6, 10, 14, 18, 22, 3, 7, 11, 15, 19, 23] :: u64 list"
  have d: "distinct ?l" "length ?l = 24" "\<forall>x \<in> set ?l. x < 24" by simp_all
  have c: "crossfire c = ?l ! unat c" "crossfire d = ?l ! unat d" using assms(1,2) by (simp_all add: crossfire_def word_less_nat_alt)
  have "?l ! unat c \<noteq> ?l ! unat d" using nth_eq_iff_index_eq [OF d(1), of "unat c" "unat d"] assms d(2) by (simp add: word_unat_eq_iff)
  moreover have "?l ! unat c \<in> set ?l" using assms(1) d(2) by (intro nth_mem) simp
  ultimately show ?thesis unfolding c using d(3) by (auto simp: word_less_nat_alt)
qed

lemma spread_nat:
  assumes "unat c < 64"
  shows "unat (spread c) = (unat c mod 32) mod 4 * 8 + (unat c mod 32) div 4 + (if unat c < 32 then 0 else 32)"
proof -
  let ?c = "if c \<ge> 32 then c - 32 else c"
  have y: "unat ?c = unat c mod 32"
  proof (cases "unat c < 32")
    case True
    then show ?thesis by (simp add: word_le_nat_alt)
  next
    case False
    have "unat c mod 32 = (unat c - 32) mod 32" by (rule le_mod_geq) (use False in simp)
    then show ?thesis using False assms by (simp add: word_le_nat_alt unat_sub)
  qed
  have b: "(unat c mod 32) mod 4 * 8 + (unat c mod 32) div 4 < 32"
  proof -
    have "(unat c mod 32) mod 4 \<le> 3" "(unat c mod 32) div 4 \<le> 7" by linarith+
    then show ?thesis by linarith
  qed
  have "unat (?c mod 4 * 8 + ?c div 4) = (unat c mod 32) mod 4 * 8 + (unat c mod 32) div 4"
    using b by (simp add: unat_word_ariths y)
  then have p: "unat (ucast (?c mod 4 * 8 + ?c div 4) :: u32) = (unat c mod 32) mod 4 * 8 + (unat c mod 32) div 4"
    using b unat_narrow [of "?c mod 4 * 8 + ?c div 4"] by simp
  show ?thesis
  proof (cases "unat c < 32")
    case True
    then have f: "\<not> 32 \<le> c" by (simp add: word_le_nat_alt)
    show ?thesis unfolding spread_def Let_def using p True f by (simp add: unat_widen)
  next
    case False
    then have f: "32 \<le> c" by (simp add: word_le_nat_alt)
    have "unat (ucast (?c mod 4 * 8 + ?c div 4) + 32 :: u32) = (unat c mod 32) mod 4 * 8 + (unat c mod 32) div 4 + 32"
      using p b by (simp add: unat_word_ariths)
    then show ?thesis unfolding spread_def Let_def using False f by (simp add: unat_widen)
  qed
qed

lemma spread_permutes:
  assumes "unat c < 64" "unat d < 64" "c \<noteq> d"
  shows "spread c \<noteq> spread d \<and> unat (spread c) < 64"
proof -
  have b: "(x mod 32) mod 4 * 8 + (x mod 32) div 4 < 32" for x :: nat
  proof -
    have "(x mod 32) mod 4 \<le> 3" "(x mod 32) div 4 \<le> 7" by linarith+
    then show ?thesis by linarith
  qed
  have "spread c \<noteq> spread d"
  proof
    assume "spread c = spread d"
    then have e: "unat (spread c) = unat (spread d)" by simp
    have lt: "(unat c mod 32) div 4 < 8" "(unat d mod 32) div 4 < 8" by linarith+
    have h: "unat c < 32 \<longleftrightarrow> unat d < 32" and
      "(unat c mod 32) mod 4 * 8 + (unat c mod 32) div 4 = (unat d mod 32) mod 4 * 8 + (unat d mod 32) div 4"
      using e b [of "unat c"] b [of "unat d"] unfolding spread_nat [OF assms(1)] spread_nat [OF assms(2)] by (auto split: if_splits)
    then have "unat c mod 32 = unat d mod 32" using place_inj [OF _ lt] by (metis div_mult_mod_eq)
    then have "unat c = unat d" using h assms(1,2) by (cases "unat c < 32") (auto simp: le_mod_geq)
    then show False using assms(3) by (simp add: word_unat_eq_iff)
  qed
  moreover have "unat (spread c) < 64" unfolding spread_nat [OF assms(1)] using b [of "unat c"] by (auto split: if_splits)
  ultimately show ?thesis by blast
qed

text \<open>
  C39: Threads get cores of their own. For every pattern, different thread numbers within the cores of the pattern (24 for pattern 4, 64 for pattern 5, the
  number of cores otherwise) are bound to different cores within them. \<open>BalanceNumaNodes\<close> needs a number of cores divisible
  by 8; with any other it stops the process.
\<close>

theorem affinity_permutes:
  assumes "unat c < cores_of pat cc" "unat d < cores_of pat cc" "c \<noteq> d" and "pat = 3 \<longrightarrow> 8 dvd unat cc"
  shows "\<exists>r q. affinity_core pat cc c = Inr r \<and> affinity_core pat cc d = Inr q \<and> r \<noteq> q \<and> unat r < cores_of pat cc"
proof -
  consider "pat = 3" | "pat = 4" | "pat = 5" | "pat \<noteq> 3" "pat \<noteq> 4" "pat \<noteq> 5" by blast
  then show ?thesis
  proof cases
    case 1
    then obtain P where "unat cc = 8 * P" using assms(4) by (auto simp: dvd_def)
    then show ?thesis using 1 assms balance_permutes [of cc P c d] by (simp add: affinity_core_def cores_of_def)
  next
    case 2
    then show ?thesis using assms crossfire_permutes [of c d] by (simp add: affinity_core_def cores_of_def)
  next
    case 3
    then show ?thesis using assms spread_permutes [of c d] by (simp add: affinity_core_def cores_of_def)
  next
    case 4
    then have lt: "unat c < unat cc" "unat d < unat cc" using assms(1,2) by (simp_all add: cores_of_def)
    have "c mod ucast cc = c" "d mod ucast cc = d" using lt by (simp_all add: word_less_nat_alt mod_word_less unat_widen)
    moreover have "cc \<noteq> 0" using lt(1) by auto
    ultimately show ?thesis using 4 assms lt by (simp add: affinity_core_def cores_of_def)
  qed
qed

theorem affinity_permutes_witness:
  "affinity_core 3 16 1 = Inr 4 \<and> affinity_core 3 16 9 = Inr 5 \<and> (\<exists>r q. affinity_core 3 16 1 = Inr r \<and> affinity_core 3 16 9 = Inr q \<and> r \<noteq> q)"
  using affinity_permutes [of 1 3 16 9] by (simp add: cores_of_def affinity_core_def balance_numa_nodes_def Let_def)

end
