(* ===== verification/Random_Number.thy ===== *)
theory Random_Number
  imports Pmwcas_Prelude
begin

unbundle bit_operations_syntax

text \<open>
  \<open>RandomNumberGenerator\<close> (\<open>src/src/util/random_number_generator.h\<close>), the xorshift generator the tests and benchmarks draw their
  numbers from. The value of \<open>std::random_device\<close> is an argument. The Zipf generators compute in floating point and are
  not modelled.
\<close>

record rng =
  max_value :: u32
  rng_x :: u32
  rng_y :: u32
  rng_z :: u32
  rng_w :: u32

definition new_RandomNumberGenerator :: "u32 \<Rightarrow> u32 \<Rightarrow> u32 \<Rightarrow> u32 \<Rightarrow> rng" where
  "new_RandomNumberGenerator rd seed mn mx =
     \<lparr>max_value = mx, rng_x = (if seed = 0 then rd AND 0x0FFFFFFF else seed), rng_y = 362436069, rng_z = 521288629, rng_w = 88675123\<rparr>"

definition Generate :: "rng \<Rightarrow> u32 \<times> rng" where
  "Generate g =
     (let t = rng_x g XOR push_bit 11 (rng_x g);
          w = (rng_w g XOR drop_bit 19 (rng_w g)) XOR (t XOR drop_bit 8 t);
          g' = g\<lparr>rng_x := rng_y g, rng_y := rng_z g, rng_z := rng_w g, rng_w := w\<rparr>
      in (if max_value g > 0 then w mod max_value g else w, g'))"

definition Generate_max :: "u32 \<Rightarrow> rng \<Rightarrow> (u32 \<times> rng) checked" where
  "Generate_max mx g = (case Generate g of (r, g') \<Rightarrow> if mx = 0 then Inl ''division by zero'' else Inr (r mod mx, g'))"

lemma xor_push_inj:
  assumes "a XOR push_bit 11 a = b XOR push_bit 11 (b :: u32)"
  shows "a = b"
proof (rule bit_word_eqI)
  fix n
  show "n < LENGTH(32) \<Longrightarrow> bit a n = bit b n"
  proof (induction n rule: less_induct)
    case (less n)
    have "bit (a XOR push_bit 11 a) n = bit (b XOR push_bit 11 b) n" using assms by simp
    then show ?case using less by (cases "11 \<le> n") (auto simp: bit_simps)
  qed
qed

lemma xor_drop_inj:
  assumes "a XOR drop_bit 8 a = b XOR drop_bit 8 (b :: u32)"
  shows "a = b"
proof (rule bit_word_eqI)
  fix n
  show "n < LENGTH(32) \<Longrightarrow> bit a n = bit b n"
  proof (induction "32 - n" arbitrary: n rule: less_induct)
    case less
    have e: "bit (a XOR drop_bit 8 a) n = bit (b XOR drop_bit 8 b) n" using assms by simp
    have "bit a (n + 8) = bit b (n + 8)" using less.hyps [of "n + 8"] less.prems
      by (cases "n + 8 < 32") (auto simp: bit_imp_le_length dest: bit_imp_le_length)
    then show ?case using e by (auto simp: bit_simps add.commute)
  qed
qed

text \<open>One round does not lose state.\<close>

lemma Generate_inj:
  assumes "snd (Generate g) = snd (Generate h)"
  shows "g = h"
proof -
  let ?t = "\<lambda>g. rng_x g XOR push_bit 11 (rng_x g)"
  have e: "rng_y g = rng_y h" "rng_z g = rng_z h" "rng_w g = rng_w h" "max_value g = max_value h"
    "(rng_w g XOR drop_bit 19 (rng_w g)) XOR (?t g XOR drop_bit 8 (?t g)) = (rng_w h XOR drop_bit 19 (rng_w h)) XOR (?t h XOR drop_bit 8 (?t h))"
    using arg_cong [OF assms, of rng_x] arg_cong [OF assms, of rng_y] arg_cong [OF assms, of rng_z] arg_cong [OF assms, of max_value]
      arg_cong [OF assms, of rng_w] by (simp_all add: Generate_def Let_def)
  have x: "a XOR u = a XOR v \<Longrightarrow> u = v" for a u v :: u32
  proof -
    assume "a XOR u = a XOR v"
    then have "a XOR (a XOR u) = a XOR (a XOR v)" by simp
    then show "u = v" by (simp flip: xor.assoc)
  qed
  have "?t g XOR drop_bit 8 (?t g) = ?t h XOR drop_bit 8 (?t h)" by (rule x) (use e(5) in \<open>simp only: e(3)\<close>)
  then have "rng_x g = rng_x h" using xor_drop_inj xor_push_inj by blast
  then show ?thesis using e by simp
qed


definition dead :: "rng \<Rightarrow> bool" where
  "dead g \<longleftrightarrow> rng_x g = 0 \<and> rng_y g = 0 \<and> rng_z g = 0 \<and> rng_w g = 0"

lemma max_value_Generate: "max_value (snd (Generate g)) = max_value g"
  by (simp add: Generate_def Let_def)

lemma dead_back: "dead (snd (Generate g)) \<Longrightarrow> dead g"
proof -
  assume d: "dead (snd (Generate g))"
  let ?z = "\<lparr>max_value = max_value g, rng_x = 0, rng_y = 0, rng_z = 0, rng_w = 0\<rparr>"
  have "snd (Generate g) = ?z" using d max_value_Generate [of g] by (simp add: dead_def)
  moreover have "snd (Generate ?z) = ?z" by (simp add: Generate_def Let_def)
  ultimately have "g = ?z" using Generate_inj [of g ?z] by simp
  then show "dead g" by (metis dead_def rng.select_convs(2-5))
qed

text \<open>
  The generator never gets stuck. Whatever seed and random device give, after any number of rounds the state is not the all-zero one
  (which would repeat for ever), two generators in different states never come to the same state, and
  with a maximum every number is below it.
\<close>

theorem rng_never_stuck:
  fixes n :: nat
  assumes "g = ((\<lambda>g. snd (Generate g)) ^^ n) (new_RandomNumberGenerator rd seed mn mx)"
  shows "\<not> dead g \<and> (0 < mx \<longrightarrow> fst (Generate g) < mx) \<and> (h \<noteq> g \<longrightarrow> snd (Generate h) \<noteq> snd (Generate g))"
proof -
  have "\<not> dead (((\<lambda>g. snd (Generate g)) ^^ n) (new_RandomNumberGenerator rd seed mn mx)) \<and>
    max_value (((\<lambda>g. snd (Generate g)) ^^ n) (new_RandomNumberGenerator rd seed mn mx)) = mx"
  proof (induction n)
    case 0
    then show ?case by (simp add: dead_def new_RandomNumberGenerator_def)
  next
    case (Suc n)
    then show ?case using dead_back by (auto simp: max_value_Generate)
  qed
  then have g: "\<not> dead g" "max_value g = mx" unfolding assms by blast+
  have "0 < mx \<Longrightarrow> fst (Generate g) < mx" using g(2) by (simp add: Generate_def Let_def word_mod_less_divisor)
  then show ?thesis using g(1) Generate_inj by blast
qed

theorem rng_never_stuck_witness:
  "\<not> dead (((\<lambda>g. snd (Generate g)) ^^ 2) (new_RandomNumberGenerator 0 1 0 10)) \<and>
    fst (Generate (((\<lambda>g. snd (Generate g)) ^^ 2) (new_RandomNumberGenerator 0 1 0 10))) < 10"
  using rng_never_stuck [OF refl, of 2 0 1 0 10] by simp

end
