(* ===== verification/Fasas_Pool.thy ===== *)
theory Fasas_Pool
  imports Fasas Pool_Cycle
begin

text \<open>
  The constructor of \<open>FASASDescriptorPool\<close> (\<open>src/src/mwcas/FASASDescriptor.cc\<close>): the checks on the metadata, the recovery of an
  area that was in use, and the distribution of the cleared descriptors over the partitions that the base
  class has made (\<open>initVariable\<close> of \<open>Pool\<close>). The size of a descriptor is an argument.
\<close>

section \<open>Construction\<close>

definition fdesc_ptr :: "nat \<Rightarrow> u64 \<Rightarrow> nat \<Rightarrow> u64" where
  "fdesc_ptr esize base i = base + of_nat (esize * i)"

definition zero_fasas :: fasas_desc where
  "zero_fasas = \<lparr>w_address = 0, w_old_value = 0, w_new_value = 0, opType = 0, privateAddress = 0, f_next_ptr = 0, f_owner_partition = 0\<rparr>"

definition place_fasas ::
    "(nat \<Rightarrow> u64) \<Rightarrow> nat \<Rightarrow> nat \<times> partition list \<times> (u64 \<Rightarrow> fasas_desc) \<Rightarrow> nat \<Rightarrow> nat \<times> partition list \<times> (u64 \<Rightarrow> fasas_desc)" where
  "place_fasas ptr per s i = (case s of (part, tab, ds) \<Rightarrow>
     let p = tab ! part; d = (new_FASASDescriptor part)\<lparr>f_next_ptr := free_list p\<rparr> in
     (if (i + 1) mod per = 0 then part + 1 else part, tab[part := p\<lparr>free_list := ptr i\<rparr>], ds(ptr i := d)))"

text \<open>An area whose first descriptor has an operation type was in use before.\<close>

definition recover_if_used :: "(nat \<Rightarrow> u64) \<Rightarrow> nat \<Rightarrow> (u64 \<Rightarrow> fasas_desc) \<Rightarrow> (u64 \<Rightarrow> u64) \<Rightarrow> (u64 \<Rightarrow> u64) checked" where
  "recover_if_used ptr n ds m =
     (if opType (ds (ptr 0)) \<noteq> 0 then recover_fasas 0 (map (\<lambda>i. (ptr i, ds (ptr i))) [0..<n]) m else Inr m)"

definition new_FASASDescriptorPool ::
    "nat \<Rightarrow> nat \<Rightarrow> bool \<Rightarrow> nat \<Rightarrow> epoch_store \<Rightarrow> u32 \<Rightarrow> u32 \<Rightarrow> u64 \<Rightarrow> metadata \<Rightarrow> (u64 \<Rightarrow> fasas_desc) \<Rightarrow> (u64 \<Rightarrow> u64) \<Rightarrow>
     (pool_state \<times> (u64 \<Rightarrow> fasas_desc) \<times> (u64 \<Rightarrow> u64)) checked option" where
  "new_FASASDescriptorPool esize fuel avail fresh h sz parts desc_va md ds m =
     map_option (\<lambda>r. bind_checked r (\<lambda>po.
       let ptr = fdesc_ptr esize desc_va; n = unat (pool_size po) in
       if desc_va = 0 then Inl ''null descriptor pool''
       else if initial_address md \<noteq> desc_va - 64 then Inl ''invalid initial address''
       else if descriptor_count md \<noteq> ucast (pool_size po) then Inl ''wrong descriptor pool size''
       else bind_checked (recover_if_used ptr n ds m)
         (\<lambda>m'. if \<not> pool_size po > partition_count po then Inl ''provided pool size is less than partition count''
            else case foldl (place_fasas ptr (unat (pool_size po div partition_count po))) (0, partition_table po, \<lambda>_. zero_fasas) [0..<n] of
              (_, tab, ds') \<Rightarrow> Inr (po\<lparr>partition_table := tab, desc_base := desc_va\<rparr>, ds', m'))))
       (initVariable fuel avail fresh h sz parts)"

section \<open>The free lists\<close>

fun fchain :: "(u64 \<Rightarrow> fasas_desc) \<Rightarrow> u64 \<Rightarrow> u64 list \<Rightarrow> bool" where
  "fchain ds p [] \<longleftrightarrow> p = 0"
| "fchain ds p (x # xs) \<longleftrightarrow> p = x \<and> x \<noteq> 0 \<and> fchain ds (f_next_ptr (ds x)) xs"

lemma fchain_cong: "(\<And>x. x \<in> set xs \<Longrightarrow> ds x = ds' x) \<Longrightarrow> fchain ds p xs \<longleftrightarrow> fchain ds' p xs"
  by (induction xs arbitrary: p) auto

definition farea_ok :: "nat \<Rightarrow> u64 \<Rightarrow> nat \<Rightarrow> bool" where
  "farea_ok esize base n \<longleftrightarrow> base \<noteq> 0 \<and> 0 < esize \<and> unat base + esize * n < 2 ^ 64"

lemma fdesc_ptr_ok:
  assumes "farea_ok esize base n" and "k < n"
  shows "unat (fdesc_ptr esize base k) = unat base + esize * k" "fdesc_ptr esize base k \<noteq> 0"
proof -
  have "esize * k \<le> esize * n" using assms(2) by simp
  moreover have "unat base + esize * n < 2 ^ 64" using assms(1) unfolding farea_ok_def by blast
  ultimately have "unat base + esize * k < 2 ^ 64" by linarith
  then show u: "unat (fdesc_ptr esize base k) = unat base + esize * k" unfolding fdesc_ptr_def by (rule unat_add_small)
  have "unat base \<noteq> 0" using assms(1) by (simp add: farea_ok_def unat_eq_zero)
  then show "fdesc_ptr esize base k \<noteq> 0" using u by (metis add_is_0 unat_0)
qed

lemma fdesc_ptr_inj:
  assumes "farea_ok esize base n" and "j < n" "k < n" and "fdesc_ptr esize base j = fdesc_ptr esize base k"
  shows "j = k"
proof -
  have "unat base + esize * j = unat base + esize * k"
    using fdesc_ptr_ok(1) [OF assms(1,2)] fdesc_ptr_ok(1) [OF assms(1,3)] unfolding assms(4) by (rule trans [OF sym])
  then show ?thesis using assms(1) by (simp add: farea_ok_def)
qed

definition fplaced :: "(nat \<Rightarrow> u64) \<Rightarrow> partition list \<Rightarrow> nat \<Rightarrow> nat \<Rightarrow> nat \<times> partition list \<times> (u64 \<Rightarrow> fasas_desc) \<Rightarrow> bool" where
  "fplaced ptr tab0 per i s \<longleftrightarrow> (case s of (part, tab, ds) \<Rightarrow> part = i div per \<and> length tab = length tab0 \<and>
     (\<forall>j < length tab. garbage (tab ! j) = garbage (tab0 ! j) \<and> fchain ds (free_list (tab ! j)) (rev (map ptr (block per i j)))) \<and>
     (\<forall>k < i. \<exists>q. ds (ptr k) = (new_FASASDescriptor (k div per))\<lparr>f_next_ptr := q\<rparr>))"

lemma place_fasas_placed:
  assumes area: "farea_ok esize base n" and ptr: "ptr = fdesc_ptr esize base" and per: "0 < per" and i: "i < n"
    and range: "i div per < length tab0" and pl: "fplaced ptr tab0 per i s"
  shows "fplaced ptr tab0 per (Suc i) (place_fasas ptr per s i)"
proof -
  let ?part = "i div per"
  obtain tab ds where s: "s = (?part, tab, ds)" and len: "length tab = length tab0"
    and tab: "\<And>j. j < length tab \<Longrightarrow> garbage (tab ! j) = garbage (tab0 ! j) \<and> fchain ds (free_list (tab ! j)) (rev (map ptr (block per i j)))"
    and fresh: "\<And>k. k < i \<Longrightarrow> \<exists>q. ds (ptr k) = (new_FASASDescriptor (k div per))\<lparr>f_next_ptr := q\<rparr>"
    using pl by (cases s) (auto simp: fplaced_def)
  define d where "d = (new_FASASDescriptor ?part)\<lparr>f_next_ptr := free_list (tab ! ?part)\<rparr>"
  define tab' where "tab' = tab[?part := (tab ! ?part)\<lparr>free_list := ptr i\<rparr>]"
  have other: "ptr k \<noteq> ptr i" if "k < i" for k
    using fdesc_ptr_inj [OF area _ i, of k] that i by (auto simp: ptr)
  have x0: "ptr i \<noteq> 0" using fdesc_ptr_ok(2) [OF area i] by (simp add: ptr)
  have "fchain (ds(ptr i := d)) p (rev (map ptr (block per i j))) = fchain ds p (rev (map ptr (block per i j)))" for p j
    using other by (intro fchain_cong) (auto simp: block_def)
  then have "garbage (tab' ! j) = garbage (tab0 ! j) \<and> fchain (ds(ptr i := d)) (free_list (tab' ! j)) (rev (map ptr (block per (Suc i) j)))"
    if "j < length tab" for j
    using tab [OF that] x0 block_Suc [OF per, of i j] that by (auto simp: tab'_def nth_list_update d_def)
  moreover have "\<exists>q. (ds(ptr i := d)) (ptr k) = (new_FASASDescriptor (k div per))\<lparr>f_next_ptr := q\<rparr>" if "k < Suc i" for k
    using fresh other that by (cases "k = i") (auto simp: d_def)
  moreover have "place_fasas ptr per s i = (Suc i div per, tab', ds(ptr i := d))"
    by (simp add: place_fasas_def s Let_def d_def tab'_def div_Suc)
  ultimately show ?thesis unfolding fplaced_def using len by (simp add: tab'_def)
qed

lemma foldl_fplaced:
  assumes area: "farea_ok esize base n" and ptr: "ptr = fdesc_ptr esize base" and n: "n = length tab0 * per" and per: "0 < per"
    and null: "\<forall>q \<in> set tab0. free_list q = 0"
  shows "fplaced ptr tab0 per n (foldl (place_fasas ptr per) (0, tab0, \<lambda>_. zero_fasas) [0..<n])"
proof -
  have "i \<le> n \<Longrightarrow> fplaced ptr tab0 per i (foldl (place_fasas ptr per) (0, tab0, \<lambda>_. zero_fasas) [0..<i])" for i
  proof (induction i)
    case 0
    then show ?case using null by (simp add: fplaced_def block_def)
  next
    case (Suc i)
    then have "i div per < length tab0" using n by (simp add: less_mult_imp_div_less)
    then show ?case using place_fasas_placed [OF area ptr per, of i tab0] Suc by simp
  qed
  then show ?thesis by blast
qed

text \<open>
  Opening a pool of FASAS descriptors. For a request of at most \<open>2 ^ 31\<close> descriptors and memory at hand the constructor returns: it refuses an area with
  other metadata; otherwise the words are what the recovery makes of them if the area was in use, and
  unchanged if not; it refuses a pool that is not larger than its number of partitions; and then every
  partition has the same number of descriptors on its free list, all as newly constructed.
\<close>

theorem fasas_pool_opened:
  assumes "sz \<le> 2 ^ 31" and "32 \<le> fuel" and "desc_va \<noteq> 0" and r: "r = new_FASASDescriptorPool esize fuel True fresh h sz parts desc_va md ds m"
    and ptr: "ptr = fdesc_ptr esize desc_va"
  shows "\<exists>a \<le> 31. \<exists>b \<le> 9.
    if initial_address md \<noteq> desc_va - 64 then r = Some (Inl ''invalid initial address'')
    else if descriptor_count md \<noteq> 2 ^ a then r = Some (Inl ''wrong descriptor pool size'')
    else case recover_if_used ptr (2 ^ a) ds m of Inl e \<Rightarrow> r = Some (Inl e) | Inr m' \<Rightarrow>
      if a \<le> b then r = Some (Inl ''provided pool size is less than partition count'')
      else \<exists>po ds'. r = Some (Inr (po, ds', m')) \<and> unat (pool_size po) = 2 ^ a \<and> sz \<le> pool_size po \<and>
        (farea_ok esize desc_va (2 ^ a) \<longrightarrow>
          (\<forall>p < 2 ^ b. fchain ds' (free_list (partition_table po ! p)) (rev (map ptr [p * 2 ^ (a - b)..<(p + 1) * 2 ^ (a - b)]))) \<and>
          (\<forall>k < 2 ^ a. \<exists>q. ds' (ptr k) = (new_FASASDescriptor (k div 2 ^ (a - b)))\<lparr>f_next_ptr := q\<rparr>))"
proof -
  obtain a where a: "a \<le> 31" "round_pool_size fuel sz 1 = Some (2 ^ a)" "sz \<le> 2 ^ a"
    using round_pool_size_spec [OF assms(1), of 0 fuel] assms(2) by auto
  obtain b where b: "b \<le> 9" "round_partition_count [1..<10] parts 1 = 2 ^ b"
    using round_partition_count_spec [of 0 parts "[1..<10]"] by auto
  obtain mg h' where ep: "EpochManager_Initialize fresh new_EpochManager h = (OK, mg, h')"
    by (rule epoch_initialized)
  have u: "unat (2 ^ a :: u32) = 2 ^ a" "unat (2 ^ b :: u32) = 2 ^ b"
    using u32_exp_less [of a] u32_exp_less [of b] a(1) b(1) by simp_all
  have pos: "(2 :: u32) ^ a > 0" unfolding word_less_nat_alt u(1) by simp
  define tab0 where "tab0 = replicate (2 ^ b) fresh_partition"
  define po0 where "po0 = \<lparr>pool_size = 2 ^ a, partition_count = 2 ^ b, partition_table = tab0, next_partition = 0, epoch = mg, estore = h',
      desc_base = 0, desc_heap = (\<lambda>_. zero_descriptor), tls_part = (\<lambda>_. None), freed = []\<rparr>"
  have init: "initVariable fuel True fresh h sz parts = Some (Inr po0)"
    using pos by (simp add: initVariable_def ep a(2) b(2) [unfolded One_nat_def] ok_def OK_def status_code_def Let_def
        new_partitions_ok u(2) po0_def tab0_def)
  have le: "(2 ^ b :: u32) < 2 ^ a \<longleftrightarrow> b < a" by (simp add: word_less_nat_alt u)
  have per: "unat (2 ^ a div 2 ^ b :: u32) = 2 ^ (a - b)" if "b < a" using that by (simp add: unat_div u power_diff)
  have cnt: "(ucast (2 ^ a :: u32) :: u64) = 2 ^ a"
  proof -
    have lt: "(2 :: nat) ^ a < 2 ^ LENGTH(64)" using a(1) power_strict_increasing [of a 64 "2 :: nat"] by simp
    have "unat (ucast (2 ^ a :: u32) :: u64) = 2 ^ a" using lt by (simp add: unsigned_ucast_eq take_bit_eq_mod u(1))
    moreover have "unat (2 ^ a :: u64) = 2 ^ a" using unat_of_nat_small [where 'a = 64, OF lt] by simp
    ultimately show ?thesis by (simp add: word_unat_eq_iff)
  qed
  define f where "f = foldl (place_fasas ptr (2 ^ (a - b))) (0, tab0, \<lambda>_. zero_fasas) [0..<2 ^ a]"
  obtain part tab ds' where f': "f = (part, tab, ds')" by (cases f) auto
  have new: "r = Some (if initial_address md \<noteq> desc_va - 64 then Inl ''invalid initial address''
      else if descriptor_count md \<noteq> 2 ^ a then Inl ''wrong descriptor pool size''
      else bind_checked (recover_if_used ptr (2 ^ a) ds m) (\<lambda>m'. if \<not> b < a then Inl ''provided pool size is less than partition count''
        else Inr (po0\<lparr>partition_table := tab, desc_base := desc_va\<rparr>, ds', m')))"
  proof (cases "b < a")
    case True
    then show ?thesis unfolding r new_FASASDescriptorPool_def init using assms(3) f'
      by (simp add: Let_def po0_def u le cnt f_def ptr per [OF True])
  next
    case False
    then show ?thesis unfolding r new_FASASDescriptorPool_def init using assms(3)
      by (simp add: Let_def po0_def u le cnt ptr)
  qed
  have good: "(\<forall>p < 2 ^ b. fchain ds' (free_list (tab ! p)) (rev (map ptr [p * 2 ^ (a - b)..<(p + 1) * 2 ^ (a - b)]))) \<and>
      (\<forall>k < 2 ^ a. \<exists>q. ds' (ptr k) = (new_FASASDescriptor (k div 2 ^ (a - b)))\<lparr>f_next_ptr := q\<rparr>)"
    if "farea_ok esize desc_va (2 ^ a)" "b < a"
  proof -
    have n: "(2 :: nat) ^ a = length tab0 * 2 ^ (a - b)" using that(2) by (simp add: tab0_def flip: power_add)
    have pl: "fplaced ptr tab0 (2 ^ (a - b)) (2 ^ a) (part, tab, ds')"
      using foldl_fplaced [OF that(1) ptr n] fresh_partition_garbage(1) unfolding f_def [symmetric] f' by (simp add: tab0_def)
    have bl: "block (2 ^ (a - b)) (2 ^ a) p = [p * 2 ^ (a - b)..<(p + 1) * 2 ^ (a - b)]" if "p < 2 ^ b" for p
    proof -
      have "(p + 1) * 2 ^ (a - b) \<le> 2 ^ b * 2 ^ (a - b)" using that by (intro mult_le_mono1) simp
      then show ?thesis using n by (simp add: block_def tab0_def min_def)
    qed
    have "length tab = 2 ^ b" using pl by (simp add: fplaced_def tab0_def)
    then have "fchain ds' (free_list (tab ! p)) (rev (map ptr (block (2 ^ (a - b)) (2 ^ a) p)))" if "p < 2 ^ b" for p
      using pl that by (simp add: fplaced_def)
    then show ?thesis using pl bl unfolding fplaced_def by simp
  qed
  show ?thesis
    by (rule exI [of _ a], rule conjI [OF a(1)], rule exI [of _ b], rule conjI [OF b(1)])
      (use new good a(3) u in \<open>auto simp: po0_def split: sum.split\<close>)
qed

end
