(* ===== verification/Spec2Isabelle.thy ===== *)
theory Spec2Isabelle
  imports Pool_Cycle Epoch_Machine Fasas_Theorems Dlist_Theorems Dlist_Seq Volatile Ofasas_Runs Ofasas_Pool Allocator_Safety Metrics Library Affinity
    Random_Number Fasas_Pool
begin

text \<open>
  A verification of pmwcas, a C++ library for multi-word compare-and-swap (MwCAS) on volatile and on
  persistent memory.

  \<^bold>\<open>The program.\<close> An application takes a descriptor from a pool (\<open>DescriptorPool\<close>), adds the words to
  change with their expected and new values, and calls \<open>MwCAS\<close>. The operation installs a pointer to the
  descriptor into every word by a conditional CAS, decides by a CAS on the status, and replaces the
  pointers by the final values; threads that meet a pointer help. In the persistent build (\<open>PMEM\<close>) a
  dirty bit in words and status tells what is not flushed yet, and after a crash the constructor of
  the pool rolls every operation forward or back. A finished descriptor goes through a garbage list
  (\<open>GarbageListUnsafe\<close>) and is reused when the epoch manager (\<open>EpochManager\<close>) says no thread can hold
  it. On top of the primitive stand two doubly linked lists (\<open>MwCASDList\<close>, \<open>CASDList\<close>); beside it the
  fetch-and-store-and-store operation in two forms (\<open>FASASDescriptor\<close>, \<open>OptmizedFASASDescriptor\<close>). Below all of
  them are an allocator with memory per thread, counters, the library-wide objects and the
  binding of threads to cores.

  \<^bold>\<open>Shared vocabulary.\<close> \<open>Pmwcas_Prelude\<close> has the integer types (\<open>u64\<close>, \<open>u32\<close>), the result type
  \<open>checked\<close> (\<open>Inl\<close> a message when a \<open>RAW_CHECK\<close> stops the process) and the lemmas on lists, words and
  folds that the components share. Integers are machine words and wrap as in C++.

  \<^bold>\<open>Theories and sources.\<close>
  \<^item> \<open>Flags\<close>, \<open>Descriptor\<close> (\<open>mwcas/mwcas.h\<close>, \<open>mwcas.cc\<close>): flag bits 61 to 63, word descriptors as records,
    the descriptor with its four slots, \<open>AddEntry\<close> and its insertion sort, recycle policies and
    \<open>DeallocateMemory\<close>. Entries stay sorted by address without duplicates, a full descriptor stops
    the process.
  \<^item> \<open>Mwcas_Machine\<close> (\<open>mwcas.cc\<close>, \<open>util/atomics.h\<close>, \<open>util/nvram.h\<close>): the persistent MwCAS, its conditional
    CAS, the read of a word and \<open>Cleanup\<close>, one step per access to shared memory, for any number of
    threads, descriptors and words. The state has the memory and the descriptors as the processors see
    them and as NVRAM has them; a cache line may be written back at any moment, a crash keeps NVRAM only.
    A frame per call carries the program counter, helping pushes a frame.
  \<^item> \<open>Mwcas_Protocol\<close>, \<open>Mwcas_Rely\<close>, \<open>Mwcas_Abs\<close>, \<open>Mwcas_Writes\<close>, \<open>Mwcas_Frames\<close>, \<open>Mwcas_Steps\<close>,
    \<open>Mwcas_Safety\<close>, \<open>Mwcas_Theorems\<close>: a rely/guarantee proof. \<open>Protocol\<close> states the invariant and what
    value a word stands for; \<open>Rely\<close> the changes a thread may make; \<open>Abs\<close> what they do to the abstract
    memory; \<open>Writes\<close> classifies the compare-and-swaps; \<open>Frames\<close> has an assertion per program counter;
    \<open>Steps\<close> and \<open>Safety\<close> show that every step is allowed. The theorems: an execution refines atomic
    multi-word CAS, in memory and in what a crash leaves; results that were returned are durable; no
    check stops the process; a status is decided once; a read returns the current value. All of them
    exclude a late install (a delayed helper that places the word descriptor of an operation that
    already succeeded); the last theorem is an execution that shows that atomicity is lost without.
  \<^item> \<open>Recovery\<close> (\<open>mwcas.cc\<close>): the recovery loop on the durable state of the machine, from any reachable
    state: every word gets the value the abstract memory gives it, and operations that returned keep
    their result.
  \<^item> \<open>Volatile\<close> (\<open>mwcas.cc\<close>, \<open>mwcas.h\<close>): the build without \<open>PMEM\<close> and the variants that stop halfway, as runs of one
    thread with fuel. An operation that is alone does what the specification says (fuel 10 is enough); a thread that
    meets a decided descriptor whose owner has stopped never returns, whatever the fuel.
  \<^item> \<open>Pool\<close>, \<open>Pool_Cycle\<close> (\<open>mwcas.cc\<close>, \<open>mwcas.h\<close>): construction with its rounding, allocation with the
    scan of the garbage list, completion, abort and the recycling callback, on the garbage list and
    epoch models. No descriptor is in two places, none is lost, an allocated one is empty.
  \<^item> \<open>Epoch\<close>, \<open>Epoch_Machine\<close> (\<open>common/epoch.h\<close>, \<open>epoch.cc\<close>, \<open>util/hash.h\<close>): the manager and its table as
    functions, with the probing for a free entry and the entry a thread remembers; and a step relation
    in which the scan of the table is interleaved with the other threads: no item that a protected
    thread may hold is declared safe.
  \<^item> \<open>Garbage\<close> (\<open>common/garbage_list.h\<close>, \<open>garbage_list_unsafe.h\<close>): both lists. Every pushed object is
    held or has been destroyed once; a push returns within one round of the ring when a slot is free,
    and not before the counter wraps when the ring is full of items that a thread protects.
  \<^item> \<open>Fasas\<close>, \<open>Fasas_Inv\<close>, \<open>Fasas_Theorems\<close>, \<open>Fasas_Pool\<close> (\<open>mwcas/FASASDescriptor.h\<close>, \<open>.cc\<close>): the operation as a step
    relation with helping; atomicity, one effect per operation, 15 steps for a run alone, what the
    recovery routine does, and the construction of the pool.
  \<^item> \<open>Ofasas\<close>, \<open>Ofasas_Inv\<close>, \<open>Ofasas_Rely\<close>, \<open>Ofasas_Steps\<close>, \<open>Ofasas_Theorems\<close>, \<open>Ofasas_Runs\<close>, \<open>Ofasas_Pool\<close>
    (\<open>mwcas/OptmizedFASASDescriptor.h\<close>, \<open>.cc\<close>): the form with process and sequence numbers in the shared word, as the step
    relation of the processes that share one word, with a durable image whose cache lines
    may be written back at any moment. \<open>Inv\<close> has the invariant, \<open>Rely\<close> what a step may change, \<open>Steps\<close> the
    proof for each step. Every execution is a legal history of compare-and-swaps; recovery after a crash leaves
    a prefix of it and the private words that belong to it; operation and read return within 27 steps
    whatever the others do; a descriptor written back half-way stops recovery; the pool finds each
    descriptor. The first two hold as long as no process reuses a sequence number that another
    still has in sight: the numbers have 4 bits and come round after 16 attempts.
  \<^item> \<open>Tls_Allocator\<close>, \<open>Allocator_Safety\<close> (\<open>environment/environment_linux.h\<close>, \<open>TlsAllocator\<close>): slabs, block lists,
    allocation and release. A block list is a queue (locale \<open>fifo\<close>); blocks in use never overlap while the regions
    of the nodes leave room for 157 slabs, freed memory is served again; without that room blocks do
    overlap. The nodes the threads run on are a list, one for each round of the loop in \<open>Slab::Allocate\<close>.
  \<^item> \<open>Metrics\<close> (\<open>mwcas/metrics.h\<close>, \<open>util/core_local.h\<close>): counters in an array with an entry per thread. The sum is exact for up
    to 80 threads; the next thread writes outside the array, and a restart mixes threads up.
  \<^item> \<open>Library\<close> (\<open>common/environment_internal.h\<close>, \<open>.cc\<close>, \<open>allocator_internal.h\<close>, \<open>.cc\<close>, \<open>pmwcas_internal.cc\<close>): start and stop of the library
    and the registry of thread-local variables: \<open>ClearRegistry\<close> resets every registered variable, joining a
    thread resets none.
  \<^item> \<open>Affinity\<close> (\<open>environment/environment_linux.cc\<close>), \<open>Random_Number\<close> (\<open>util/random_number_generator.h\<close>): every affinity pattern is a permutation of
    the cores it is for; the generator loses no state and never gets stuck.
  \<^item> \<open>Dlist\<close>, \<open>Dlist_Mwcas\<close>, \<open>Dlist_Inv\<close>, \<open>Dlist_Theorems\<close>, \<open>Dlist_Spec\<close>, \<open>Dlist_Cas\<close>, \<open>Dlist_Seq\<close>
    (\<open>double-linked-list/doubly_linked_list.h\<close>, \<open>.cc\<close>): \<open>MwCASDList\<close> for any number of threads over an atomic
    multi-word CAS, which is what \<open>Mwcas_Theorems\<close> provides: each step is an insertion, a
    deletion or no change of the sequence. \<open>CASDList\<close> as runs of one thread with a visible and a durable
    image. \<open>Dlist_Spec\<close> is the contract of a list that one thread uses (locale \<open>sequential_list\<close>); both
    classes are instances (fuel 7 steps for \<open>MwCASDList\<close>, 6 rounds for \<open>CASDList\<close>), so they agree.
  \<^item> \<open>Slice\<close>, \<open>Status\<close> (\<open>include/slice.h\<close>, \<open>include/status.h\<close>, \<open>util/status.cc\<close>): byte views with their
    checks, result codes with their message buffer.

  \<^bold>\<open>Bounds and fuel.\<close> Loops that end are recursive functions; loops that depend on other threads are steps
  of a machine or take fuel, with \<open>None\<close> for a run that needs more. Theorems that an
  operation returns give the fuel that is enough.

  \<^bold>\<open>Not modelled.\<close> Installation by hardware transactions (\<open>RTM\<close>) in \<open>mwcas.cc\<close>; the
  placement of the memory of the pool on NUMA nodes; the release of list nodes, which the
  application does; flushes of the nodes in \<open>MwCASDList\<close>. The rest of the environment (files, shared
  memory segments, clocks, thread pools, the allocator over \<open>malloc\<close>, all of the Windows variants) wraps calls of
  the operating system; the Zipf generators compute in floating point. The benchmarks are clients.
\<close>

end
